(* ===== verification/Prelude.thy ===== *)
theory Prelude
  imports Main "HOL-Library.Word" "HOL-Library.List_Lexorder"
begin

text \<open>
  Shared vocabulary of the development: the machine integers and byte strings of the Rust
  sources, the result type that models \<^verbatim>\<open>Result<T, E>\<close> together with the \<^verbatim>\<open>?\<close>
  operator, and the lexicographic order on byte strings (the order of \<^verbatim>\<open>Vec<u8>\<close> and of
  every key in the storage engine).
\<close>

unbundle bit_operations_syntax

section \<open>Machine integers and byte strings\<close>

type_synonym u8 = "8 word"
type_synonym u64 = "64 word"
type_synonym bytes = "u8 list"

named_theorems byte_simps \<open>arithmetic of single bytes\<close>
named_theorems codec_simps \<open>what decoders do on the output of encoders\<close>

lemma unat_u8_less: "unat (b :: u8) < 256"
proof -
  have "unat b < 2 ^ LENGTH(8)" by (rule unsigned_less)
  then show ?thesis by simp
qed

lemma unat_u8_le: "unat (b :: u8) \<le> 255"
  using unat_u8_less [of b] by simp

lemma unat_of_nat_u8 [byte_simps]: "n < 256 \<Longrightarrow> unat (of_nat n :: u8) = n"
  by (simp add: unat_of_nat)

lemma unat_of_nat_u64: "n < 2 ^ 64 \<Longrightarrow> unat (of_nat n :: u64) = n"
  by (simp add: unat_of_nat)

lemma of_nat_u8_inject [byte_simps]:
  "m < 256 \<Longrightarrow> n < 256 \<Longrightarrow> (of_nat m :: u8) = of_nat n \<longleftrightarrow> m = n"
  by (metis unat_of_nat_u8)

lemma of_nat_u8_less [byte_simps]:
  "m < 256 \<Longrightarrow> n < 256 \<Longrightarrow> (of_nat m :: u8) < of_nat n \<longleftrightarrow> m < n"
  by (simp add: word_less_nat_alt unat_of_nat_u8)

lemma byte_ff: "(0xff :: u8) = - 1" by simp

lemma not_byte_ff [byte_simps]: "NOT (0xff :: u8) = 0"
  unfolding byte_ff by simp

lemma not_ff_less [byte_simps]: "\<not> (0xff :: u8) < a"
  unfolding byte_ff by simp

lemma unat_byte_Suc: "(b :: u8) \<noteq> 0xff \<Longrightarrow> unat (b + 1) = Suc (unat b)"
proof -
  assume "b \<noteq> 0xff"
  then have "1 + b \<noteq> 0"
    unfolding byte_ff by (metis add_eq_0_iff add.inverse_inverse add.commute)
  then show ?thesis by (metis unatSuc add.commute)
qed

lemma not_less_not_iff: "NOT a < NOT b \<longleftrightarrow> b < (a :: 'a::len word)"
proof -
  have le: "unat x \<le> unat (- 1 :: 'a word)" for x :: "'a word"
    by (simp add: word_le_nat_alt [symmetric])
  have "unat (NOT x) = unat (- 1 :: 'a word) - unat x" for x :: "'a word"
  proof -
    have "NOT x = - 1 - x"
      by (simp add: not_eq_complement)
    then show ?thesis
      using unat_sub [of x "- 1"] by simp
  qed
  then show ?thesis
    using le [of a] le [of b] unfolding word_less_nat_alt by simp linarith
qed

section \<open>Results and the question mark operator\<close>

fun res_bind :: "'e + 'a \<Rightarrow> ('a \<Rightarrow> 'e + 'b) \<Rightarrow> 'e + 'b" where
  "res_bind (Inl e) f = Inl e"
| "res_bind (Inr x) f = f x"

fun res_map_err :: "('e \<Rightarrow> 'f) \<Rightarrow> 'e + 'a \<Rightarrow> 'f + 'a" where
  "res_map_err g (Inl e) = Inl (g e)"
| "res_map_err g (Inr x) = Inr x"

lemma res_bind_eq_Inr [simp]:
  "res_bind m f = Inr y \<longleftrightarrow> (\<exists>x. m = Inr x \<and> f x = Inr y)"
  by (cases m) auto

lemma res_bind_eq_Inl:
  "res_bind m f = Inl e \<longleftrightarrow> m = Inl e \<or> (\<exists>x. m = Inr x \<and> f x = Inl e)"
  by (cases m) auto

lemma res_map_err_eq_Inr [simp]: "res_map_err g m = Inr y \<longleftrightarrow> m = Inr y"
  by (cases m) auto

lemma res_bind_assoc: "res_bind (res_bind m f) g = res_bind m (\<lambda>x. res_bind (f x) g)"
  by (cases m) auto

lemma res_bind_split:
  "P (res_bind m f) \<longleftrightarrow> (\<forall>e. m = Inl e \<longrightarrow> P (Inl e)) \<and> (\<forall>x. m = Inr x \<longrightarrow> P (f x))"
  by (cases m) auto

lemma res_bind_split_asm:
  "P (res_bind m f) \<longleftrightarrow>
     \<not> ((\<exists>e. m = Inl e \<and> \<not> P (Inl e)) \<or> (\<exists>x. m = Inr x \<and> \<not> P (f x)))"
  by (cases m) auto

lemmas res_bind_splits = res_bind_split res_bind_split_asm

lemma res_bind_cong [fundef_cong]:
  "m = m' \<Longrightarrow> (\<And>x. m' = Inr x \<Longrightarrow> f x = f' x) \<Longrightarrow> res_bind m f = res_bind m' f'"
  by (cases m') auto

section \<open>The lexicographic order of byte strings\<close>

lemma append_less_same [simp]:
  "(xs @ ys :: 'a::linorder list) < xs @ zs \<longleftrightarrow> ys < zs"
  by (induction xs) auto

lemma append_le_same [simp]:
  "(xs @ ys :: 'a::linorder list) \<le> xs @ zs \<longleftrightarrow> ys \<le> zs"
  by (induction xs) auto

lemma append_less_eq_length:
  fixes xs ys :: "'a::linorder list"
  assumes "length xs = length ys"
  shows "xs @ us < ys @ vs \<longleftrightarrow> xs < ys \<or> xs = ys \<and> us < vs"
  using assms by (induction xs ys rule: list_induct2) auto

lemma append_le_eq_length:
  fixes xs ys :: "'a::linorder list"
  assumes "length xs = length ys"
  shows "xs @ us \<le> ys @ vs \<longleftrightarrow> xs < ys \<or> xs = ys \<and> us \<le> vs"
  using assms by (induction xs ys rule: list_induct2) auto

lemma map_not_less:
  fixes xs ys :: bytes
  assumes "length xs = length ys"
  shows "map NOT xs < map NOT ys \<longleftrightarrow> ys < xs"
  using assms
  by (induction xs ys rule: list_induct2) (auto simp: not_less_not_iff)

lemma less_list_append_self: "ys \<noteq> [] \<Longrightarrow> (xs :: 'a::linorder list) < xs @ ys"
  by (induction xs) (auto simp: neq_Nil_conv)

end
