(* ===== verification/Codec_Number.thy ===== *)
theory Codec_Number
  imports Prelude
begin

text \<open>
  The number codec of \<^verbatim>\<open>components/tikv_util/src/codec/number.rs\<close> (and the variable
  length decoder of \<^verbatim>\<open>components/codec/src/number.rs\<close> that \<^verbatim>\<open>WriteRef::parse\<close> uses):
  fixed width big endian integers in ascending and descending order, and variable length
  integers.  A decoder takes the slice and returns the value with the rest of the slice, the
  model of the \<^verbatim>\<open>&mut BytesSlice\<close> argument.  An \<^verbatim>\<open>i64\<close> is a 64 bit word read with
  \<open>sint\<close>.  Reads through \<^verbatim>\<open>get_unchecked\<close> past the end of the slice are undefined
  behaviour; the model gives them the error \<open>OutOfBounds\<close>, and \<open>decode_var_u64_no_ub\<close>
  shows that no input reaches it.
\<close>

section \<open>Errors of the codec\<close>

datatype codec_error =
    UnexpectedEof \<comment> \<open>\<^verbatim>\<open>Error::Io(ErrorKind::UnexpectedEof)\<close>\<close>
  | InvalidData \<comment> \<open>\<^verbatim>\<open>Error::Io(ErrorKind::InvalidData)\<close>\<close>
  | KeyLength | KeyPadding | KeyNotFound | ValueLength | ValueMeta
  | OutOfBounds \<comment> \<open>an unchecked read past the end of the slice\<close>
  | Panic \<comment> \<open>a failed \<^verbatim>\<open>assert!\<close> or index check\<close>

section \<open>Fixed width big endian integers\<close>

text \<open>The \<open>n\<close> big endian bytes of a number, and the number of a byte string.\<close>

primrec be_bytes :: "nat \<Rightarrow> nat \<Rightarrow> bytes" where
  "be_bytes 0 m = []"
| "be_bytes (Suc n) m = be_bytes n (m div 256) @ [of_nat (m mod 256)]"

definition be_nat :: "bytes \<Rightarrow> nat" where
  "be_nat bs = foldl (\<lambda>a b. a * 256 + unat b) 0 bs"

definition SIGN_MARK :: u64 where
  "SIGN_MARK = push_bit 63 1"

definition order_encode_i64 :: "u64 \<Rightarrow> u64" where
  "order_encode_i64 v = v XOR SIGN_MARK"

definition order_decode_i64 :: "u64 \<Rightarrow> u64" where
  "order_decode_i64 u = u XOR SIGN_MARK"

definition encode_u64 :: "u64 \<Rightarrow> bytes" where
  "encode_u64 v = be_bytes 8 (unat v)"

definition encode_u64_desc :: "u64 \<Rightarrow> bytes" where
  "encode_u64_desc v = be_bytes 8 (unat (NOT v))"

definition encode_i64 :: "u64 \<Rightarrow> bytes" where
  "encode_i64 v = encode_u64 (order_encode_i64 v)"

definition encode_i64_desc :: "u64 \<Rightarrow> bytes" where
  "encode_i64_desc v = encode_u64_desc (order_encode_i64 v)"

definition encode_u32 :: "32 word \<Rightarrow> bytes" where
  "encode_u32 v = be_bytes 4 (unat v)"

definition encode_u16 :: "16 word \<Rightarrow> bytes" where
  "encode_u16 v = be_bytes 2 (unat v)"

definition read_num_bytes ::
    "nat \<Rightarrow> bytes \<Rightarrow> (bytes \<Rightarrow> 'a) \<Rightarrow> codec_error + 'a \<times> bytes" where
  "read_num_bytes n data f =
     (if n \<le> length data then Inr (f (take n data), drop n data)
      else Inl UnexpectedEof)"

definition decode_u64 :: "bytes \<Rightarrow> codec_error + u64 \<times> bytes" where
  "decode_u64 data = read_num_bytes 8 data (\<lambda>b. of_nat (be_nat b))"

definition decode_u32 :: "bytes \<Rightarrow> codec_error + 32 word \<times> bytes" where
  "decode_u32 data = read_num_bytes 4 data (\<lambda>b. of_nat (be_nat b))"

definition decode_u16 :: "bytes \<Rightarrow> codec_error + 16 word \<times> bytes" where
  "decode_u16 data = read_num_bytes 2 data (\<lambda>b. of_nat (be_nat b))"

definition decode_u64_desc :: "bytes \<Rightarrow> codec_error + u64 \<times> bytes" where
  "decode_u64_desc data = res_bind (decode_u64 data) (\<lambda>(v, rest). Inr (NOT v, rest))"

definition decode_i64 :: "bytes \<Rightarrow> codec_error + u64 \<times> bytes" where
  "decode_i64 data = res_bind (decode_u64 data) (\<lambda>(v, rest). Inr (order_decode_i64 v, rest))"

definition decode_i64_desc :: "bytes \<Rightarrow> codec_error + u64 \<times> bytes" where
  "decode_i64_desc data =
     res_bind (decode_u64_desc data) (\<lambda>(v, rest). Inr (order_decode_i64 v, rest))"

definition read_u8 :: "bytes \<Rightarrow> codec_error + u8 \<times> bytes" where
  "read_u8 data = (case data of [] \<Rightarrow> Inl UnexpectedEof | b # rest \<Rightarrow> Inr (b, rest))"

section \<open>Variable length integers\<close>

lemma drop_bit_7_less:
  assumes "(0x80 :: u64) \<le> v"
  shows "unat (drop_bit 7 v) < unat v"
proof -
  have "128 \<le> unat v" using assms by (simp add: word_le_nat_alt)
  then have "unat v div 2 ^ 7 < unat v" by simp
  then show ?thesis by (simp add: drop_bit_eq_div unat_div)
qed

function encode_var_u64 :: "u64 \<Rightarrow> bytes" where
  "encode_var_u64 v =
     (if 0x80 \<le> v then (ucast v OR 0x80) # encode_var_u64 (drop_bit 7 v) else [ucast v])"
  by pat_completeness auto
termination
  by (relation "measure unat") (simp_all add: drop_bit_7_less)

declare encode_var_u64.simps [simp del]

definition encode_var_i64 :: "u64 \<Rightarrow> bytes" where
  "encode_var_i64 v =
     (let vx = push_bit 1 v in encode_var_u64 (if sint v < 0 then NOT vx else vx))"

text \<open>
  The loop of the fast path, which reads nine bytes and then the tenth without bound checks,
  and the checked loop over the whole slice.
\<close>

fun decode_var_fast :: "nat \<Rightarrow> u64 \<Rightarrow> bytes \<Rightarrow> codec_error + u64 \<times> bytes" where
  "decode_var_fast i res [] = Inl OutOfBounds"
| "decode_var_fast i res (b # rest) =
     (if i < 9 then
        (let res' = res OR push_bit (i * 7) (ucast b AND 0x7f) in
         if b < 0x80 then Inr (res', rest) else decode_var_fast (Suc i) res' rest)
      else if b \<le> 1 then Inr (res OR push_bit (9 * 7) (ucast b AND 0x7f), rest)
      else Inl InvalidData)"

fun decode_var_slow :: "nat \<Rightarrow> u64 \<Rightarrow> bytes \<Rightarrow> codec_error + u64 \<times> bytes" where
  "decode_var_slow i res [] = Inl UnexpectedEof"
| "decode_var_slow i res (b # rest) =
     (let res' = res OR push_bit (i * 7) (ucast b AND 0x7f) in
      if b < 0x80 then Inr (res', rest) else decode_var_slow (Suc i) res' rest)"

definition decode_var_u64 :: "bytes \<Rightarrow> codec_error + u64 \<times> bytes" where
  "decode_var_u64 data =
     (if data \<noteq> [] \<and> hd data < 0x80 then Inr (ucast (hd data) AND 0x7f, tl data)
      else if data \<noteq> [] \<and> (10 \<le> length data \<or> last data < 0x80)
      then decode_var_fast 0 0 data
      else decode_var_slow 0 0 data)"

definition decode_var_i64 :: "bytes \<Rightarrow> codec_error + u64 \<times> bytes" where
  "decode_var_i64 data =
     res_bind (decode_var_u64 data)
       (\<lambda>(v, rest). let vx = drop_bit 1 v in Inr (if v AND 1 = 0 then vx else NOT vx, rest))"

text \<open>
  \<^verbatim>\<open>NumberCodec::try_decode_var_u64\<close> of the \<^verbatim>\<open>codec\<close> crate: it masks the tenth byte
  instead of rejecting it, and its slow path stops at the end of the buffer.
\<close>

fun try_decode_var_fast :: "nat \<Rightarrow> u64 \<Rightarrow> bytes \<Rightarrow> codec_error + u64 \<times> bytes" where
  "try_decode_var_fast i val [] = Inl OutOfBounds"
| "try_decode_var_fast i val (b # rest) =
     (if i < 9 then
        (let val' = val OR push_bit (i * 7) (ucast b AND 0x7f) in
         if b < 0x80 then Inr (val', rest) else try_decode_var_fast (Suc i) val' rest)
      else Inr (val OR push_bit (i * 7) (ucast b AND 0x01), rest))"

fun try_decode_var_slow :: "nat \<Rightarrow> u64 \<Rightarrow> bytes \<Rightarrow> codec_error + u64 \<times> bytes" where
  "try_decode_var_slow shift val [] = Inl UnexpectedEof"
| "try_decode_var_slow shift val (b # rest) =
     (if 0x80 \<le> b
      then try_decode_var_slow (shift + 7) (val OR push_bit shift (ucast (b AND 0x7f))) rest
      else Inr (val OR push_bit shift (ucast b), rest))"

definition read_var_u64 :: "bytes \<Rightarrow> codec_error + u64 \<times> bytes" where
  "read_var_u64 buf =
     (if 10 \<le> length buf then try_decode_var_fast 0 0 buf else try_decode_var_slow 0 0 buf)"

section \<open>Fixed width integers: round trips and order\<close>

lemma length_be_bytes [simp]: "length (be_bytes n m) = n"
  by (induction n arbitrary: m) auto

lemma be_nat_snoc: "be_nat (bs @ [b]) = be_nat bs * 256 + unat b"
  by (simp add: be_nat_def)

lemma be_nat_be_bytes: "m < 256 ^ n \<Longrightarrow> be_nat (be_bytes n m) = m"
proof (induction n arbitrary: m)
  case 0
  then show ?case by (simp add: be_nat_def)
next
  case (Suc n)
  from Suc.prems have "m div 256 < 256 ^ n"
    by (simp add: less_mult_imp_div_less mult.commute)
  with Suc.IH have "be_nat (be_bytes n (m div 256)) = m div 256" by blast
  then show ?case by (simp add: be_nat_snoc unat_of_nat_u8)
qed

lemma less_iff_digits:
  "m < m' \<longleftrightarrow>
     m div 256 < m' div 256 \<or> m div 256 = m' div 256 \<and> m mod 256 < m' mod (256 :: nat)"
proof -
  obtain q r q' r' where "m = q * 256 + r" "m' = q' * 256 + r'" "r < 256" "r' < 256"
    and "m div 256 = q" "m mod 256 = r" "m' div 256 = q'" "m' mod 256 = r'"
    by (metis div_mult_mod_eq mod_less_divisor zero_less_numeral)
  then show ?thesis by auto
qed

lemma be_bytes_less:
  "m < 256 ^ n \<Longrightarrow> m' < 256 ^ n \<Longrightarrow> be_bytes n m < be_bytes n m' \<longleftrightarrow> m < m'"
proof (induction n arbitrary: m m')
  case 0
  then show ?case by simp
next
  case (Suc n)
  have "m div 256 < 256 ^ n" "m' div 256 < 256 ^ n"
    using Suc.prems by (simp_all add: less_mult_imp_div_less mult.commute)
  note IH = Suc.IH [OF this]
  have inj: "be_bytes n (m div 256) = be_bytes n (m' div 256) \<longleftrightarrow> m div 256 = m' div 256"
    using be_nat_be_bytes [OF \<open>m div 256 < 256 ^ n\<close>] be_nat_be_bytes [OF \<open>m' div 256 < 256 ^ n\<close>]
    by metis
  have "be_bytes (Suc n) m < be_bytes (Suc n) m' \<longleftrightarrow>
      be_bytes n (m div 256) < be_bytes n (m' div 256) \<or>
      be_bytes n (m div 256) = be_bytes n (m' div 256) \<and>
      (of_nat (m mod 256) :: u8) < of_nat (m' mod 256)"
    by (simp add: append_less_eq_length del: of_nat_mod)
  also have "\<dots> \<longleftrightarrow> m < m'"
    unfolding IH inj less_iff_digits [of m m'] by (subst of_nat_u8_less) simp_all
  finally show ?case .
qed

lemma unat_u64_less: "unat (v :: u64) < 256 ^ 8"
proof -
  have "unat v < 2 ^ LENGTH(64)" by (rule unsigned_less)
  then show ?thesis by simp
qed

lemma length_encode_u64 [simp]: "length (encode_u64 v) = 8"
  by (simp add: encode_u64_def)

lemma length_encode_u64_desc [simp]: "length (encode_u64_desc v) = 8"
  by (simp add: encode_u64_desc_def)

lemma encode_u64_less [simp]: "encode_u64 a < encode_u64 b \<longleftrightarrow> a < b"
  unfolding encode_u64_def word_less_nat_alt
  by (rule be_bytes_less [OF unat_u64_less unat_u64_less])

lemma encode_u64_desc_eq: "encode_u64_desc v = encode_u64 (NOT v)"
  by (simp add: encode_u64_desc_def encode_u64_def)

lemma encode_u64_desc_less [simp]: "encode_u64_desc a < encode_u64_desc b \<longleftrightarrow> b < a"
  by (simp add: encode_u64_desc_eq not_less_not_iff)

lemma decode_encode_u64 [codec_simps]: "decode_u64 (encode_u64 v @ rest) = Inr (v, rest)"
  using be_nat_be_bytes [OF unat_u64_less [of v]]
  by (simp add: decode_u64_def read_num_bytes_def encode_u64_def)

lemma decode_encode_u64_desc [codec_simps]:
  "decode_u64_desc (encode_u64_desc v @ rest) = Inr (v, rest)"
  by (simp add: decode_u64_desc_def encode_u64_desc_eq decode_encode_u64)

lemma encode_u64_inject [simp]: "encode_u64 a = encode_u64 b \<longleftrightarrow> a = b"
  by (metis decode_encode_u64 append_Nil2 Pair_inject sum.inject(2))

lemma encode_u64_desc_inject [simp]: "encode_u64_desc a = encode_u64_desc b \<longleftrightarrow> a = b"
  by (simp add: encode_u64_desc_eq)

lemma encode_u64_desc_le [simp]: "encode_u64_desc a \<le> encode_u64_desc b \<longleftrightarrow> b \<le> a"
  by (auto simp: le_less)

section \<open>Signed integers\<close>

text \<open>Flipping the sign bit adds \<open>2 ^ 63\<close>, so the unsigned order of the encodings is the signed order.\<close>

lemma xor_SIGN_MARK: "v XOR SIGN_MARK = v + 2 ^ 63"
proof -
  have "v XOR SIGN_MARK = flip_bit 63 v"
    by (simp only: SIGN_MARK_def flip_bit_eq_xor)
  also have "\<dots> = v + 2 ^ 63"
    by (simp add: flip_bit_eq_if unset_bit_eq set_bit_eq)
  finally show ?thesis .
qed

lemma uint_order_encode_i64: "uint (order_encode_i64 v) = sint v + 2 ^ 63"
proof -
  have "sint v = take_bit 64 (uint v + 2 ^ 63) - 2 ^ 63"
    by (simp add: sint_uint signed_take_bit_eq_take_bit_shift)
  moreover have "uint (v + 2 ^ 63) = take_bit 64 (uint v + 2 ^ 63)"
    by (simp add: uint_word_ariths take_bit_eq_mod)
  ultimately show ?thesis
    by (simp add: order_encode_i64_def xor_SIGN_MARK)
qed

lemma order_encode_i64_less: "order_encode_i64 a < order_encode_i64 b \<longleftrightarrow> sint a < sint b"
  by (simp add: word_less_alt uint_order_encode_i64)

lemma encode_i64_less [simp]: "encode_i64 a < encode_i64 b \<longleftrightarrow> sint a < sint b"
  by (simp add: encode_i64_def order_encode_i64_less)

lemma encode_i64_desc_less [simp]: "encode_i64_desc a < encode_i64_desc b \<longleftrightarrow> sint b < sint a"
  by (simp add: encode_i64_desc_def order_encode_i64_less)

lemma order_decode_encode_i64 [simp]: "order_decode_i64 (order_encode_i64 v) = v"
  by (simp add: order_decode_i64_def order_encode_i64_def xor.assoc)

lemma decode_encode_i64 [codec_simps]: "decode_i64 (encode_i64 v @ rest) = Inr (v, rest)"
  by (simp add: decode_i64_def encode_i64_def codec_simps)

lemma decode_encode_i64_desc [codec_simps]:
  "decode_i64_desc (encode_i64_desc v @ rest) = Inr (v, rest)"
  by (simp add: decode_i64_desc_def encode_i64_desc_def codec_simps)

section \<open>Variable length integers: round trips\<close>

lemma take_bit_Suc_group:
  "take_bit k V OR push_bit k (take_bit 7 (drop_bit k V)) = take_bit (k + 7) (V :: u64)"
  by (rule bit_word_eqI) (auto simp: bit_simps)

lemma bit_0x80: "bit (0x80 :: u8) n \<longleftrightarrow> n = 7"
proof -
  have "(0x80 :: u8) = push_bit 7 1" by simp
  then show ?thesis by (simp only: bit_push_bit_iff) (auto simp: bit_1_iff)
qed

lemma low_group_mask:
  assumes "\<And>n. bit (m :: u8) n \<longleftrightarrow> n = 7"
  shows "ucast (ucast v OR m) AND mask 7 = take_bit 7 (v :: u64)"
    and "ucast ((ucast v OR m) AND mask 7) = take_bit 7 (v :: u64)"
  by (rule bit_word_eqI, auto simp: bit_simps assms)+

lemma low_group: "ucast (ucast v OR (0x80 :: u8)) AND (0x7f :: u64) = take_bit 7 (v :: u64)"
  using low_group_mask(1) [OF bit_0x80, of v] by (simp add: mask_eq_exp_minus_1)

lemma low_group': "ucast ((ucast v OR 0x80) AND (0x7f :: u8)) = take_bit 7 (v :: u64)"
  using low_group_mask(2) [OF bit_0x80, of v] by (simp add: mask_eq_exp_minus_1)

lemma not_low_group_less: "\<not> (ucast (v :: u64) OR 0x80 :: u8) < 0x80"
  using le_word_or1 [of "0x80 :: u8" "ucast v"] by (simp add: not_less)

lemma take_bit_7_small: "(v :: u64) < 0x80 \<Longrightarrow> take_bit 7 v = v"
  by (simp add: word_unat_eq_iff unsigned_take_bit_eq take_bit_nat_eq_self word_less_nat_alt)

lemma unat_ucast_small: "(v :: u64) < 0x80 \<Longrightarrow> unat (ucast v :: u8) = unat v"
  by (simp add: unsigned_ucast_eq take_bit_eq_mod word_less_nat_alt)

lemma unat_ucast_u8 [simp]: "unat (ucast (b :: u8) :: u64) = unat b"
proof -
  have "unat b < 2 ^ 64" using unat_u8_less [of b] by simp
  then show ?thesis by (simp add: unsigned_ucast_eq take_bit_nat_eq_self)
qed

lemma ucast_small: "(v :: u64) < 0x80 \<Longrightarrow> ucast (ucast v :: u8) = v"
  by (simp add: word_unat_eq_iff unat_ucast_small)

lemma ucast_small_less: "(v :: u64) < 0x80 \<Longrightarrow> (ucast v :: u8) < 0x80"
  by (simp add: word_less_nat_alt unat_ucast_small)

text \<open>
  The loops on the output of the encoder: after \<open>i\<close> groups the accumulator holds the low
  \<open>7 * i\<close> bits of the number, and the input still holds the encoding of the others.
\<close>

lemma take_drop_bit: "take_bit k V OR push_bit k (drop_bit k V) = (V :: u64)"
proof (rule bit_word_eqI)
  fix n
  assume "n < LENGTH(64)"
  then show "bit (take_bit k V OR push_bit k (drop_bit k V)) n = bit V n"
    by (cases "n < k") (auto simp: bit_simps)
qed

lemma drop_bit_63_le: "drop_bit 63 (v :: u64) \<le> 1"
proof -
  have "unat v < 2 ^ LENGTH(64)" by (rule unsigned_less)
  then have "unat v div 2 ^ 63 < 2" by (simp add: less_mult_imp_div_less)
  then show ?thesis by (simp add: word_le_nat_alt drop_bit_eq_div unat_div)
qed

lemma le_1_u64: "(v :: u64) \<le> 1 \<Longrightarrow> v = 0 \<or> v = 1"
  by (metis One_nat_def le_Suc_eq le_zero_eq unat_1 unat_eq_zero word_le_nat_alt word_unat_eq_iff)

lemma encode_var_u64_big:
  "0x80 \<le> v \<Longrightarrow> encode_var_u64 v = (ucast v OR 0x80) # encode_var_u64 (drop_bit 7 v)"
  by (subst encode_var_u64.simps) simp

lemma encode_var_u64_small: "v < 0x80 \<Longrightarrow> encode_var_u64 v = [ucast v]"
  by (subst encode_var_u64.simps) (simp flip: not_le)

lemma small_group: "(v :: u64) < 0x80 \<Longrightarrow> ucast (ucast v :: u8) AND (0x7f :: u64) = v"
  using take_bit_7_small [of v] by (simp add: ucast_small take_bit_eq_mask mask_eq_exp_minus_1)

lemma decode_var_slow_encode:
  "v = drop_bit (i * 7) V \<Longrightarrow>
   decode_var_slow i (take_bit (i * 7) V) (encode_var_u64 v @ rest) = Inr (V, rest)"
proof (induction v arbitrary: i rule: encode_var_u64.induct)
  case (1 v)
  show ?case
  proof (cases "0x80 \<le> v")
    case True
    have "drop_bit 7 v = drop_bit (Suc i * 7) V"
      using "1.prems" by (simp add: add.commute)
    from "1.IH" [OF True this] show ?thesis
      using take_bit_Suc_group [of "i * 7" V]
      by (simp add: encode_var_u64_big True low_group not_low_group_less
          "1.prems" [symmetric] add.commute Let_def)
  next
    case False
    then show ?thesis
      using take_drop_bit [of "i * 7" V]
      by (simp add: encode_var_u64_small small_group ucast_small_less "1.prems" [symmetric])
  qed
qed

lemma decode_var_fast_encode:
  "v = drop_bit (i * 7) V \<Longrightarrow> i \<le> 9 \<Longrightarrow>
   decode_var_fast i (take_bit (i * 7) V) (encode_var_u64 v @ rest) = Inr (V, rest)"
proof (induction v arbitrary: i rule: encode_var_u64.induct)
  case (1 v)
  have last: "v \<le> 1" if "i = 9"
    using that "1.prems" drop_bit_63_le [of V] by simp
  show ?case
  proof (cases "0x80 \<le> v")
    case True
    have "i < 9"
      using order_trans [OF True last] "1.prems"(2)
      by (cases "i = 9") (simp_all add: word_le_nat_alt)
    have "drop_bit 7 v = drop_bit (Suc i * 7) V"
      using "1.prems" by (simp add: add.commute)
    from "1.IH" [OF True this] show ?thesis
      using take_bit_Suc_group [of "i * 7" V] \<open>i < 9\<close>
      by (simp add: encode_var_u64_big True low_group not_low_group_less
          "1.prems"(1) [symmetric] add.commute Let_def)
  next
    case False
    then have "v < 0x80" by simp
    moreover have "(ucast v :: u8) \<le> 1" if "i = 9"
      using last [OF that] le_1_u64 by fastforce
    moreover have "i < 9 \<or> i = 9" using "1.prems"(2) by linarith
    ultimately show ?thesis
      using take_drop_bit [of "i * 7" V]
      by (auto simp: encode_var_u64_small small_group ucast_small_less "1.prems"(1) [symmetric]
          Let_def)
  qed
qed

theorem decode_encode_var_u64 [codec_simps]:
  "decode_var_u64 (encode_var_u64 v @ rest) = Inr (v, rest)"
proof -
  have fast: "decode_var_fast 0 0 (encode_var_u64 v @ rest) = Inr (v, rest)"
    using decode_var_fast_encode [of v 0 v rest] by simp
  have slow: "decode_var_slow 0 0 (encode_var_u64 v @ rest) = Inr (v, rest)"
    using decode_var_slow_encode [of v 0 v rest] by simp
  show ?thesis
  proof (cases "v < 0x80")
    case True
    then show ?thesis
      by (simp add: decode_var_u64_def encode_var_u64_small small_group ucast_small_less)
  next
    case False
    then show ?thesis
      using fast slow
      by (simp add: decode_var_u64_def encode_var_u64_big not_low_group_less)
  qed
qed

lemma try_decode_var_slow_encode:
  "v = drop_bit shift V \<Longrightarrow>
   try_decode_var_slow shift (take_bit shift V) (encode_var_u64 v @ rest) = Inr (V, rest)"
proof (induction v arbitrary: shift rule: encode_var_u64.induct)
  case (1 v)
  show ?case
  proof (cases "0x80 \<le> v")
    case True
    have "drop_bit 7 v = drop_bit (shift + 7) V"
      using "1.prems" by (simp add: add.commute)
    from "1.IH" [OF True this] show ?thesis
      using take_bit_Suc_group [of shift V] not_low_group_less [of v]
      by (simp add: encode_var_u64_big True low_group' "1.prems" [symmetric] not_less)
  next
    case False
    then have "v < 0x80" by simp
    then show ?thesis
      using take_drop_bit [of shift V] ucast_small_less [of v]
      by (simp add: encode_var_u64_small ucast_small "1.prems" [symmetric] not_le [symmetric])
  qed
qed

lemma try_decode_var_fast_encode:
  "v = drop_bit (i * 7) V \<Longrightarrow> i \<le> 9 \<Longrightarrow>
   try_decode_var_fast i (take_bit (i * 7) V) (encode_var_u64 v @ rest) = Inr (V, rest)"
proof (induction v arbitrary: i rule: encode_var_u64.induct)
  case (1 v)
  have last: "v \<le> 1" if "i = 9"
    using that "1.prems" drop_bit_63_le [of V] by simp
  show ?case
  proof (cases "0x80 \<le> v")
    case True
    have "i < 9"
      using order_trans [OF True last] "1.prems"(2)
      by (cases "i = 9") (simp_all add: word_le_nat_alt)
    have "drop_bit 7 v = drop_bit (Suc i * 7) V"
      using "1.prems" by (simp add: add.commute)
    from "1.IH" [OF True this] show ?thesis
      using take_bit_Suc_group [of "i * 7" V] \<open>i < 9\<close>
      by (simp add: encode_var_u64_big True low_group not_low_group_less
          "1.prems"(1) [symmetric] add.commute Let_def)
  next
    case False
    then have "v < 0x80" by simp
    have V: "take_bit (i * 7) V OR push_bit (i * 7) v = V"
      using take_drop_bit [of "i * 7" V] "1.prems"(1) by simp
    show ?thesis
    proof (cases "i = 9")
      case True
      then have "ucast (ucast v :: u8) AND 1 = v"
        using le_1_u64 [OF last] by auto
      with True V \<open>v < 0x80\<close> show ?thesis by (simp add: encode_var_u64_small)
    next
      case False
      with V \<open>v < 0x80\<close> "1.prems"(2) show ?thesis
        by (simp add: encode_var_u64_small small_group ucast_small_less)
    qed
  qed
qed

theorem read_encode_var_u64 [codec_simps]:
  "read_var_u64 (encode_var_u64 v @ rest) = Inr (v, rest)"
  using try_decode_var_fast_encode [of v 0 v rest] try_decode_var_slow_encode [of v 0 v rest]
  by (simp add: read_var_u64_def)

lemma even_bit_0: "(v :: u64) AND 1 = 0 \<longleftrightarrow> \<not> bit v 0"
  by (simp add: and_one_eq bit_0 mod_2_eq_odd)

lemma sint_neg_bit: "sint (v :: u64) < 0 \<longleftrightarrow> bit v 63"
  using bit_last_iff [of v] by simp

lemma bit_drop_push:
  "k = 1 \<Longrightarrow> n < 64 \<Longrightarrow> bit (drop_bit k (push_bit k (v :: u64))) n \<longleftrightarrow> n \<noteq> 63 \<and> bit v n"
  "k = 1 \<Longrightarrow> n < 64 \<Longrightarrow> bit (drop_bit k (NOT (push_bit k (v :: u64)))) n \<longleftrightarrow> n \<noteq> 63 \<and> \<not> bit v n"
  by (auto simp: bit_drop_bit_eq bit_not_iff bit_push_bit_iff simp del: push_bit_Suc push_bit_of_1)

lemma drop_push_bit_nonneg: "\<not> bit v 63 \<Longrightarrow> drop_bit 1 (push_bit 1 v) = (v :: u64)"
  by (rule bit_word_eqI, subst bit_drop_push) auto

lemma drop_push_bit_neg: "bit v 63 \<Longrightarrow> NOT (drop_bit 1 (NOT (push_bit 1 v))) = (v :: u64)"
proof (rule bit_word_eqI)
  fix n
  assume "bit v 63" "n < LENGTH(64)"
  then show "bit (NOT (drop_bit 1 (NOT (push_bit 1 v)))) n = bit v n"
    unfolding bit_not_iff using bit_drop_push(2) [OF refl, of n v] by auto
qed

theorem decode_encode_var_i64 [codec_simps]:
  "decode_var_i64 (encode_var_i64 v @ rest) = Inr (v, rest)"
proof (cases "bit v 63")
  case True
  have "NOT (push_bit 1 v) AND 1 \<noteq> 0"
    by (simp only: even_bit_0 bit_not_iff bit_push_bit_iff) simp
  then show ?thesis
    using True drop_push_bit_neg [OF True]
    unfolding decode_var_i64_def encode_var_i64_def Let_def sint_neg_bit
    by (simp only: if_True decode_encode_var_u64 res_bind.simps split if_False simp_thms)
next
  case False
  have "push_bit 1 v AND 1 = 0"
    by (simp only: even_bit_0 bit_push_bit_iff) simp
  then show ?thesis
    using False drop_push_bit_nonneg [OF False]
    unfolding decode_var_i64_def encode_var_i64_def Let_def sint_neg_bit
    by (simp only: if_True decode_encode_var_u64 res_bind.simps split if_False simp_thms)
qed

section \<open>Unchecked reads stay in bounds\<close>

lemma decode_var_fast_oob:
  "decode_var_fast i res data = Inl OutOfBounds \<Longrightarrow> i \<le> 9 \<Longrightarrow>
   length data + i \<le> 9 \<and> (\<forall>b \<in> set data. 0x80 \<le> b)"
proof (induction i res data rule: decode_var_fast.induct)
  case (2 i res b rest)
  then show ?case by (auto simp: Let_def not_less split: if_splits)
qed simp

lemma decode_var_slow_no_oob: "decode_var_slow i res data \<noteq> Inl OutOfBounds"
  by (induction i res data rule: decode_var_slow.induct) (auto simp: Let_def)

theorem decode_var_u64_no_ub: "decode_var_u64 data \<noteq> Inl OutOfBounds"
proof
  assume oob: "decode_var_u64 data = Inl OutOfBounds"
  then have "decode_var_fast 0 0 data = Inl OutOfBounds"
    and cond: "data \<noteq> []" "10 \<le> length data \<or> last data < 0x80"
    using decode_var_slow_no_oob by (auto simp: decode_var_u64_def split: if_splits)
  from decode_var_fast_oob [OF this(1)]
  have "length data \<le> 9" "\<forall>b \<in> set data. 0x80 \<le> b" by auto
  with cond show False by (cases "10 \<le> length data") (auto dest: last_in_set simp: leD)
qed

section \<open>Properties of the codec\<close>

text \<open>C32: A variable length integer is read back by both decoders: by the one of
  \<^verbatim>\<open>tikv_util\<close> and by the one of the \<^verbatim>\<open>codec\<close> crate, whatever follows it, on the fast and
  on the slow path.\<close>

theorem var_u64_roundtrip:
  "decode_var_u64 (encode_var_u64 v @ rest) = Inr (v, rest) \<and>
   read_var_u64 (encode_var_u64 v @ rest) = Inr (v, rest) \<and>
   decode_var_i64 (encode_var_i64 v @ rest) = Inr (v, rest)"
  by (simp add: decode_encode_var_u64 read_encode_var_u64 decode_encode_var_i64)

text \<open>C33: The unchecked reads of \<^verbatim>\<open>decode_var_u64\<close> never leave the slice, for any input bytes.\<close>

theorem var_u64_reads_in_bounds: "decode_var_u64 data \<noteq> Inl OutOfBounds"
  by (rule decode_var_u64_no_ub)

end
