(* ===== verification/Codec_Bytes.thy ===== *)
theory Codec_Bytes
  imports Codec_Number
begin

text \<open>
  The byte string codec of \<^verbatim>\<open>components/tikv_util/src/codec/bytes.rs\<close>: the memcomparable
  encoding of keys in groups of eight bytes and a marker, its two decoders, the test
  \<open>is_encoded_from\<close> that compares from the last chunk backwards, the compact encoding with a
  length prefix, and \<open>next_prefix_of\<close> and \<open>read_slice\<close> of \<^verbatim>\<open>codec/mod.rs\<close>.  The recursive
  reference encoding \<open>mem_enc\<close> carries the proofs: the loops refine it, it is injective and
  prefix free, and the order of two encodings is the order of the keys even when arbitrary
  bytes (a timestamp) follow them.
\<close>

section \<open>Encoders\<close>

definition ENC_GROUP_SIZE :: nat where
  "ENC_GROUP_SIZE = 8"

definition ENC_MARKER :: u8 where
  "ENC_MARKER = 0xff"

definition ENC_ASC_PADDING :: bytes where
  "ENC_ASC_PADDING = replicate ENC_GROUP_SIZE 0"

definition ENC_DESC_PADDING :: bytes where
  "ENC_DESC_PADDING = replicate ENC_GROUP_SIZE (NOT 0)"

definition max_encoded_bytes_size :: "nat \<Rightarrow> nat" where
  "max_encoded_bytes_size n = (n div ENC_GROUP_SIZE + 1) * (ENC_GROUP_SIZE + 1)"

definition adjust_bytes_order :: "bytes \<Rightarrow> bool \<Rightarrow> bytes" where
  "adjust_bytes_order bs desc = (if desc then map NOT bs else bs)"

text \<open>The loop \<^verbatim>\<open>while index <= len\<close> of \<^verbatim>\<open>BytesEncoder::encode_bytes\<close>.\<close>

function encode_bytes_loop :: "bytes \<Rightarrow> bool \<Rightarrow> nat \<Rightarrow> bytes" where
  "encode_bytes_loop key desc index =
     (if index \<le> length key then
        (let remain = length key - index;
             pad = (if ENC_GROUP_SIZE < remain then 0 else ENC_GROUP_SIZE - remain);
             group =
               (if ENC_GROUP_SIZE < remain
                then adjust_bytes_order (take ENC_GROUP_SIZE (drop index key)) desc
                else adjust_bytes_order (drop index key) desc @
                     take pad (if desc then ENC_DESC_PADDING else ENC_ASC_PADDING))
         in group @ adjust_bytes_order [ENC_MARKER - of_nat pad] desc @
            encode_bytes_loop key desc (index + ENC_GROUP_SIZE))
      else [])"
  by pat_completeness auto
termination
  by (relation "measure (\<lambda>(key, desc, index). Suc (length key) - index)")
    (auto simp: ENC_GROUP_SIZE_def)

declare encode_bytes_loop.simps [simp del]

definition encode_order_bytes :: "bytes \<Rightarrow> bool \<Rightarrow> bytes" where
  "encode_order_bytes bs desc = encode_bytes_loop bs desc 0"

definition encode_bytes :: "bytes \<Rightarrow> bytes" where
  "encode_bytes bs = encode_order_bytes bs False"

definition encode_bytes_desc :: "bytes \<Rightarrow> bytes" where
  "encode_bytes_desc bs = encode_order_bytes bs True"

definition encode_compact_bytes :: "bytes \<Rightarrow> bytes" where
  "encode_compact_bytes data = encode_var_i64 (of_nat (length data)) @ data"

section \<open>Decoders\<close>

text \<open>
  The length of a compact encoding: the addition of two \<^verbatim>\<open>usize\<close> values wraps.
\<close>

definition encoded_compact_len :: "bytes \<Rightarrow> u64" where
  "encoded_compact_len encoded =
     (case decode_var_i64 encoded of
        Inl e \<Rightarrow> of_nat (length encoded)
      | Inr (vn, rest) \<Rightarrow> vn + of_nat (length encoded - length rest))"

definition decode_compact_bytes :: "bytes \<Rightarrow> codec_error + bytes \<times> bytes" where
  "decode_compact_bytes data =
     res_bind (decode_var_i64 data)
       (\<lambda>(vn, rest). if unat vn \<le> length rest then Inr (take (unat vn) rest, drop (unat vn) rest)
                     else Inl UnexpectedEof)"

function encoded_bytes_len_loop :: "bytes \<Rightarrow> bool \<Rightarrow> nat \<Rightarrow> nat" where
  "encoded_bytes_len_loop encoded desc idx =
     (if length encoded < idx + 1 then length encoded
      else let marker = encoded ! idx in
        if desc \<and> marker \<noteq> 0 \<or> \<not> desc \<and> marker \<noteq> ENC_MARKER then idx + 1
        else encoded_bytes_len_loop encoded desc (idx + (ENC_GROUP_SIZE + 1)))"
  by pat_completeness auto
termination
  by (relation "measure (\<lambda>(encoded, desc, idx). length encoded - idx)") auto

declare encoded_bytes_len_loop.simps [simp del]

definition encoded_bytes_len :: "bytes \<Rightarrow> bool \<Rightarrow> nat" where
  "encoded_bytes_len encoded desc = encoded_bytes_len_loop encoded desc ENC_GROUP_SIZE"

definition marker_pad_size :: "u8 \<Rightarrow> bool \<Rightarrow> nat" where
  "marker_pad_size marker desc = (if desc then unat marker else unat (ENC_MARKER - marker))"

function decode_bytes_loop ::
    "bytes \<Rightarrow> bool \<Rightarrow> nat \<Rightarrow> bytes \<Rightarrow> codec_error + bytes \<times> bytes" where
  "decode_bytes_loop data desc offset key =
     (let next_offset = offset + (ENC_GROUP_SIZE + 1) in
      if next_offset \<le> length data then
        (let chunk = take (ENC_GROUP_SIZE + 1) (drop offset data);
             marker = last chunk;
             bs = butlast chunk;
             pad_size = marker_pad_size marker desc in
         if pad_size = 0 then decode_bytes_loop data desc next_offset (key @ bs)
         else if ENC_GROUP_SIZE < pad_size then Inl KeyPadding
         else
           (let key' = key @ take (ENC_GROUP_SIZE - pad_size) bs;
                padding = drop (ENC_GROUP_SIZE - pad_size) bs;
                pad_byte = (if desc then NOT 0 else 0) in
            if list_ex (\<lambda>x. x \<noteq> pad_byte) padding then Inl KeyPadding
            else Inr (if desc then map NOT key' else key', drop next_offset data)))
      else Inl UnexpectedEof)"
  by pat_completeness auto
termination
  by (relation "measure (\<lambda>(data, desc, offset, key). Suc (length data) - offset)") auto

declare decode_bytes_loop.simps [simp del]

definition decode_bytes :: "bytes \<Rightarrow> bool \<Rightarrow> codec_error + bytes \<times> bytes" where
  "decode_bytes data desc = decode_bytes_loop data desc 0 []"

text \<open>
  The in place decoder moves each group towards the front of the buffer
  (\<^verbatim>\<open>ptr::copy\<close>, a \<^verbatim>\<open>memmove\<close>); a move past the end of the buffer would be
  undefined behaviour and is the error \<open>OutOfBounds\<close>.  The result is the buffer after the call and the outcome.
\<close>

definition ptr_copy :: "nat \<Rightarrow> nat \<Rightarrow> nat \<Rightarrow> bytes \<Rightarrow> bytes" where
  "ptr_copy src dst n data = take dst data @ take n (drop src data) @ drop (dst + n) data"

lemma length_ptr_copy:
  "src + n \<le> length data \<Longrightarrow> dst + n \<le> length data \<Longrightarrow> length (ptr_copy src dst n data) = length data"
  unfolding ptr_copy_def by simp

function decode_bytes_in_place_loop ::
    "bytes \<Rightarrow> bool \<Rightarrow> nat \<Rightarrow> nat \<Rightarrow> bytes \<times> (codec_error + unit)" where
  "decode_bytes_in_place_loop data desc write_offset read_offset =
     (let marker_offset = read_offset + ENC_GROUP_SIZE in
      if length data \<le> marker_offset then (data, Inl UnexpectedEof)
      else if length data < write_offset + ENC_GROUP_SIZE then (data, Inl OutOfBounds)
      else
        (let data' = ptr_copy read_offset write_offset ENC_GROUP_SIZE data;
             write_offset' = write_offset + ENC_GROUP_SIZE;
             read_offset' = read_offset + (ENC_GROUP_SIZE + 1);
             marker = data' ! marker_offset;
             pad_size = marker_pad_size marker desc in
         if 0 < pad_size then
           (if ENC_GROUP_SIZE < pad_size then (data', Inl KeyPadding)
            else
              (let padding_slice = take pad_size (if desc then ENC_DESC_PADDING else ENC_ASC_PADDING)
               in
               if take pad_size (drop (write_offset' - pad_size) data') \<noteq> padding_slice
               then (data', Inl KeyPadding)
               else
                 (let data'' = take (write_offset' - pad_size) data' in
                  (if desc then map NOT data'' else data'', Inr ()))))
         else decode_bytes_in_place_loop data' desc write_offset' read_offset'))"
  by pat_completeness auto
termination
  by (relation "measure (\<lambda>(data, desc, w, r). length data - r)")
    (auto simp: length_ptr_copy)

declare decode_bytes_in_place_loop.simps [simp del]

definition decode_bytes_in_place :: "bytes \<Rightarrow> bool \<Rightarrow> bytes \<times> (codec_error + unit)" where
  "decode_bytes_in_place data desc = decode_bytes_in_place_loop data desc 0 0"

section \<open>Comparing an encoding with a raw key\<close>

text \<open>The standard library's \<^verbatim>\<open>chunks_exact\<close>, its remainder, and \<^verbatim>\<open>rchunks_exact\<close>.\<close>

function chunks_exact :: "nat \<Rightarrow> 'a list \<Rightarrow> 'a list list" where
  "chunks_exact n xs =
     (if 0 < n \<and> n \<le> length xs then take n xs # chunks_exact n (drop n xs) else [])"
  by pat_completeness auto
termination
  by (relation "measure (\<lambda>(n, xs). length xs)") auto

declare chunks_exact.simps [simp del]

definition chunks_remainder :: "nat \<Rightarrow> 'a list \<Rightarrow> 'a list" where
  "chunks_remainder n xs = drop (length xs - length xs mod n) xs"

function rchunks_exact :: "nat \<Rightarrow> 'a list \<Rightarrow> 'a list list" where
  "rchunks_exact n xs =
     (if 0 < n \<and> n \<le> length xs
      then drop (length xs - n) xs # rchunks_exact n (take (length xs - n) xs) else [])"
  by pat_completeness auto
termination
  by (relation "measure (\<lambda>(n, xs). length xs)") auto

declare rchunks_exact.simps [simp del]

definition rchunks_remainder :: "nat \<Rightarrow> 'a list \<Rightarrow> 'a list" where
  "rchunks_remainder n xs = take (length xs mod n) xs"

definition check_single_chunk :: "bool \<Rightarrow> bytes \<Rightarrow> bytes \<Rightarrow> bool" where
  "check_single_chunk desc encoded raw =
     (let len = length raw;
          pad = of_nat (ENC_GROUP_SIZE - len) in
      if desc then
        encoded ! ENC_GROUP_SIZE = NOT (ENC_MARKER - pad) \<and>
        list_all (\<lambda>(enc, raw). enc = NOT raw) (zip (take len encoded) raw) \<and>
        list_all (\<lambda>v. v = ENC_MARKER) (drop len (butlast encoded))
      else
        encoded ! ENC_GROUP_SIZE = ENC_MARKER - pad \<and>
        take len encoded = raw \<and>
        list_all (\<lambda>v. v = NOT ENC_MARKER) (drop len (butlast encoded)))"

definition is_encoded_from :: "bytes \<Rightarrow> bytes \<Rightarrow> bool \<Rightarrow> bool" where
  "is_encoded_from encoded raw desc =
     (if rchunks_remainder (ENC_GROUP_SIZE + 1) encoded \<noteq> [] then False
      else
        (case rchunks_exact (ENC_GROUP_SIZE + 1) encoded of
           [] \<Rightarrow> False
         | encoded_chunk # rev_encoded_chunks \<Rightarrow>
             (let raw_chunks = chunks_exact ENC_GROUP_SIZE raw in
              if \<not> check_single_chunk desc encoded_chunk (chunks_remainder ENC_GROUP_SIZE raw)
              then False
              else if length rev_encoded_chunks \<noteq> length raw_chunks then False
              else list_all (\<lambda>(e, r). check_single_chunk desc e r)
                     (zip rev_encoded_chunks (rev raw_chunks)))))"

section \<open>Slices and prefixes\<close>

definition read_slice :: "nat \<Rightarrow> bytes \<Rightarrow> codec_error + bytes \<times> bytes" where
  "read_slice n data =
     (if n \<le> length data then Inr (take n data, drop n data) else Inl UnexpectedEof)"

function next_prefix_of :: "bytes \<Rightarrow> bytes" where
  "next_prefix_of key =
     (if key = [] then []
      else if last key = 0xff then next_prefix_of (butlast key)
      else butlast key @ [last key + 1])"
  by pat_completeness auto
termination
  by (relation "measure length") auto

declare next_prefix_of.simps [simp del]

section \<open>The reference encoding\<close>

text \<open>
  One group is the next eight bytes padded with zeros; its marker counts the padding.
\<close>

definition pad_group :: "bytes \<Rightarrow> bytes" where
  "pad_group bs = take 8 bs @ replicate (8 - length bs) 0"

definition group_marker :: "bytes \<Rightarrow> u8" where
  "group_marker bs = 0xff - of_nat (8 - length bs)"

function mem_enc :: "bytes \<Rightarrow> bytes" where
  "mem_enc bs =
     pad_group bs @ group_marker bs # (if 8 \<le> length bs then mem_enc (drop 8 bs) else [])"
  by pat_completeness auto
termination
  by (relation "measure length") auto

declare mem_enc.simps [simp del]

lemma length_pad_group [simp]: "length (pad_group bs) = 8"
  by (simp add: pad_group_def)

lemma adjust_bytes_order_append:
  "adjust_bytes_order (xs @ ys) desc = adjust_bytes_order xs desc @ adjust_bytes_order ys desc"
  by (simp add: adjust_bytes_order_def)

lemma adjust_bytes_order_adjust [simp]:
  "adjust_bytes_order (adjust_bytes_order xs desc) desc = xs"
  by (simp add: adjust_bytes_order_def comp_def)

lemma length_adjust_bytes_order [simp]: "length (adjust_bytes_order bs desc) = length bs"
  by (simp add: adjust_bytes_order_def)

lemma adjust_padding:
  "n \<le> 8 \<Longrightarrow> take n (if desc then ENC_DESC_PADDING else ENC_ASC_PADDING) =
     adjust_bytes_order (replicate n 0) desc"
  by (simp add: ENC_DESC_PADDING_def ENC_ASC_PADDING_def ENC_GROUP_SIZE_def adjust_bytes_order_def)

lemma encode_bytes_loop_mem_enc:
  "index \<le> length key \<Longrightarrow>
   encode_bytes_loop key desc index = adjust_bytes_order (mem_enc (drop index key)) desc"
proof (induction key desc index rule: encode_bytes_loop.induct)
  case (1 key desc index)
  let ?bs = "drop index key"
  have group: "encode_bytes_loop key desc index =
      adjust_bytes_order (pad_group ?bs @ [group_marker ?bs]) desc @
      encode_bytes_loop key desc (index + 8)"
  proof (cases "8 < length ?bs")
    case True
    then show ?thesis using "1.prems"
      by (subst encode_bytes_loop.simps)
        (simp add: ENC_GROUP_SIZE_def adjust_bytes_order_append pad_group_def group_marker_def
          ENC_MARKER_def)
  next
    case False
    then show ?thesis using "1.prems"
      by (subst encode_bytes_loop.simps)
        (simp add: Let_def ENC_GROUP_SIZE_def adjust_bytes_order_append pad_group_def
          group_marker_def ENC_MARKER_def adjust_padding)
  qed
  show ?case
  proof (cases "8 \<le> length ?bs")
    case True
    with 1 have "encode_bytes_loop key desc (index + 8) =
        adjust_bytes_order (mem_enc (drop 8 ?bs)) desc"
      by (simp add: ENC_GROUP_SIZE_def add.commute)
    with group True show ?thesis
      by (subst mem_enc.simps) (simp add: adjust_bytes_order_append [symmetric])
  next
    case False
    then have "\<not> index + 8 \<le> length key" using "1.prems" by simp
    then have "encode_bytes_loop key desc (index + 8) = []"
      by (subst encode_bytes_loop.simps) simp
    with group False show ?thesis
      by (subst mem_enc.simps) simp
  qed
qed

lemma encode_order_bytes_mem_enc: "encode_order_bytes bs desc = adjust_bytes_order (mem_enc bs) desc"
  by (simp add: encode_order_bytes_def encode_bytes_loop_mem_enc)

lemma encode_bytes_mem_enc: "encode_bytes bs = mem_enc bs"
  by (simp add: encode_bytes_def encode_order_bytes_mem_enc adjust_bytes_order_def)

lemma encode_bytes_desc_mem_enc: "encode_bytes_desc bs = map NOT (mem_enc bs)"
  by (simp add: encode_bytes_desc_def encode_order_bytes_mem_enc adjust_bytes_order_def)

lemma length_mem_enc: "length (mem_enc bs) = max_encoded_bytes_size (length bs)"
proof (induction bs rule: mem_enc.induct)
  case (1 bs)
  show ?case
  proof (cases "8 \<le> length bs")
    case True
    with 1 show ?thesis
      by (subst mem_enc.simps)
        (simp add: max_encoded_bytes_size_def ENC_GROUP_SIZE_def le_div_geq)
  next
    case False
    then show ?thesis
      by (subst mem_enc.simps) (simp add: max_encoded_bytes_size_def ENC_GROUP_SIZE_def)
  qed
qed

section \<open>The encoding is memcomparable\<close>

definition pad_to :: "nat \<Rightarrow> bytes \<Rightarrow> bytes" where
  "pad_to n bs = bs @ replicate (n - length bs) 0"

lemma zeros_le: "replicate (length b) (0 :: u8) \<le> b"
  by (induction b) (auto simp: word_gt_0)

lemma zeros_le_pad_to: "length b \<le> n \<Longrightarrow> replicate n 0 \<le> pad_to n b"
  using zeros_le [of "pad_to n b"] by (simp add: pad_to_def)

lemma pad_to_less:
  "length a \<le> n \<Longrightarrow> length b \<le> n \<Longrightarrow>
   a < b \<longleftrightarrow> pad_to n a < pad_to n b \<or> pad_to n a = pad_to n b \<and> length a < length b"
proof (induction a arbitrary: n b)
  case Nil
  have "pad_to n [] = replicate n 0" by (simp add: pad_to_def)
  with zeros_le_pad_to [OF Nil.prems(2)] show ?case
    by (cases b) (auto simp: order.order_iff_strict)
next
  case (Cons x xs)
  show ?case
  proof (cases b)
    case Nil
    with zeros_le_pad_to [OF Cons.prems(1)] show ?thesis
      by (auto simp: pad_to_def dest: leD)
  next
    case (Cons y ys)
    with Cons.prems Cons.IH [of "n - 1" ys] show ?thesis
      by (cases n) (auto simp: pad_to_def)
  qed
qed

lemma pad_group_pad_to: "pad_group bs = pad_to 8 (take 8 bs)"
  by (simp add: pad_group_def pad_to_def min_def)

lemma pad_to_eq: "a = b \<longleftrightarrow> pad_to n a = pad_to n b \<and> length a = length b"
  by (auto simp: pad_to_def)

lemma group_marker_of_nat: "group_marker bs = of_nat (247 + min 8 (length bs))"
proof -
  have "min 8 (length bs) + (8 - length bs) = 8" by auto
  then have "(of_nat (min 8 (length bs)) :: u8) + of_nat (8 - length bs) = 8"
    by (metis of_nat_add of_nat_numeral)
  then show ?thesis
    by (simp add: group_marker_def algebra_simps)
qed

lemma group_marker_bound: "247 + min 8 n < (256 :: nat)"
  by (simp add: min_def)

lemma group_marker_less:
  "group_marker a < group_marker b \<longleftrightarrow> min 8 (length a) < min 8 (length b)"
  unfolding group_marker_of_nat of_nat_u8_less [OF group_marker_bound group_marker_bound]
  by (rule add_less_cancel_left)

lemma group_marker_eq:
  "group_marker a = group_marker b \<longleftrightarrow> min 8 (length a) = min 8 (length b)"
  unfolding group_marker_of_nat of_nat_u8_inject [OF group_marker_bound group_marker_bound]
  by (rule add_left_cancel)

lemma less_take_drop:
  fixes a b :: "'a::linorder list"
  shows "a < b \<longleftrightarrow> take n a < take n b \<or> take n a = take n b \<and> drop n a < drop n b"
proof (induction n arbitrary: a b)
  case (Suc n)
  show ?case
  proof (cases "a = [] \<or> b = []")
    case False
    then obtain x xs y ys where "a = x # xs" "b = y # ys" by (auto simp: neq_Nil_conv)
    with Suc.IH [of xs ys] show ?thesis by auto
  next
    case True
    then show ?thesis by (cases a; cases b) simp_all
  qed
qed simp

lemma take_eq_groups:
  "take 8 a = take 8 b \<longleftrightarrow> pad_group a = pad_group b \<and> group_marker a = group_marker b"
  using pad_to_eq [of "take 8 a" "take 8 b" 8]
  unfolding pad_group_pad_to group_marker_eq by (simp only: length_take min.commute)

lemma less_groups:
  "a < b \<longleftrightarrow>
     pad_group a < pad_group b \<or>
     pad_group a = pad_group b \<and>
       (group_marker a < group_marker b \<or>
        group_marker a = group_marker b \<and> drop 8 a < drop 8 b)"
proof -
  have "take 8 a < take 8 b \<longleftrightarrow> pad_group a < pad_group b \<or>
      pad_group a = pad_group b \<and> group_marker a < group_marker b"
    using pad_to_less [of "take 8 a" 8 "take 8 b"]
    unfolding pad_group_pad_to group_marker_less by (simp add: min.commute)
  then show ?thesis
    using less_take_drop [of a b 8] take_eq_groups [of a b] by blast
qed

text \<open>Comparison of two encodings followed by arbitrary bytes.\<close>

lemma mem_enc_less:
  "mem_enc a @ x < mem_enc b @ y \<longleftrightarrow> a < b \<or> a = b \<and> x < y"
proof (induction a arbitrary: b rule: mem_enc.induct)
  case (1 a)
  let ?ra = "if 8 \<le> length a then mem_enc (drop 8 a) else []"
  let ?rb = "if 8 \<le> length b then mem_enc (drop 8 b) else []"
  have rest: "?ra @ x < ?rb @ y \<longleftrightarrow> drop 8 a < drop 8 b \<or> drop 8 a = drop 8 b \<and> x < y"
    if "group_marker a = group_marker b"
  proof -
    have "8 \<le> length a \<longleftrightarrow> 8 \<le> length b"
      using that unfolding group_marker_eq by linarith
    then show ?thesis using 1 [of "drop 8 b"] by (cases "8 \<le> length a") simp_all
  qed
  have eq: "a = b \<longleftrightarrow> pad_group a = pad_group b \<and> group_marker a = group_marker b \<and>
      drop 8 a = drop 8 b"
  proof -
    have "a = b \<longleftrightarrow> take 8 a = take 8 b \<and> drop 8 a = drop 8 b"
      using append_take_drop_id [of 8 a] append_take_drop_id [of 8 b] by metis
    then show ?thesis
      using take_eq_groups [of a b] by blast
  qed
  have "mem_enc a @ x < mem_enc b @ y \<longleftrightarrow>
      pad_group a < pad_group b \<or> pad_group a = pad_group b \<and>
        (group_marker a < group_marker b \<or>
         group_marker a = group_marker b \<and> ?ra @ x < ?rb @ y)"
    by (subst (1 2) mem_enc.simps) (simp add: append_less_eq_length)
  then show ?case
    using rest less_groups [of a b] eq by blast
qed

lemma mem_enc_inject: "mem_enc a @ x = mem_enc b @ y \<longleftrightarrow> a = b \<and> x = y"
  using mem_enc_less [of a x b y] mem_enc_less [of b y a x] by (metis less_irrefl linorder_neqE)

lemma mem_enc_eq [simp]: "mem_enc a = mem_enc b \<longleftrightarrow> a = b"
  using mem_enc_inject [of a "[]" b "[]"] by simp

section \<open>Decoding\<close>

text \<open>The reference decoder, by recursion on the ascending encoding.\<close>

function mem_dec :: "bytes \<Rightarrow> codec_error + bytes \<times> bytes" where
  "mem_dec data =
     (if length data \<le> 8 then Inl UnexpectedEof
      else
        (let pad = unat (0xff - data ! 8) in
         if pad = 0 then res_bind (mem_dec (drop 9 data)) (\<lambda>(k, r). Inr (take 8 data @ k, r))
         else if 8 < pad \<or> drop (8 - pad) (take 8 data) \<noteq> replicate pad 0 then Inl KeyPadding
         else Inr (take (8 - pad) data, drop 9 data)))"
  by pat_completeness auto
termination
  by (relation "measure length") auto

declare mem_dec.simps [simp del]

lemma marker_pad_size_adjust: "marker_pad_size m desc = unat (0xff - (if desc then NOT m else m))"
proof -
  have "0xff - NOT m = m"
    by (simp add: not_eq_complement)
  then show ?thesis by (simp add: marker_pad_size_def ENC_MARKER_def)
qed

lemma nth_adjust_bytes_order:
  "i < length bs \<Longrightarrow> adjust_bytes_order bs desc ! i = (if desc then NOT (bs ! i) else bs ! i)"
  by (simp add: adjust_bytes_order_def)

lemma take_adjust_bytes_order: "take n (adjust_bytes_order bs desc) = adjust_bytes_order (take n bs) desc"
  by (simp add: adjust_bytes_order_def take_map)

lemma drop_adjust_bytes_order: "drop n (adjust_bytes_order bs desc) = adjust_bytes_order (drop n bs) desc"
  by (simp add: adjust_bytes_order_def drop_map)

lemmas adjust_bytes_order_simps =
  nth_adjust_bytes_order take_adjust_bytes_order drop_adjust_bytes_order adjust_bytes_order_append

lemma adjust_bytes_order_eq_iff:
  "adjust_bytes_order bs desc = cs \<longleftrightarrow> bs = adjust_bytes_order cs desc"
  by (metis adjust_bytes_order_adjust)

lemma not_list_ex_pad:
  "\<not> list_ex (\<lambda>x. x \<noteq> (if desc then NOT 0 else 0)) bs \<longleftrightarrow>
     adjust_bytes_order bs desc = replicate (length bs) 0"
  unfolding adjust_bytes_order_eq_iff
  by (induction bs) (auto simp: adjust_bytes_order_def)

lemma nine: "8 + 1 = (9 :: nat)" by simp

lemma mem_dec_short: "length data \<le> 8 \<Longrightarrow> mem_dec data = Inl UnexpectedEof"
  by (subst mem_dec.simps) simp

lemma mem_dec_group:
  assumes "8 < length data" "pad = unat (0xff - data ! 8)"
  shows "mem_dec data =
    (if pad = 0 then res_bind (mem_dec (drop 9 data)) (\<lambda>(k, r). Inr (take 8 data @ k, r))
     else if 8 < pad \<or> drop (8 - pad) (take 8 data) \<noteq> replicate pad 0 then Inl KeyPadding
     else Inr (take (8 - pad) data, drop 9 data))"
  by (subst mem_dec.simps) (use assms in \<open>simp add: Let_def\<close>)

lemma decode_bytes_loop_mem_dec:
  "offset \<le> length data \<Longrightarrow>
   decode_bytes_loop data desc offset key =
     res_bind (mem_dec (adjust_bytes_order (drop offset data) desc))
       (\<lambda>(k, r). Inr (adjust_bytes_order key desc @ k, adjust_bytes_order r desc))"
proof (induction data desc offset key rule: decode_bytes_loop.induct)
  case (1 data desc offset key)
  let ?d = "drop offset data"
  let ?a = "adjust_bytes_order ?d desc"
  show ?case
  proof (cases "9 \<le> length ?d")
    case False
    then show ?thesis
      by (subst decode_bytes_loop.simps) (auto simp: Let_def ENC_GROUP_SIZE_def mem_dec_short)
  next
    case True
    define pad where "pad = unat (0xff - ?a ! 8)"
    have chunk: "take 9 ?d = take 8 ?d @ [?d ! 8]"
      using True take_Suc_conv_app_nth [of 8 ?d] by (simp add: numeral_eq_Suc)
    have pad: "marker_pad_size (?d ! 8) desc = pad"
    proof -
      have "8 < length ?d" using True by simp
      from nth_adjust_bytes_order [OF this, of desc] show ?thesis
        unfolding pad_def marker_pad_size_adjust by (simp only:)
    qed
    have step: "decode_bytes_loop data desc offset key =
       (if pad = 0 then decode_bytes_loop data desc (offset + 9) (key @ take 8 ?d)
         else if 8 < pad then Inl KeyPadding
         else if list_ex (\<lambda>x. x \<noteq> (if desc then NOT 0 else 0)) (drop (8 - pad) (take 8 ?d))
         then Inl KeyPadding
         else Inr (adjust_bytes_order (key @ take (8 - pad) (take 8 ?d)) desc, drop (offset + 9) data))"
    proof -
      have "offset + 9 \<le> length data" using True by simp
      then show ?thesis
        unfolding decode_bytes_loop.simps [of data desc offset key] ENC_GROUP_SIZE_def
        by (simp only: Let_def nine chunk last_snoc butlast_snoc pad if_True adjust_bytes_order_def)
    qed
    show ?thesis
    proof (cases "pad = 0")
      case True
      with \<open>9 \<le> length ?d\<close> chunk pad
      have "decode_bytes_loop data desc (offset + 9) (key @ take 8 ?d) =
        res_bind (mem_dec (adjust_bytes_order (drop (offset + 9) data) desc))
          (\<lambda>(k, r). Inr (adjust_bytes_order (key @ take 8 ?d) desc @ k, adjust_bytes_order r desc))"
        using "1.IH" [OF refl _ refl refl refl refl]
        by (simp only: ENC_GROUP_SIZE_def nine chunk last_snoc butlast_snoc) simp
      with True \<open>9 \<le> length ?d\<close> show ?thesis
        unfolding step
        by (subst mem_dec_group [OF _ pad_def])
          (auto simp: adjust_bytes_order_simps add.commute split: res_bind_splits)
    next
      case False
      have "list_ex (\<lambda>x. x \<noteq> (if desc then NOT 0 else 0)) (drop (8 - pad) (take 8 ?d)) \<longleftrightarrow>
          drop (8 - pad) (take 8 ?a) \<noteq> replicate pad 0" if "\<not> 8 < pad"
      proof -
        have "length (drop (8 - pad) (take 8 ?d)) = pad"
          using that \<open>9 \<le> length ?d\<close> by simp
        then show ?thesis
          using not_list_ex_pad [of desc "drop (8 - pad) (take 8 ?d)"]
          by (simp only: adjust_bytes_order_simps) blast
      qed
      with False \<open>9 \<le> length ?d\<close> show ?thesis
        unfolding step
        by (subst mem_dec_group [OF _ pad_def])
          (auto simp: adjust_bytes_order_simps add.commute)
    qed
  qed
qed

lemma unat_group_marker: "unat (0xff - group_marker bs) = 8 - length bs"
  by (simp add: group_marker_def unat_of_nat_u8)

lemma mem_dec_mem_enc [codec_simps]: "mem_dec (mem_enc bs @ rest) = Inr (bs, rest)"
proof (induction bs rule: mem_enc.induct)
  case (1 bs)
  let ?r = "(if 8 \<le> length bs then mem_enc (drop 8 bs) else []) @ rest"
  let ?data = "pad_group bs @ group_marker bs # ?r"
  have pad: "8 - length bs = unat (0xff - ?data ! 8)"
    by (simp add: nth_append unat_group_marker)
  have "mem_dec ?data = Inr (bs, rest)"
  proof (cases "8 \<le> length bs")
    case True
    with 1 show ?thesis
      by (subst mem_dec_group [OF _ pad]) (simp_all add: pad_group_def)
  next
    case False
    then show ?thesis
      by (subst mem_dec_group [OF _ pad]) (simp_all add: pad_group_def)
  qed
  then show ?case by (subst mem_enc.simps) simp
qed

lemma split_group: "8 < length data \<Longrightarrow> data = take 8 data @ data ! 8 # drop 9 (data :: bytes)"
  using id_take_nth_drop [of 8 data] by simp

lemma mem_dec_Inr: "mem_dec data = Inr (k, r) \<Longrightarrow> data = mem_enc k @ r"
proof (induction data arbitrary: k rule: mem_dec.induct)
  case (1 data)
  from "1.prems" have len: "8 < length data"
    by (cases "length data \<le> 8") (auto simp: mem_dec_short)
  define pad where "pad = unat (0xff - data ! 8)"
  note step = mem_dec_group [OF len pad_def]
  have marker: "data ! 8 = 0xff - of_nat pad" by (simp add: pad_def)
  have "data = mem_enc k @ r"
  proof (cases "pad = 0")
    case True
    with "1.prems" obtain k' where k': "mem_dec (drop 9 data) = Inr (k', r)" "k = take 8 data @ k'"
      unfolding step by auto
    with "1.IH" len True have "drop 9 data = mem_enc k' @ r"
      by (auto simp: pad_def)
    moreover have "pad_group k = take 8 data" "group_marker k = data ! 8" "drop 8 k = k'"
      "8 \<le> length k"
      using k'(2) len True marker by (auto simp: pad_group_def group_marker_def)
    ultimately show ?thesis
      using split_group [OF len] by (subst mem_enc.simps) simp
  next
    case False
    with "1.prems" have small: "pad \<le> 8" and zero: "drop (8 - pad) (take 8 data) = replicate pad 0"
      and k: "k = take (8 - pad) data" and r: "r = drop 9 data"
      unfolding step by (auto split: if_splits)
    have "take 8 data = k @ replicate pad 0"
      using append_take_drop_id [of "8 - pad" "take 8 data"] zero k by simp
    moreover have "length k = 8 - pad" using k len by simp
    ultimately have "pad_group k = take 8 data" "group_marker k = data ! 8"
      using small marker by (auto simp: pad_group_def group_marker_def)
    then show ?thesis
      using split_group [OF len] r False \<open>length k = 8 - pad\<close> by (subst mem_enc.simps) simp
  qed
  then show ?case .
qed

lemma mem_dec_iff: "mem_dec data = Inr (k, r) \<longleftrightarrow> data = mem_enc k @ r"
  using mem_dec_Inr mem_dec_mem_enc by blast

lemma decode_bytes_mem_dec:
  "decode_bytes data desc =
     res_bind (mem_dec (adjust_bytes_order data desc)) (\<lambda>(k, r). Inr (k, adjust_bytes_order r desc))"
  unfolding decode_bytes_def
  by (subst decode_bytes_loop_mem_dec) (auto simp: adjust_bytes_order_def)

lemma decode_bytes_iff:
  "decode_bytes data desc = Inr (k, r) \<longleftrightarrow> data = encode_order_bytes k desc @ r"
  unfolding decode_bytes_mem_dec encode_order_bytes_mem_enc
  by (auto simp: mem_dec_iff adjust_bytes_order_eq_iff adjust_bytes_order_append)

lemma decode_encode_bytes [codec_simps]: "decode_bytes (encode_bytes k @ r) False = Inr (k, r)"
  by (simp add: decode_bytes_iff encode_bytes_def)

lemma decode_encode_bytes_desc [codec_simps]:
  "decode_bytes (encode_bytes_desc k @ r) True = Inr (k, r)"
  by (simp add: decode_bytes_iff encode_bytes_desc_def)

section \<open>The in place decoder\<close>

lemma ptr_copy_facts:
  assumes "w \<le> r" "r + 8 < length data" "d = ptr_copy r w 8 data"
  shows "length d = length data" "drop (r + 9) d = drop (r + 9) data" "d ! (r + 8) = data ! (r + 8)"
    "take (w + 8) d = take w data @ take 8 (drop r data)"
  using assms by (auto simp: ptr_copy_def nth_append min_def add.commute)

lemma in_place_step:
  assumes "w \<le> r" "r + 8 < length data"
    and d: "d = ptr_copy r w 8 data"
    and a: "a = adjust_bytes_order (drop r data) desc"
    and pad: "pad = unat (0xff - a ! 8)"
  shows "decode_bytes_in_place_loop data desc w r =
    (if pad = 0 then decode_bytes_in_place_loop d desc (w + 8) (r + 9)
     else if 8 < pad \<or> drop (8 - pad) (take 8 a) \<noteq> replicate pad 0 then (d, Inl KeyPadding)
     else (adjust_bytes_order (take w data) desc @ take (8 - pad) a, Inr ()))"
proof -
  note facts = ptr_copy_facts [OF assms(1,2) d]
  have marker: "marker_pad_size (d ! (r + 8)) desc = pad"
    unfolding marker_pad_size_adjust pad a facts(3)
    using assms(2) by (simp add: nth_adjust_bytes_order add.commute)
  have padding: "take pad (drop (w + 8 - pad) d) = drop (8 - pad) (take 8 (drop r data))"
    if "pad \<le> 8"
  proof -
    have "take pad (drop (w + 8 - pad) d) = drop (w + 8 - pad) (take (w + 8) d)"
      using that by (simp add: drop_take)
    then show ?thesis using that assms(1,2) by (simp add: facts(4) min_def)
  qed
  have slice: "take pad (drop (w + 8 - pad) d) \<noteq>
      take pad (if desc then ENC_DESC_PADDING else ENC_ASC_PADDING) \<longleftrightarrow>
      drop (8 - pad) (take 8 a) \<noteq> replicate pad 0" if "pad \<le> 8"
    unfolding padding [OF that] adjust_padding [OF that] a
    by (simp only: adjust_bytes_order_simps adjust_bytes_order_eq_iff)
  have keep: "take (w + 8 - pad) d = take w data @ take (8 - pad) (drop r data)" if "pad \<le> 8"
  proof -
    have "take (w + 8 - pad) d = take (w + (8 - pad)) (take (w + 8) d)" using that by simp
    then show ?thesis using that assms(1,2) unfolding facts(4) by (subst (asm) take_append) simp
  qed
  have "decode_bytes_in_place_loop data desc w r =
    (if 0 < pad then
       (if 8 < pad then (d, Inl KeyPadding)
        else if take pad (drop (w + 8 - pad) d) \<noteq>
          take pad (if desc then ENC_DESC_PADDING else ENC_ASC_PADDING) then (d, Inl KeyPadding)
        else (adjust_bytes_order (take (w + 8 - pad) d) desc, Inr ()))
     else decode_bytes_in_place_loop d desc (w + 8) (r + 9))"
    using assms(1,2)
    unfolding decode_bytes_in_place_loop.simps [of data desc w r] ENC_GROUP_SIZE_def Let_def
      d [symmetric] marker nine
    by (simp add: adjust_bytes_order_def)
  then show ?thesis
    using slice keep a
    by (auto simp: adjust_bytes_order_simps simp del: take_append)
qed

lemma decode_bytes_in_place_loop_mem_dec:
  "w \<le> r \<Longrightarrow> r \<le> length data \<Longrightarrow>
   case mem_dec (adjust_bytes_order (drop r data) desc) of
     Inl e \<Rightarrow> snd (decode_bytes_in_place_loop data desc w r) = Inl e
   | Inr (k, rest) \<Rightarrow> decode_bytes_in_place_loop data desc w r =
       (adjust_bytes_order (take w data) desc @ k, Inr ())"
proof (induction "length data - r" arbitrary: data w r rule: less_induct)
  case less
  define a where "a = adjust_bytes_order (drop r data) desc"
  show ?case
  proof (cases "r + 8 < length data")
    case False
    then show ?thesis
      by (subst decode_bytes_in_place_loop.simps) (simp add: ENC_GROUP_SIZE_def mem_dec_short)
  next
    case True
    define d where "d = ptr_copy r w 8 data"
    define pad where "pad = unat (0xff - a ! 8)"
    note facts = ptr_copy_facts [OF less.prems(1) True d_def]
    note step = in_place_step [OF less.prems(1) True d_def a_def pad_def]
    have "8 < length a" using True by (simp add: a_def)
    note dec = mem_dec_group [OF this pad_def]
    have IH: "case mem_dec (drop 9 a) of
        Inl e \<Rightarrow> snd (decode_bytes_in_place_loop d desc (w + 8) (r + 9)) = Inl e
      | Inr (k, rest) \<Rightarrow> decode_bytes_in_place_loop d desc (w + 8) (r + 9) =
          (adjust_bytes_order (take w data) desc @ take 8 a @ k, Inr ())"
    proof -
      have "drop 9 a = adjust_bytes_order (drop (r + 9) d) desc"
        "adjust_bytes_order (take (w + 8) d) desc = adjust_bytes_order (take w data) desc @ take 8 a"
        unfolding facts a_def by (simp_all add: adjust_bytes_order_simps add.commute)
      then show ?thesis
        using less.hyps [of d "r + 9" "w + 8"] less.prems True facts(1)
        by (auto split: sum.splits)
    qed
    show ?thesis
      using IH unfolding step a_def [symmetric] dec
      by (cases "pad = 0") (auto split: sum.splits)
  qed
qed

lemma decode_bytes_in_place_decode_bytes:
  "case decode_bytes data desc of
     Inl e \<Rightarrow> snd (decode_bytes_in_place data desc) = Inl e
   | Inr (k, rest) \<Rightarrow> decode_bytes_in_place data desc = (k, Inr ())"
  using decode_bytes_in_place_loop_mem_dec [of 0 0 data desc]
  unfolding decode_bytes_in_place_def decode_bytes_mem_dec
  by (auto simp: adjust_bytes_order_def split: sum.splits)

section \<open>The backwards comparison decides equality with the encoding\<close>

definition enc_group :: "bytes \<Rightarrow> bytes" where
  "enc_group r = pad_group r @ [group_marker r]"

lemma length_enc_group [simp]: "length (enc_group r) = 9"
  by (simp add: enc_group_def)

lemma rchunks_exact_concat:
  "0 < n \<Longrightarrow> \<forall>b \<in> set bs. length b = n \<Longrightarrow> rchunks_exact n (concat bs) = rev bs"
proof (induction bs rule: rev_induct)
  case Nil
  then show ?case by (subst rchunks_exact.simps) simp
next
  case (snoc b bs)
  then show ?case by (subst rchunks_exact.simps) simp
qed

lemma concat_blocks:
  "0 < n \<Longrightarrow> length (xs :: 'a list) mod n = 0 \<Longrightarrow>
   \<exists>bs. xs = concat bs \<and> (\<forall>b \<in> set bs. length b = n)"
proof (induction xs rule: length_induct [case_names 1])
  case (1 xs)
  show ?case
  proof (cases "xs = []")
    case True
    then show ?thesis by (intro exI [of _ "[]"]) simp
  next
    case False
    with 1 have "n \<le> length xs" by (metis length_0_conv mod_less not_le)
    with 1 have "length (drop n xs) mod n = 0" "length (drop n xs) < length xs"
      using False by (auto simp: le_mod_geq)
    with "1.IH" "1.prems"(1) obtain bs where "drop n xs = concat bs" "\<forall>b \<in> set bs. length b = n"
      by metis
    with \<open>n \<le> length xs\<close> show ?thesis
      by (intro exI [of _ "take n xs # bs"]) (auto, metis append_take_drop_id)
  qed
qed

lemma chunks_exact_remainder:
  "mem_enc raw = concat (map enc_group (chunks_exact 8 raw) @ [enc_group (chunks_remainder 8 raw)])"
proof (induction raw rule: mem_enc.induct)
  case (1 raw)
  show ?case
  proof (cases "8 \<le> length raw")
    case True
    then have "chunks_exact 8 raw = take 8 raw # chunks_exact 8 (drop 8 raw)"
      by (subst chunks_exact.simps) simp
    moreover have "chunks_remainder 8 raw = chunks_remainder 8 (drop 8 raw)"
    proof -
      have "8 + (length raw - 8 - (length raw - 8) mod 8) = length raw - length raw mod 8"
        using True by (simp add: le_mod_geq)
      then show ?thesis using True by (simp add: chunks_remainder_def)
    qed
    moreover have "enc_group (take 8 raw) = enc_group raw"
      using True by (simp add: enc_group_def pad_group_def group_marker_def)
    ultimately show ?thesis
      using True 1 by (subst mem_enc.simps) (simp add: enc_group_def [of raw])
  next
    case False
    then have "chunks_exact 8 raw = []" by (subst chunks_exact.simps) simp
    with False show ?thesis
      by (subst mem_enc.simps) (simp add: chunks_remainder_def enc_group_def)
  qed
qed

lemma chunks_exact_length: "c \<in> set (chunks_exact n xs) \<Longrightarrow> length c = n"
proof (induction n xs rule: chunks_exact.induct)
  case (1 n xs)
  then show ?case by (subst (asm) (2) chunks_exact.simps) (auto split: if_splits)
qed

lemma length_chunks_remainder: "length (chunks_remainder 8 raw) < 8"
  by (simp add: chunks_remainder_def)

lemma check_single_chunk_iff:
  assumes "length e = 9" "length r \<le> 8"
  shows "check_single_chunk desc e r \<longleftrightarrow> e = adjust_bytes_order (enc_group r) desc"
proof -
  define n where "n = length r"
  have e: "e = take n e @ drop n (take 8 e) @ [e ! 8]"
  proof -
    have "e = take 8 e @ [e ! 8]"
      using split_group [of e] assms(1) by simp
    then show ?thesis
      using assms n_def append_take_drop_id [of n "take 8 e"] by (metis append_assoc min.absorb1 take_take)
  qed
  have pads: "drop n (butlast e) = drop n (take 8 e)"
    using assms by (simp add: butlast_conv_take)
  have group: "enc_group r = r @ replicate (8 - n) 0 @ [0xff - of_nat (8 - n)]"
    using assms by (simp add: enc_group_def pad_group_def group_marker_def n_def)
  have zip: "list_all (\<lambda>(enc, raw). enc = NOT raw) (zip (take n e) r) \<longleftrightarrow> take n e = map NOT r"
    using assms by (auto simp: n_def list_all_length list_eq_iff_nth_eq)
  have pad: "list_all (\<lambda>v. v = x) (drop n (take 8 e)) \<longleftrightarrow> drop n (take 8 e) = replicate (8 - n) x" for x
    using assms by (auto simp: list_all_length list_eq_iff_nth_eq)
  have lens: "length (take n e) = length r" "length (drop n (take 8 e)) = 8 - n"
    using assms by (auto simp: n_def)
  show ?thesis
    by (subst (2) e) (use lens in \<open>auto simp: check_single_chunk_def Let_def n_def [symmetric] pads zip pad group
        ENC_GROUP_SIZE_def ENC_MARKER_def adjust_bytes_order_def\<close>)
qed

lemma adjust_bytes_order_concat:
  "adjust_bytes_order (concat bs) desc = concat (map (\<lambda>b. adjust_bytes_order b desc) bs)"
  by (simp add: adjust_bytes_order_def map_concat)

lemma list_all_zip_eq:
  "list_all (\<lambda>(x, y). x = f y) (zip xs ys) \<longleftrightarrow> xs = map f ys" if "length xs = length ys"
  using that by (induction xs ys rule: list_induct2) auto

lemma check_chunks_iff:
  assumes "length es = length rs" "\<forall>e \<in> set es. length e = 9" "\<forall>r \<in> set rs. length r \<le> 8"
  shows "list_all (\<lambda>(e, r). check_single_chunk desc e r) (zip es rs) \<longleftrightarrow>
    es = map (\<lambda>r. adjust_bytes_order (enc_group r) desc) rs"
  using assms
  by (induction es rs rule: list_induct2) (auto simp: check_single_chunk_iff)

lemma is_encoded_from_blocks:
  assumes "\<forall>b \<in> set bs. length b = 9"
  shows "is_encoded_from (concat bs) raw desc \<longleftrightarrow>
    bs = map (\<lambda>r. adjust_bytes_order (enc_group r) desc)
           (chunks_exact 8 raw @ [chunks_remainder 8 raw])"
proof (cases bs rule: rev_cases)
  case Nil
  then show ?thesis
    by (simp add: is_encoded_from_def rchunks_remainder_def rchunks_exact.simps [of _ "[]"])
next
  case (snoc bs' b)
  have "length (concat bs) = length bs * 9"
    using assms by (induction bs) auto
  then have full: "rchunks_remainder 9 (concat bs) = []"
    by (simp add: rchunks_remainder_def)
  have rs: "rchunks_exact 9 (concat bs) = b # rev bs'"
    using rchunks_exact_concat [of 9 bs] assms snoc by simp
  have last: "check_single_chunk desc b (chunks_remainder 8 raw) \<longleftrightarrow>
      b = adjust_bytes_order (enc_group (chunks_remainder 8 raw)) desc"
    using assms snoc length_chunks_remainder [of raw] by (intro check_single_chunk_iff) auto
  have short: "\<forall>r \<in> set (chunks_exact 8 raw). length r \<le> 8"
    using chunks_exact_length by fastforce
  have rest: "list_all (\<lambda>(e, r). check_single_chunk desc e r)
        (zip (rev bs') (rev (chunks_exact 8 raw))) \<longleftrightarrow>
      bs' = map (\<lambda>r. adjust_bytes_order (enc_group r) desc) (chunks_exact 8 raw)"
    if "length bs' = length (chunks_exact 8 raw)"
    using check_chunks_iff [of "rev bs'" "rev (chunks_exact 8 raw)" desc] assms snoc that short
    by (simp add: rev_map [symmetric])
  show ?thesis
    unfolding is_encoded_from_def ENC_GROUP_SIZE_def nine rs
    using full last rest snoc by (auto simp: Let_def)
qed

lemma is_encoded_from_iff:
  "is_encoded_from encoded raw desc \<longleftrightarrow> encoded = encode_order_bytes raw desc"
proof (cases "length encoded mod 9 = 0")
  case False
  then have "\<not> is_encoded_from encoded raw desc"
    by (auto simp: is_encoded_from_def rchunks_remainder_def ENC_GROUP_SIZE_def)
  moreover have "length (encode_order_bytes raw desc) mod 9 = 0"
    by (simp add: encode_order_bytes_mem_enc length_mem_enc max_encoded_bytes_size_def
        ENC_GROUP_SIZE_def)
  ultimately show ?thesis using False by auto
next
  case True
  then obtain bs where bs: "encoded = concat bs" "\<forall>b \<in> set bs. length b = 9"
    using concat_blocks [of 9 encoded] by auto
  let ?cs = "map (\<lambda>r. adjust_bytes_order (enc_group r) desc)
    (chunks_exact 8 raw @ [chunks_remainder 8 raw])"
  have enc: "encode_order_bytes raw desc = concat ?cs"
    by (simp add: encode_order_bytes_mem_enc chunks_exact_remainder adjust_bytes_order_append
        adjust_bytes_order_concat comp_def)
  have "bs = ?cs \<longleftrightarrow> concat bs = concat ?cs"
  proof
    assume "concat bs = concat ?cs"
    then have "rchunks_exact 9 (concat bs) = rchunks_exact 9 (concat ?cs)" by (rule arg_cong)
    moreover have "rchunks_exact 9 (concat ?cs) = rev ?cs"
      by (intro rchunks_exact_concat) auto
    ultimately show "bs = ?cs" using rchunks_exact_concat [of 9 bs] bs(2) by (metis rev_rev_ident zero_less_numeral)
  qed simp
  then show ?thesis
    using is_encoded_from_blocks [OF bs(2)] enc bs(1) by simp
qed

section \<open>Lengths, compact bytes and prefixes\<close>

lemma encoded_bytes_len_loop_mem_enc:
  "idx + 1 \<ge> 9 \<Longrightarrow> drop (idx + 1 - 9) encoded = adjust_bytes_order (mem_enc bs) desc @ rest \<Longrightarrow>
   encoded_bytes_len_loop encoded desc idx = idx + 1 - 9 + length (mem_enc bs)"
proof (induction bs arbitrary: idx rule: mem_enc.induct)
  case (1 bs)
  define o' where "o' = idx + 1 - 9"
  have idx: "idx = o' + 8" using "1.prems"(1) by (simp add: o'_def)
  let ?tl = "if 8 \<le> length bs then mem_enc (drop 8 bs) else []"
  have d: "drop o' encoded =
      adjust_bytes_order (pad_group bs) desc @ adjust_bytes_order [group_marker bs] desc @
      adjust_bytes_order ?tl desc @ rest"
    using "1.prems"(2) unfolding o'_def [symmetric]
    by (subst (asm) mem_enc.simps) (simp add: adjust_bytes_order_append [symmetric])
  have "drop o' encoded \<noteq> []" unfolding d by (simp add: adjust_bytes_order_def)
  then have o': "o' \<le> length encoded" by simp
  have len: "\<not> length encoded < idx + 1"
    using arg_cong [OF d, of length] o' by (simp add: idx)
  have "encoded ! idx = drop o' encoded ! 8"
    using o' by (simp add: idx)
  also have "\<dots> = (if desc then NOT (group_marker bs) else group_marker bs)"
    unfolding d by (simp add: nth_append adjust_bytes_order_def)
  finally have marker: "encoded ! idx = (if desc then NOT (group_marker bs) else group_marker bs)" .
  have stop: "desc \<and> encoded ! idx \<noteq> 0 \<or> \<not> desc \<and> encoded ! idx \<noteq> ENC_MARKER \<longleftrightarrow> length bs < 8"
  proof -
    have "group_marker bs \<noteq> 0xff \<longleftrightarrow> length bs < 8"
      using group_marker_eq [of bs "replicate 8 0"] by (auto simp: group_marker_def)
    moreover have "NOT (group_marker bs) = 0 \<longleftrightarrow> group_marker bs = 0xff"
    proof -
      have "NOT (group_marker bs) = NOT 0xff \<longleftrightarrow> group_marker bs = 0xff"
        by (rule bit.compl_eq_compl_iff)
      then show ?thesis by (simp only: not_byte_ff)
    qed
    ultimately show ?thesis using marker by (auto simp: ENC_MARKER_def)
  qed
  show ?case
  proof (cases "8 \<le> length bs")
    case True
    have "drop (idx + 9 + 1 - 9) encoded = adjust_bytes_order (mem_enc (drop 8 bs)) desc @ rest"
    proof -
      have "drop (idx + 9 + 1 - 9) encoded = drop 9 (drop o' encoded)" by (simp add: idx add.commute)
      then show ?thesis unfolding d using True by simp
    qed
    with 1 True have "encoded_bytes_len_loop encoded desc (idx + 9) = idx + 1 + length (mem_enc (drop 8 bs))"
      by simp
    with True len stop show ?thesis
      by (subst encoded_bytes_len_loop.simps, subst mem_enc.simps)
        (auto simp: Let_def ENC_GROUP_SIZE_def idx add.commute add.left_commute)
  next
    case False
    with len stop show ?thesis
      by (subst encoded_bytes_len_loop.simps, subst mem_enc.simps) (simp add: idx)
  qed
qed

lemma encoded_bytes_len_encode:
  "encoded_bytes_len (encode_order_bytes bs desc @ rest) desc = length (encode_order_bytes bs desc)"
  using encoded_bytes_len_loop_mem_enc [of 8 "encode_order_bytes bs desc @ rest" bs desc rest]
  by (simp add: encoded_bytes_len_def encode_order_bytes_mem_enc ENC_GROUP_SIZE_def)

lemma decode_compact_bytes_encode [codec_simps]:
  "length data < 2 ^ 64 \<Longrightarrow>
   decode_compact_bytes (encode_compact_bytes data @ rest) = Inr (data, rest)"
  by (simp add: decode_compact_bytes_def encode_compact_bytes_def codec_simps unat_of_nat_u64)

lemma between_append:
  "q @ u \<le> k \<Longrightarrow> k < q @ v \<Longrightarrow> \<exists>r. k = q @ r \<and> u \<le> r \<and> r < (v :: 'a::linorder list)"
proof (induction q arbitrary: k)
  case (Cons x q)
  then show ?case by (cases k) auto
qed simp

lemma between_byte: "(b :: u8) \<noteq> 0xff \<Longrightarrow> b \<le> x \<Longrightarrow> x < b + 1 \<Longrightarrow> x = b"
  by (simp add: unat_byte_Suc word_le_nat_alt word_less_nat_alt word_unat_eq_iff)

lemma byte_less_Suc: "(b :: u8) \<noteq> 0xff \<Longrightarrow> b < b + 1"
  by (simp add: unat_byte_Suc word_less_nat_alt)

text \<open>The keys from \<open>p\<close> up to \<open>next_prefix_of p\<close> are exactly the keys with the prefix \<open>p\<close>.\<close>

lemma next_prefix_of_range:
  "\<exists>b \<in> set p. b \<noteq> 0xff \<Longrightarrow> p \<le> k \<and> k < next_prefix_of p \<longleftrightarrow> (\<exists>r. k = p @ r)"
proof (induction p rule: next_prefix_of.induct)
  case (1 p)
  then have "p \<noteq> []" by auto
  then obtain q b where p: "p = q @ [b]" by (metis rev_exhaust)
  show ?case
  proof (cases "b = 0xff")
    case True
    have IH: "q \<le> k \<and> k < next_prefix_of q \<longleftrightarrow> (\<exists>r. k = q @ r)"
      using 1 p True by auto
    have next_eq: "next_prefix_of p = next_prefix_of q"
      unfolding p True by (subst next_prefix_of.simps) simp
    show ?thesis
    proof
      assume k: "p \<le> k \<and> k < next_prefix_of p"
      have "q \<le> k" using k p append_le_same [of q "[]" "[b]"] by (simp add: order_trans)
      with IH k next_eq obtain r where "k = q @ r" by auto
      with k p True show "\<exists>r. k = p @ r"
        by (cases r) (auto simp: not_ff_less append_le_same [of q "[255]" "[]", simplified])
    next
      assume "\<exists>r. k = p @ r"
      then show "p \<le> k \<and> k < next_prefix_of p"
        using IH next_eq p append_le_same [of p "[]"] by auto
    qed
  next
    case False
    then have next_eq: "next_prefix_of p = q @ [b + 1]"
      unfolding p by (subst next_prefix_of.simps) simp
    show ?thesis
    proof
      assume "p \<le> k \<and> k < next_prefix_of p"
      then obtain r where "k = q @ r" "[b] \<le> r" "r < [b + 1]"
        using between_append [of q "[b]" k "[b + 1]"] p next_eq by auto
      with False between_byte [of b] show "\<exists>r. k = p @ r"
        by (cases r) (auto simp: p)
    next
      assume "\<exists>r. k = p @ r"
      then show "p \<le> k \<and> k < next_prefix_of p"
        unfolding next_eq using False by (auto simp: p byte_less_Suc)
    qed
  qed
qed

lemma map_not_less_incomparable:
  fixes x y :: bytes
  assumes "\<And>z. y \<noteq> x @ z" "\<And>z. x \<noteq> y @ z"
  shows "map NOT x < map NOT y \<longleftrightarrow> y < x"
  using assms
proof (induction x arbitrary: y)
  case (Cons c x)
  from Cons.prems(2) [of "c # x"] obtain d v where y: "y = d # v" by (cases y) auto
  show ?case
  proof (cases "c = d")
    case True
    with Cons y show ?thesis by simp
  next
    case False
    with y show ?thesis by (auto simp: not_less_not_iff)
  qed
qed auto

lemma mem_enc_desc_less: "map NOT (mem_enc a) < map NOT (mem_enc b) \<longleftrightarrow> b < a"
proof (cases "a = b")
  case False
  then have "mem_enc b \<noteq> mem_enc a @ z" "mem_enc a \<noteq> mem_enc b @ z" for z
    using mem_enc_inject [of b "[]" a z] mem_enc_inject [of a "[]" b z] by auto
  then show ?thesis
    using map_not_less_incomparable [of "mem_enc b" "mem_enc a"] mem_enc_less [of b "[]" a "[]"] by auto
qed simp

lemma mem_dec_no_oob: "mem_dec data \<noteq> Inl OutOfBounds"
proof (induction data rule: mem_dec.induct)
  case (1 data)
  then show ?case by (subst mem_dec.simps) (auto simp: Let_def res_bind_eq_Inl)
qed

lemma decode_bytes_no_oob: "decode_bytes data desc \<noteq> Inl OutOfBounds"
  by (auto simp: decode_bytes_mem_dec res_bind_eq_Inl mem_dec_no_oob)

section \<open>Properties of the byte string codec\<close>

text \<open>C25: The decoder of keys accepts exactly the encodings: it succeeds with key \<open>k\<close> and
  rest \<open>r\<close> if and only if the input is the encoding of \<open>k\<close> followed by \<open>r\<close>, in both
  directions of the order.\<close>

theorem decode_bytes_exact:
  "decode_bytes data desc = Inr (k, r) \<longleftrightarrow> data = encode_order_bytes k desc @ r"
  by (rule decode_bytes_iff)

text \<open>C24: Encoded keys compare as the keys do, even when other bytes follow the encodings; the
  descending encoding reverses the order.\<close>

theorem encode_bytes_memcomparable:
  "(encode_bytes a @ x < encode_bytes b @ y \<longleftrightarrow> a < b \<or> a = b \<and> x < y) \<and>
   (encode_bytes_desc a < encode_bytes_desc b \<longleftrightarrow> b < a)"
  by (simp add: encode_bytes_mem_enc encode_bytes_desc_mem_enc mem_enc_less mem_enc_desc_less)

text \<open>C26: The decoder that works in the buffer of the encoded key gives the same key and the
  same error as the one that allocates, and never moves bytes past the end of the buffer.\<close>

theorem decode_bytes_in_place_equiv:
  "(case decode_bytes data desc of
      Inl e \<Rightarrow> snd (decode_bytes_in_place data desc) = Inl e
    | Inr (k, rest) \<Rightarrow> decode_bytes_in_place data desc = (k, Inr ())) \<and>
   snd (decode_bytes_in_place data desc) \<noteq> Inl OutOfBounds"
  using decode_bytes_in_place_decode_bytes [of data desc] decode_bytes_no_oob [of data desc]
  by (auto split: sum.splits)

text \<open>C27: The test that compares an encoded key with a raw key from the last chunk backwards
  decides whether the one is the encoding of the other.\<close>

theorem is_encoded_from_correct:
  "is_encoded_from encoded raw desc \<longleftrightarrow> encoded = encode_order_bytes raw desc"
  by (rule is_encoded_from_iff)

end
