(* ===== verification/Txn_Types.thy ===== *)
theory Txn_Types
  imports Codec_Bytes
begin

text \<open>
  The data types of \<^verbatim>\<open>components/txn_types\<close> that every transactional component shares:
  timestamps (\<^verbatim>\<open>timestamp.rs\<close>), keys with and without a timestamp, mutations, old values
  and the position of the last change of a key (\<^verbatim>\<open>types.rs\<close>).  A \<^verbatim>\<open>TimeStamp\<close> is its
  64 bit word and a \<^verbatim>\<open>Key\<close> its encoded bytes.  The lemmas show that the user key and the
  timestamp of a stored key can be read back, that \<open>is_user_key_eq\<close>, which compares the last
  eight bytes first, decides equality of the user keys, and that the versions of one key are
  ordered from the newest to the oldest and never interleave with those of another key.
\<close>

section \<open>Timestamps\<close>

type_synonym ts = u64

definition TSO_PHYSICAL_SHIFT_BITS :: nat where
  "TSO_PHYSICAL_SHIFT_BITS = 18"

definition compose :: "u64 \<Rightarrow> u64 \<Rightarrow> ts" where
  "compose phys logic = push_bit TSO_PHYSICAL_SHIFT_BITS phys + logic"

definition ts_zero :: ts where
  "ts_zero = 0"

definition ts_max :: ts where
  "ts_max = - 1"

definition physical :: "ts \<Rightarrow> u64" where
  "physical t = drop_bit TSO_PHYSICAL_SHIFT_BITS t"

definition logical :: "ts \<Rightarrow> u64" where
  "logical t = t AND (push_bit TSO_PHYSICAL_SHIFT_BITS 1 - 1)"

definition is_zero :: "ts \<Rightarrow> bool" where
  "is_zero t \<longleftrightarrow> t = 0"

definition is_max :: "ts \<Rightarrow> bool" where
  "is_max t \<longleftrightarrow> t = ts_max"

text \<open>\<^verbatim>\<open>next\<close> and \<^verbatim>\<open>prev\<close> assert that the result exists: \<open>None\<close> is the panic.\<close>

definition ts_next :: "ts \<Rightarrow> ts option" where
  "ts_next t = (if t < ts_max then Some (t + 1) else None)"

definition ts_prev :: "ts \<Rightarrow> ts option" where
  "ts_prev t = (if 0 < t then Some (t - 1) else None)"

text \<open>The hybrid set of timestamps.\<close>

datatype TsSet = TsEmpty | TsVec "ts list" | TsSet "ts set"

definition TS_SET_USE_VEC_LIMIT :: nat where
  "TS_SET_USE_VEC_LIMIT = 8"

definition TsSet_new :: "ts list \<Rightarrow> TsSet" where
  "TsSet_new xs =
     (if xs = [] then TsEmpty
      else if length xs \<le> TS_SET_USE_VEC_LIMIT then TsVec xs
      else TsSet (set xs))"

definition TsSet_vec :: "ts list \<Rightarrow> TsSet" where
  "TsSet_vec xs = (if xs = [] then TsEmpty else TsVec xs)"

fun TsSet_contains :: "TsSet \<Rightarrow> ts \<Rightarrow> bool" where
  "TsSet_contains TsEmpty t \<longleftrightarrow> False"
| "TsSet_contains (TsVec xs) t \<longleftrightarrow> t \<in> set xs"
| "TsSet_contains (TsSet S) t \<longleftrightarrow> t \<in> S"

section \<open>Keys\<close>

type_synonym key = bytes
type_synonym value_bytes = bytes

definition SHORT_VALUE_MAX_LEN :: nat where
  "SHORT_VALUE_MAX_LEN = 255"

definition is_short_value :: "value_bytes \<Rightarrow> bool" where
  "is_short_value v \<longleftrightarrow> length v \<le> SHORT_VALUE_MAX_LEN"

definition U64_SIZE :: nat where
  "U64_SIZE = 8"

definition Key_from_raw :: "bytes \<Rightarrow> key" where
  "Key_from_raw k = encode_bytes k"

definition Key_from_raw_maybe_unbounded :: "bytes \<Rightarrow> key option" where
  "Key_from_raw_maybe_unbounded k = (if k = [] then None else Some (Key_from_raw k))"

definition Key_into_raw :: "key \<Rightarrow> codec_error + bytes" where
  "Key_into_raw k =
     (case decode_bytes_in_place k False of (k', r) \<Rightarrow> res_bind r (\<lambda>_. Inr k'))"

definition Key_to_raw :: "key \<Rightarrow> codec_error + bytes" where
  "Key_to_raw k = res_bind (decode_bytes k False) (\<lambda>(raw, rest). Inr raw)"

definition append_ts :: "key \<Rightarrow> ts \<Rightarrow> key" where
  "append_ts k t = k @ encode_u64_desc t"

definition decode_ts_from :: "bytes \<Rightarrow> codec_error + ts" where
  "decode_ts_from k =
     (if length k < U64_SIZE then Inl KeyLength
      else res_bind (decode_u64_desc (drop (length k - U64_SIZE) k)) (\<lambda>(t, rest). Inr t))"

definition decode_ts_bytes_from :: "bytes \<Rightarrow> codec_error + bytes" where
  "decode_ts_bytes_from k =
     (if length k < U64_SIZE then Inl KeyLength else Inr (drop (length k - U64_SIZE) k))"

definition truncate_ts_for :: "bytes \<Rightarrow> codec_error + bytes" where
  "truncate_ts_for k =
     (if length k < U64_SIZE then Inl KeyLength else Inr (take (length k - U64_SIZE) k))"

definition truncate_ts :: "key \<Rightarrow> codec_error + key" where
  "truncate_ts k =
     (let len = length k in if len < U64_SIZE then Inl KeyLength else Inr (take (len - U64_SIZE) k))"

definition split_on_ts_for :: "bytes \<Rightarrow> codec_error + bytes \<times> ts" where
  "split_on_ts_for k =
     (if length k < U64_SIZE then Inl KeyLength
      else
        (let pos = length k - U64_SIZE in
         res_bind (decode_u64_desc (drop pos k)) (\<lambda>(t, rest). Inr (take pos k, t))))"

text \<open>\<^verbatim>\<open>NativeEndian::read_u64\<close> on a little endian machine.\<close>

definition read_u64_ne :: "bytes \<Rightarrow> u64" where
  "read_u64_ne bs = of_nat (be_nat (rev (take 8 bs)))"

definition is_user_key_eq :: "bytes \<Rightarrow> bytes \<Rightarrow> bool" where
  "is_user_key_eq ts_encoded_key user_key =
     (let user_key_len = length user_key in
      if length ts_encoded_key \<noteq> user_key_len + U64_SIZE then False
      else if U64_SIZE \<le> user_key_len then
        (let left = read_u64_ne (drop (user_key_len - 8) ts_encoded_key);
             right = read_u64_ne (drop (user_key_len - 8) user_key) in
         if left \<noteq> right then False
         else take (user_key_len - 8) ts_encoded_key = take (user_key_len - 8) user_key)
      else take user_key_len ts_encoded_key = user_key)"

definition Key_is_encoded_from :: "key \<Rightarrow> bytes \<Rightarrow> bool" where
  "Key_is_encoded_from k raw = is_encoded_from k raw False"

section \<open>Mutations\<close>

datatype assertion = AssertionNone | AssertionExist | AssertionNotExist

datatype mutation_type = MTPut | MTDelete | MTLock | MTInsert | MTOther

datatype mutation =
    MutPut key value_bytes assertion
  | MutDelete key assertion
  | MutLock key assertion
  | MutInsert key value_bytes assertion
  | MutCheckNotExists key assertion

fun mutation_key :: "mutation \<Rightarrow> key" where
  "mutation_key (MutPut k v a) = k"
| "mutation_key (MutDelete k a) = k"
| "mutation_key (MutLock k a) = k"
| "mutation_key (MutInsert k v a) = k"
| "mutation_key (MutCheckNotExists k a) = k"

fun mutation_type_of :: "mutation \<Rightarrow> mutation_type" where
  "mutation_type_of (MutPut k v a) = MTPut"
| "mutation_type_of (MutDelete k a) = MTDelete"
| "mutation_type_of (MutLock k a) = MTLock"
| "mutation_type_of (MutInsert k v a) = MTInsert"
| "mutation_type_of (MutCheckNotExists k a) = MTOther"

fun into_key_value :: "mutation \<Rightarrow> key \<times> value_bytes option" where
  "into_key_value (MutPut k v a) = (k, Some v)"
| "into_key_value (MutDelete k a) = (k, None)"
| "into_key_value (MutLock k a) = (k, None)"
| "into_key_value (MutInsert k v a) = (k, Some v)"
| "into_key_value (MutCheckNotExists k a) = (k, None)"

fun should_not_exists :: "mutation \<Rightarrow> bool" where
  "should_not_exists (MutInsert k v a) \<longleftrightarrow> True"
| "should_not_exists (MutCheckNotExists k a) \<longleftrightarrow> True"
| "should_not_exists _ \<longleftrightarrow> False"

fun should_not_write :: "mutation \<Rightarrow> bool" where
  "should_not_write (MutCheckNotExists k a) \<longleftrightarrow> True"
| "should_not_write _ \<longleftrightarrow> False"

fun get_assertion :: "mutation \<Rightarrow> assertion" where
  "get_assertion (MutPut k v a) = a"
| "get_assertion (MutDelete k a) = a"
| "get_assertion (MutLock k a) = a"
| "get_assertion (MutInsert k v a) = a"
| "get_assertion (MutCheckNotExists k a) = a"

fun set_assertion :: "assertion \<Rightarrow> mutation \<Rightarrow> mutation" where
  "set_assertion a' (MutPut k v a) = MutPut k v a'"
| "set_assertion a' (MutDelete k a) = MutDelete k a'"
| "set_assertion a' (MutLock k a) = MutLock k a'"
| "set_assertion a' (MutInsert k v a) = MutInsert k v a'"
| "set_assertion a' (MutCheckNotExists k a) = MutCheckNotExists k a'"

section \<open>Old values and the last change\<close>

datatype old_value =
    OldValue value_bytes
  | OldValueTimeStamp ts
  | OldValueNone
  | OldValueUnspecified
  | OldValueSeekWrite key

definition OldValue_seek_write :: "bytes \<Rightarrow> ts \<Rightarrow> old_value" where
  "OldValue_seek_write raw_user_key t = OldValueSeekWrite (append_ts (Key_from_raw raw_user_key) t)"

fun resolved :: "old_value \<Rightarrow> bool" where
  "resolved (OldValue v) \<longleftrightarrow> True"
| "resolved (OldValueTimeStamp t) \<longleftrightarrow> True"
| "resolved OldValueNone \<longleftrightarrow> True"
| "resolved OldValueUnspecified \<longleftrightarrow> False"
| "resolved (OldValueSeekWrite k) \<longleftrightarrow> False"

text \<open>\<open>Inl Panic\<close> is the panic on an old value that is not finalized.\<close>

fun finalized :: "old_value \<Rightarrow> codec_error + value_bytes option" where
  "finalized (OldValue v) = Inr (Some v)"
| "finalized OldValueNone = Inr None"
| "finalized OldValueUnspecified = Inr None"
| "finalized _ = Inl Panic"

type_synonym old_values = "key \<rightharpoonup> old_value \<times> mutation_type option"

definition insert_old_value_if_resolved ::
    "old_values \<Rightarrow> key \<Rightarrow> ts \<Rightarrow> old_value \<Rightarrow> mutation_type option \<Rightarrow> old_values" where
  "insert_old_value_if_resolved old_values k start_ts old_value mt =
     (if resolved old_value then old_values(append_ts k start_ts \<mapsto> (old_value, mt))
      else old_values)"

datatype last_change =
    LCUnknown
  | LCExist (last_change_ts: ts) (estimated_versions: u64)
  | LCNotExist

definition make_exist :: "ts \<Rightarrow> u64 \<Rightarrow> codec_error + last_change" where
  "make_exist t n = (if is_zero t \<or> n = 0 then Inl Panic else Inr (LCExist t n))"

fun to_parts :: "last_change \<Rightarrow> ts \<times> u64" where
  "to_parts LCUnknown = (ts_zero, 0)"
| "to_parts (LCExist t n) = (t, n)"
| "to_parts LCNotExist = (ts_zero, 1)"

definition from_parts :: "ts \<Rightarrow> u64 \<Rightarrow> codec_error + last_change" where
  "from_parts t n =
     (if is_zero t then (if 0 < n then Inr LCNotExist else Inr LCUnknown) else make_exist t n)"

datatype commit_role = Primary | Secondary

section \<open>Timestamps: composition, successor and predecessor\<close>

lemma compose_parts:
  assumes "unat phys < 2 ^ 46" "unat logic < 2 ^ 18"
  shows "physical (compose phys logic) = phys" "logical (compose phys logic) = logic"
proof -
  have "unat (compose phys logic) = unat phys * 2 ^ 18 + unat logic"
  proof -
    have "unat (push_bit 18 phys) = unat phys * 2 ^ 18"
      using assms by (simp add: push_bit_eq_mult unat_word_ariths)
    moreover have "unat phys * 2 ^ 18 + unat logic < 2 ^ 64" using assms by simp
    ultimately show ?thesis
      by (simp add: compose_def TSO_PHYSICAL_SHIFT_BITS_def unat_word_ariths)
  qed
  then show "physical (compose phys logic) = phys"
    using assms by (simp add: physical_def TSO_PHYSICAL_SHIFT_BITS_def word_unat_eq_iff
        drop_bit_eq_div unat_div)
  have "logical v = take_bit 18 v" for v
    unfolding logical_def TSO_PHYSICAL_SHIFT_BITS_def take_bit_eq_mask mask_eq_exp_minus_1
    by simp
  then have "unat (logical (compose phys logic)) = take_bit 18 (unat (compose phys logic))"
    by (simp only: unsigned_take_bit_eq)
  then have "unat (logical (compose phys logic)) = unat (compose phys logic) mod 2 ^ 18"
    by (simp only: take_bit_eq_mod)
  with \<open>unat (compose phys logic) = _\<close> show "logical (compose phys logic) = logic"
    using assms by (simp add: word_unat_eq_iff)
qed

lemma unat_ts_Suc: "t < ts_max \<Longrightarrow> unat (t + 1) = Suc (unat t)"
proof -
  assume "t < ts_max"
  then have "1 + t \<noteq> 0"
    by (metis add.commute eq_neg_iff_add_eq_0 less_irrefl ts_max_def)
  then show ?thesis by (metis unatSuc add.commute)
qed

lemma ts_next_eq: "ts_next t = Some u \<longleftrightarrow> unat u = Suc (unat t)"
proof
  assume "ts_next t = Some u"
  then show "unat u = Suc (unat t)"
    by (auto simp: ts_next_def unat_ts_Suc split: if_splits)
next
  assume u: "unat u = Suc (unat t)"
  then have "t < u" by (simp add: word_less_nat_alt)
  moreover have "u \<le> ts_max" by (simp add: ts_max_def)
  ultimately have "t < ts_max" by (rule order.strict_trans2)
  with u show "ts_next t = Some u"
    by (simp add: ts_next_def word_unat_eq_iff unat_ts_Suc)
qed

lemma ts_prev_eq: "ts_prev u = Some t \<longleftrightarrow> unat u = Suc (unat t)"
proof (cases "u = 0")
  case True
  then show ?thesis by (simp add: ts_prev_def)
next
  case False
  then have "0 < unat u" by (simp add: unat_gt_0)
  moreover have "unat (u - 1) = unat u - 1"
    using False by (metis unat_minus_one)
  ultimately show ?thesis
    using False by (auto simp: ts_prev_def word_gt_0 word_unat_eq_iff)
qed

lemma ts_next_prev: "ts_next t = Some u \<longleftrightarrow> ts_prev u = Some t"
  by (simp add: ts_next_eq ts_prev_eq)

lemma ts_le_iff_less_next: "ts_next t = Some u \<Longrightarrow> s \<le> t \<longleftrightarrow> s < u"
  by (simp add: ts_next_eq word_le_nat_alt word_less_nat_alt less_Suc_eq_le)

lemma TsSet_contains_new: "TsSet_contains (TsSet_new xs) t \<longleftrightarrow> t \<in> set xs"
  by (simp add: TsSet_new_def)

lemma TsSet_contains_vec: "TsSet_contains (TsSet_vec xs) t \<longleftrightarrow> t \<in> set xs"
  by (simp add: TsSet_vec_def)

section \<open>Keys with a timestamp\<close>

lemma length_append_ts [simp]: "length (append_ts k t) = length k + 8"
  by (simp add: append_ts_def)

lemma decode_ts_append_ts [codec_simps]: "decode_ts_from (append_ts k t) = Inr t"
  using decode_encode_u64_desc [of t "[]"]
  by (simp add: decode_ts_from_def append_ts_def U64_SIZE_def)

lemma truncate_ts_append_ts [codec_simps]: "truncate_ts (append_ts k t) = Inr k"
  by (simp add: truncate_ts_def append_ts_def U64_SIZE_def)

lemma truncate_ts_for_append_ts [codec_simps]: "truncate_ts_for (append_ts k t) = Inr k"
  by (simp add: truncate_ts_for_def append_ts_def U64_SIZE_def)

lemma split_on_ts_for_append_ts [codec_simps]: "split_on_ts_for (append_ts k t) = Inr (k, t)"
  using decode_encode_u64_desc [of t "[]"]
  by (simp add: split_on_ts_for_def append_ts_def U64_SIZE_def)

lemma append_ts_inject [simp]: "append_ts k t = append_ts k' t' \<longleftrightarrow> k = k' \<and> t = t'"
  by (metis decode_ts_append_ts sum.inject(2) truncate_ts_append_ts)

lemma be_bytes_be_nat: "be_bytes (length bs) (be_nat bs) = bs"
  by (induction bs rule: rev_induct) (simp_all add: be_nat_snoc unat_u8_less)

lemma be_nat_inject: "length a = length b \<Longrightarrow> be_nat a = be_nat b \<longleftrightarrow> a = b"
  by (metis be_bytes_be_nat)

lemma be_nat_less: "be_nat bs < 256 ^ length bs"
proof (induction bs rule: rev_induct)
  case (snoc b bs)
  then have "Suc (be_nat bs) * 256 \<le> 256 ^ length bs * 256" by (intro mult_right_mono) auto
  with unat_u8_less [of b] show ?case by (simp add: be_nat_snoc)
qed (simp add: be_nat_def)

lemma decode_u64_Inr: "length k = 8 \<Longrightarrow> \<exists>t. decode_u64_desc k = Inr (t, []) \<and> k = encode_u64_desc t"
proof -
  assume k: "length k = 8"
  then have "be_nat k < 2 ^ 64" using be_nat_less [of k] by simp
  then have "unat (of_nat (be_nat k) :: u64) = be_nat k" by (rule unat_of_nat_u64)
  then have "encode_u64 (of_nat (be_nat k)) = k"
    using be_bytes_be_nat [of k] k by (simp add: encode_u64_def)
  then show ?thesis
    using decode_encode_u64_desc [of "NOT (of_nat (be_nat k))" "[]"]
    by (intro exI [of _ "NOT (of_nat (be_nat k))"]) (simp add: encode_u64_desc_eq)
qed

text \<open>Every byte string of at least eight bytes is a key with a timestamp.\<close>

lemma append_ts_exhaust:
  assumes "8 \<le> length k"
  obtains u t where "k = append_ts u t"
proof -
  obtain t where "drop (length k - 8) k = encode_u64_desc t"
    using decode_u64_Inr [of "drop (length k - 8) k"] assms by auto
  then have "k = append_ts (take (length k - 8) k) t"
    by (metis append_take_drop_id append_ts_def)
  then show thesis by (rule that)
qed

lemma read_u64_ne_eq:
  assumes "8 \<le> length a" "8 \<le> length b"
  shows "read_u64_ne a = read_u64_ne b \<longleftrightarrow> take 8 a = take 8 b"
proof -
  have "be_nat (rev (take 8 c)) < 2 ^ 64" if "8 \<le> length c" for c
    using be_nat_less [of "rev (take 8 c)"] that by simp
  then have "unat (read_u64_ne c) = be_nat (rev (take 8 c))" if "8 \<le> length c" for c
    unfolding read_u64_ne_def using that by (intro unat_of_nat_u64) simp
  then show ?thesis
    using assms be_nat_inject [of "rev (take 8 a)" "rev (take 8 b)"]
    by (simp add: word_unat_eq_iff)
qed

lemma is_user_key_eq_iff:
  "is_user_key_eq ts_encoded_key user_key \<longleftrightarrow> (\<exists>t. ts_encoded_key = append_ts user_key t)"
proof -
  let ?n = "length user_key"
  have "is_user_key_eq ts_encoded_key user_key \<longleftrightarrow>
      length ts_encoded_key = ?n + 8 \<and> take ?n ts_encoded_key = user_key"
  proof (cases "length ts_encoded_key = ?n + 8 \<and> 8 \<le> ?n")
    case True
    define m where "m = ?n - 8"
    have n: "?n = m + 8" using True by (simp add: m_def)
    have "take ?n ts_encoded_key = user_key \<longleftrightarrow>
        take m ts_encoded_key @ take 8 (drop m ts_encoded_key) =
        take m user_key @ take 8 (drop m user_key)"
      by (simp add: n take_add)
    also have "\<dots> \<longleftrightarrow> take m ts_encoded_key = take m user_key \<and>
        take 8 (drop m ts_encoded_key) = take 8 (drop m user_key)"
      using True n by (intro append_eq_append_conv) simp
    finally have "take ?n ts_encoded_key = user_key \<longleftrightarrow>
        take m ts_encoded_key = take m user_key \<and>
        take 8 (drop m ts_encoded_key) = take 8 (drop m user_key)" .
    moreover have "read_u64_ne (drop m ts_encoded_key) = read_u64_ne (drop m user_key) \<longleftrightarrow>
        take 8 (drop m ts_encoded_key) = take 8 (drop m user_key)"
      using True n by (intro read_u64_ne_eq) auto
    ultimately show ?thesis
      using True by (auto simp: is_user_key_eq_def U64_SIZE_def Let_def m_def)
  qed (auto simp: is_user_key_eq_def U64_SIZE_def Let_def)
  also have "\<dots> \<longleftrightarrow> (\<exists>t. ts_encoded_key = append_ts user_key t)"
  proof
    assume len: "length ts_encoded_key = ?n + 8 \<and> take ?n ts_encoded_key = user_key"
    then obtain u t where "ts_encoded_key = append_ts u t"
      using append_ts_exhaust [of ts_encoded_key] by auto
    with len show "\<exists>t. ts_encoded_key = append_ts user_key t"
      by (auto simp: append_ts_def)
  qed (auto simp: append_ts_def)
  finally show ?thesis .
qed

text \<open>The order of versions in the engine.\<close>

lemma append_ts_less_same [simp]: "append_ts k t < append_ts k t' \<longleftrightarrow> t' < t"
  by (simp add: append_ts_def)

lemma append_ts_le_same [simp]: "append_ts k t \<le> append_ts k t' \<longleftrightarrow> t' \<le> t"
  by (simp add: append_ts_def)

lemma Key_from_raw_eq [simp]: "Key_from_raw a = Key_from_raw b \<longleftrightarrow> a = b"
  by (simp add: Key_from_raw_def encode_bytes_mem_enc)

lemma append_ts_from_raw_less:
  "append_ts (Key_from_raw a) t < append_ts (Key_from_raw b) t' \<longleftrightarrow> a < b \<or> a = b \<and> t' < t"
  by (simp add: append_ts_def Key_from_raw_def encode_bytes_mem_enc mem_enc_less)

lemma to_raw_from_raw [codec_simps]: "Key_to_raw (Key_from_raw raw) = Inr raw"
  using decode_encode_bytes [of raw "[]"] by (simp add: Key_to_raw_def Key_from_raw_def)

lemma into_raw_eq_to_raw: "Key_into_raw k = Key_to_raw k"
  using decode_bytes_in_place_decode_bytes [of k False]
  by (cases "decode_bytes k False"; cases "decode_bytes_in_place k False")
    (auto simp: Key_into_raw_def Key_to_raw_def)

lemma Key_is_encoded_from_iff: "Key_is_encoded_from k raw \<longleftrightarrow> k = Key_from_raw raw"
  by (simp add: Key_is_encoded_from_def is_encoded_from_iff Key_from_raw_def encode_bytes_def)

section \<open>The last change\<close>

fun wf_last_change :: "last_change \<Rightarrow> bool" where
  "wf_last_change (LCExist t n) \<longleftrightarrow> t \<noteq> 0 \<and> n \<noteq> 0"
| "wf_last_change _ \<longleftrightarrow> True"

lemma from_parts_to_parts [codec_simps]:
  "wf_last_change lc \<Longrightarrow> from_parts (fst (to_parts lc)) (snd (to_parts lc)) = Inr lc"
  by (cases lc) (auto simp: from_parts_def make_exist_def is_zero_def ts_zero_def)

lemma from_parts_wf: "from_parts t n = Inr lc \<Longrightarrow> wf_last_change lc"
  by (auto simp: from_parts_def make_exist_def is_zero_def split: if_splits)

section \<open>Properties of keys\<close>

text \<open>C28: In the engine the versions of one key run from the newest to the oldest, and the
  versions of different keys are ordered as the raw keys, so they never interleave.\<close>

theorem append_ts_version_order:
  "append_ts (Key_from_raw a) t < append_ts (Key_from_raw b) t' \<longleftrightarrow> a < b \<or> a = b \<and> t' < t"
  by (rule append_ts_from_raw_less)

text \<open>C29: The comparison of a stored key with a user key, which looks at the last eight bytes of
  the user key as one integer first, decides whether the stored key is a version of that user
  key, and the timestamp and the user key of a version can be read back.\<close>

theorem is_user_key_eq_correct:
  "(is_user_key_eq ts_encoded_key user_key \<longleftrightarrow> (\<exists>t. ts_encoded_key = append_ts user_key t)) \<and>
   decode_ts_from (append_ts user_key t) = Inr t \<and>
   truncate_ts (append_ts user_key t) = Inr user_key \<and>
   split_on_ts_for (append_ts user_key t) = Inr (user_key, t)"
  by (simp add: is_user_key_eq_iff codec_simps)

end
