(* ===== verification/Txn_Lock.thy ===== *)
theory Txn_Lock
  imports Txn_Types
begin

text \<open>
  Locks, \<^verbatim>\<open>components/txn_types/src/lock.rs\<close>: the record, its serialised form and parser,
  the check of a lock against a read timestamp for each isolation level, and the in memory
  pessimistic locks.  Allocation failures are not modelled.  The lemmas show that parsing
  undoes serialising for every lock the code can write, that the size computed before
  serialising is never exceeded, and exactly when a lock blocks a snapshot read.
\<close>

section \<open>Errors of the crate\<close>

datatype op = OpPut | OpDel | OpLock | OpPessimisticLock

record lock_info =
  info_primary_lock :: bytes
  info_lock_version :: u64
  info_key :: bytes
  info_lock_ttl :: u64
  info_txn_size :: u64
  info_lock_type :: op
  info_lock_for_update_ts :: u64
  info_use_async_commit :: bool
  info_min_commit_ts :: u64
  info_secondaries :: "bytes list"

datatype write_conflict_reason =
    Optimistic | PessimisticRetry | SelfRolledBack | RcCheckTsReason | LazyUniquenessCheck

datatype txn_types_error =
    TIo \<comment> \<open>\<^verbatim>\<open>ErrorInner::Io\<close>\<close>
  | TCodec codec_error
  | BadFormatLock
  | BadFormatWrite
  | TKeyIsLocked lock_info
  | TWriteConflict ts ts ts bytes bytes write_conflict_reason
      \<comment> \<open>start, conflict start and conflict commit timestamp, key, primary, reason\<close>
  | TPanic \<comment> \<open>a \<^verbatim>\<open>panic!\<close> or failed assertion\<close>

text \<open>\<^verbatim>\<open>?\<close> on a codec result; a panic stays a panic.\<close>

fun from_codec :: "codec_error \<Rightarrow> txn_types_error" where
  "from_codec Panic = TPanic"
| "from_codec e = TCodec e"

abbreviation codec_try :: "codec_error + 'a \<Rightarrow> ('a \<Rightarrow> txn_types_error + 'b) \<Rightarrow> txn_types_error + 'b" where
  "codec_try r f \<equiv> res_bind (res_map_err from_codec r) f"

section \<open>Lock types\<close>

datatype lock_type = LTPut | LTDelete | LTLock | LTPessimistic

definition FLAG_PUT :: u8 where "FLAG_PUT = 0x50"
definition FLAG_DELETE :: u8 where "FLAG_DELETE = 0x44"
definition FLAG_LOCK :: u8 where "FLAG_LOCK = 0x4c"
definition FLAG_PESSIMISTIC :: u8 where "FLAG_PESSIMISTIC = 0x53"

definition SHORT_VALUE_PREFIX :: u8 where "SHORT_VALUE_PREFIX = 0x76"
definition FOR_UPDATE_TS_PREFIX :: u8 where "FOR_UPDATE_TS_PREFIX = 0x66"
definition TXN_SIZE_PREFIX :: u8 where "TXN_SIZE_PREFIX = 0x74"
definition MIN_COMMIT_TS_PREFIX :: u8 where "MIN_COMMIT_TS_PREFIX = 0x63"
definition ASYNC_COMMIT_PREFIX :: u8 where "ASYNC_COMMIT_PREFIX = 0x61"
definition ROLLBACK_TS_PREFIX :: u8 where "ROLLBACK_TS_PREFIX = 0x72"
definition LAST_CHANGE_PREFIX :: u8 where "LAST_CHANGE_PREFIX = 0x6c"
definition TXN_SOURCE_PREFIX :: u8 where "TXN_SOURCE_PREFIX = 0x73"
definition PESSIMISTIC_LOCK_WITH_CONFLICT_PREFIX :: u8 where
  "PESSIMISTIC_LOCK_WITH_CONFLICT_PREFIX = 0x46"
definition GENERATION_PREFIX :: u8 where "GENERATION_PREFIX = 0x67"

lemmas prefix_defs =
  SHORT_VALUE_PREFIX_def FOR_UPDATE_TS_PREFIX_def TXN_SIZE_PREFIX_def MIN_COMMIT_TS_PREFIX_def
  ASYNC_COMMIT_PREFIX_def ROLLBACK_TS_PREFIX_def LAST_CHANGE_PREFIX_def TXN_SOURCE_PREFIX_def
  PESSIMISTIC_LOCK_WITH_CONFLICT_PREFIX_def GENERATION_PREFIX_def

fun LockType_from_mutation :: "mutation \<Rightarrow> lock_type option" where
  "LockType_from_mutation (MutPut k v a) = Some LTPut"
| "LockType_from_mutation (MutInsert k v a) = Some LTPut"
| "LockType_from_mutation (MutDelete k a) = Some LTDelete"
| "LockType_from_mutation (MutLock k a) = Some LTLock"
| "LockType_from_mutation (MutCheckNotExists k a) = None"

definition LockType_from_u8 :: "u8 \<Rightarrow> lock_type option" where
  "LockType_from_u8 b =
     (if b = FLAG_PUT then Some LTPut
      else if b = FLAG_DELETE then Some LTDelete
      else if b = FLAG_LOCK then Some LTLock
      else if b = FLAG_PESSIMISTIC then Some LTPessimistic
      else None)"

fun LockType_to_u8 :: "lock_type \<Rightarrow> u8" where
  "LockType_to_u8 LTPut = FLAG_PUT"
| "LockType_to_u8 LTDelete = FLAG_DELETE"
| "LockType_to_u8 LTLock = FLAG_LOCK"
| "LockType_to_u8 LTPessimistic = FLAG_PESSIMISTIC"

section \<open>The lock record\<close>

record lock =
  lock_type :: lock_type
  lock_primary :: bytes
  lock_ts :: ts
  lock_ttl :: u64
  lock_short_value :: "value_bytes option"
  lock_for_update_ts :: ts
  lock_txn_size :: u64
  lock_min_commit_ts :: ts
  lock_use_async_commit :: bool
  lock_use_one_pc :: bool
  lock_secondaries :: "bytes list"
  lock_rollback_ts :: "ts list"
  lock_last_change :: last_change
  lock_txn_source :: u64
  lock_is_locked_with_conflict :: bool
  lock_generation :: u64

definition Lock_new ::
    "lock_type \<Rightarrow> bytes \<Rightarrow> ts \<Rightarrow> u64 \<Rightarrow> value_bytes option \<Rightarrow> ts \<Rightarrow> u64 \<Rightarrow> ts \<Rightarrow> bool \<Rightarrow> lock" where
  "Lock_new lt pk t ttl sv futs sz mcts conflict =
     \<lparr> lock_type = lt, lock_primary = pk, lock_ts = t, lock_ttl = ttl, lock_short_value = sv,
       lock_for_update_ts = futs, lock_txn_size = sz, lock_min_commit_ts = mcts,
       lock_use_async_commit = False, lock_use_one_pc = False, lock_secondaries = [],
       lock_rollback_ts = [], lock_last_change = LCUnknown, lock_txn_source = 0,
       lock_is_locked_with_conflict = conflict, lock_generation = 0 \<rparr>"

definition use_async_commit :: "bytes list \<Rightarrow> lock \<Rightarrow> lock" where
  "use_async_commit secondaries l =
     l\<lparr>lock_use_async_commit := True, lock_secondaries := secondaries\<rparr>"

definition is_pessimistic_txn :: "lock \<Rightarrow> bool" where
  "is_pessimistic_txn l \<longleftrightarrow> \<not> is_zero (lock_for_update_ts l)"

definition is_pessimistic_lock :: "lock \<Rightarrow> bool" where
  "is_pessimistic_lock l \<longleftrightarrow> lock_type l = LTPessimistic"

definition is_pessimistic_lock_with_conflict :: "lock \<Rightarrow> bool" where
  "is_pessimistic_lock_with_conflict l \<longleftrightarrow> is_pessimistic_lock l \<and> lock_is_locked_with_conflict l"

section \<open>Serialising\<close>

definition Lock_to_bytes :: "lock \<Rightarrow> bytes" where
  "Lock_to_bytes l =
     [LockType_to_u8 (lock_type l)] @
     encode_compact_bytes (lock_primary l) @
     encode_var_u64 (lock_ts l) @
     encode_var_u64 (lock_ttl l) @
     (case lock_short_value l of None \<Rightarrow> []
      | Some v \<Rightarrow> [SHORT_VALUE_PREFIX, of_nat (length v)] @ v) @
     (if is_zero (lock_for_update_ts l) then []
      else FOR_UPDATE_TS_PREFIX # encode_u64 (lock_for_update_ts l)) @
     (if 0 < lock_txn_size l then TXN_SIZE_PREFIX # encode_u64 (lock_txn_size l) else []) @
     (if is_zero (lock_min_commit_ts l) then []
      else MIN_COMMIT_TS_PREFIX # encode_u64 (lock_min_commit_ts l)) @
     (if lock_use_async_commit l
      then ASYNC_COMMIT_PREFIX # encode_var_u64 (of_nat (length (lock_secondaries l))) @
        concat (map encode_compact_bytes (lock_secondaries l))
      else []) @
     (if lock_rollback_ts l \<noteq> []
      then ROLLBACK_TS_PREFIX # encode_var_u64 (of_nat (length (lock_rollback_ts l))) @
        concat (map encode_u64 (lock_rollback_ts l))
      else []) @
     (if lock_last_change l = LCUnknown then []
      else
        (let (last_change_ts, versions) = to_parts (lock_last_change l) in
         LAST_CHANGE_PREFIX # encode_u64 last_change_ts @ encode_var_u64 versions)) @
     (if lock_txn_source l \<noteq> 0 then TXN_SOURCE_PREFIX # encode_var_u64 (lock_txn_source l) else []) @
     (if lock_is_locked_with_conflict l then [PESSIMISTIC_LOCK_WITH_CONFLICT_PREFIX] else []) @
     (if 0 < lock_generation l then GENERATION_PREFIX # encode_u64 (lock_generation l) else [])"

definition MAX_VAR_U64_LEN :: nat where "MAX_VAR_U64_LEN = 10"
definition MAX_VAR_I64_LEN :: nat where "MAX_VAR_I64_LEN = 10"

definition pre_allocate_size :: "lock \<Rightarrow> nat" where
  "pre_allocate_size l =
     1 + MAX_VAR_I64_LEN + length (lock_primary l) + MAX_VAR_U64_LEN * 2 +
     (case lock_short_value l of None \<Rightarrow> 0 | Some v \<Rightarrow> 2 + length v) +
     (if is_zero (lock_for_update_ts l) then 0 else 1 + U64_SIZE) +
     (if 0 < lock_txn_size l then 1 + U64_SIZE else 0) +
     (if is_zero (lock_min_commit_ts l) then 0 else 1 + U64_SIZE) +
     (if lock_use_async_commit l
      then 1 + MAX_VAR_U64_LEN +
        sum_list (map (\<lambda>k. MAX_VAR_I64_LEN + length k) (lock_secondaries l))
      else 0) +
     (if lock_rollback_ts l \<noteq> [] then 1 + MAX_VAR_U64_LEN + U64_SIZE * length (lock_rollback_ts l)
      else 0) +
     (if lock_last_change l = LCUnknown then 0 else 1 + U64_SIZE + MAX_VAR_U64_LEN) +
     (if lock_txn_source l \<noteq> 0 then 1 + MAX_VAR_U64_LEN else 0) +
     (if lock_is_locked_with_conflict l then 1 else 0) +
     (if 0 < lock_generation l then 1 + U64_SIZE else 0)"

section \<open>Parsing\<close>

text \<open>\<^verbatim>\<open>(0..len).map(|_| decode(&mut b)).collect()\<close>: the first error ends the collection.\<close>

primrec decode_n :: "(bytes \<Rightarrow> codec_error + 'a \<times> bytes) \<Rightarrow> nat \<Rightarrow> bytes \<Rightarrow> codec_error + 'a list \<times> bytes" where
  "decode_n d 0 b = Inr ([], b)"
| "decode_n d (Suc n) b =
     res_bind (d b) (\<lambda>(x, b'). res_bind (decode_n d n b') (\<lambda>(xs, b''). Inr (x # xs, b'')))"

text \<open>
  The locals of the loop are the fields of the lock under construction and the two parts of
  the last change.  One iteration is the match on the prefix byte, with the rest of the slice;
  \<open>None\<close> is the \<^verbatim>\<open>break\<close> on an unknown prefix.  The number of secondaries has the type
  \<^verbatim>\<open>i32\<close> (the literal \<^verbatim>\<open>0\<close> of the range defaults to it), so the cast truncates.
\<close>

type_synonym lock_parse_state = "lock \<times> ts \<times> u64"

definition Lock_parse_field ::
    "u8 \<Rightarrow> bytes \<Rightarrow> lock_parse_state \<Rightarrow> txn_types_error + (lock_parse_state \<times> bytes) option" where
  "Lock_parse_field tag b st =
     (case st of (l, lcts, versions) \<Rightarrow>
      if tag = SHORT_VALUE_PREFIX then
        (case b of
           [] \<Rightarrow> Inl TIo
         | len # b' \<Rightarrow>
             if length b' < unat len then Inl TPanic
             else Inr (Some ((l\<lparr>lock_short_value := Some (take (unat len) b')\<rparr>, lcts, versions),
               drop (unat len) b')))
      else if tag = FOR_UPDATE_TS_PREFIX then
        codec_try (decode_u64 b) (\<lambda>(v, b').
          Inr (Some ((l\<lparr>lock_for_update_ts := v\<rparr>, lcts, versions), b')))
      else if tag = TXN_SIZE_PREFIX then
        codec_try (decode_u64 b) (\<lambda>(v, b').
          Inr (Some ((l\<lparr>lock_txn_size := v\<rparr>, lcts, versions), b')))
      else if tag = MIN_COMMIT_TS_PREFIX then
        codec_try (decode_u64 b) (\<lambda>(v, b').
          Inr (Some ((l\<lparr>lock_min_commit_ts := v\<rparr>, lcts, versions), b')))
      else if tag = ASYNC_COMMIT_PREFIX then
        codec_try (decode_var_u64 b) (\<lambda>(len, b').
          codec_try (decode_n decode_compact_bytes (nat (sint (ucast len :: 32 word))) b') (\<lambda>(ks, b'').
            Inr (Some ((use_async_commit ks l, lcts, versions), b''))))
      else if tag = ROLLBACK_TS_PREFIX then
        codec_try (decode_var_u64 b) (\<lambda>(len, b').
          codec_try (decode_n decode_u64 (unat len) b') (\<lambda>(tss, b'').
            Inr (Some ((l\<lparr>lock_rollback_ts := tss\<rparr>, lcts, versions), b''))))
      else if tag = LAST_CHANGE_PREFIX then
        codec_try (decode_u64 b) (\<lambda>(t, b').
          codec_try (decode_var_u64 b') (\<lambda>(n, b''). Inr (Some ((l, t, n), b''))))
      else if tag = TXN_SOURCE_PREFIX then
        codec_try (decode_var_u64 b) (\<lambda>(v, b').
          Inr (Some ((l\<lparr>lock_txn_source := v\<rparr>, lcts, versions), b')))
      else if tag = PESSIMISTIC_LOCK_WITH_CONFLICT_PREFIX then
        Inr (Some ((l\<lparr>lock_is_locked_with_conflict := True\<rparr>, lcts, versions), b))
      else if tag = GENERATION_PREFIX then
        codec_try (decode_u64 b) (\<lambda>(v, b').
          Inr (Some ((l\<lparr>lock_generation := v\<rparr>, lcts, versions), b')))
      else Inr None)"

lemma length_rest_decode_u64: "decode_u64 b = Inr (v, b') \<Longrightarrow> length b' \<le> length b"
  by (auto simp: decode_u64_def read_num_bytes_def split: if_splits)

lemma length_rest_decode_var_fast: "decode_var_fast i r b = Inr (v, b') \<Longrightarrow> length b' \<le> length b"
  by (induction i r b rule: decode_var_fast.induct) (auto simp: Let_def split: if_splits)

lemma length_rest_decode_var_slow: "decode_var_slow i r b = Inr (v, b') \<Longrightarrow> length b' \<le> length b"
  by (induction i r b rule: decode_var_slow.induct) (auto simp: Let_def split: if_splits)

lemma length_rest_decode_var_u64: "decode_var_u64 b = Inr (v, b') \<Longrightarrow> length b' \<le> length b"
  by (auto simp: decode_var_u64_def split: if_splits
      dest: length_rest_decode_var_fast length_rest_decode_var_slow)

lemma length_rest_decode_var_i64: "decode_var_i64 b = Inr (v, b') \<Longrightarrow> length b' \<le> length b"
  by (auto simp: decode_var_i64_def Let_def dest: length_rest_decode_var_u64)

lemma length_rest_decode_compact_bytes:
  "decode_compact_bytes b = Inr (v, b') \<Longrightarrow> length b' \<le> length b"
  by (auto simp: decode_compact_bytes_def split: if_splits dest: length_rest_decode_var_i64)

lemma length_rest_decode_n:
  assumes "\<And>b v b'. d b = Inr (v, b') \<Longrightarrow> length b' \<le> length b"
  shows "decode_n d n b = Inr (vs, b') \<Longrightarrow> length b' \<le> length b"
proof (induction n arbitrary: b vs)
  case (Suc n)
  then obtain x c xs where "d b = Inr (x, c)" "decode_n d n c = Inr (xs, b')" by auto
  with Suc.IH assms show ?case by (meson order_trans)
qed simp

lemma length_rest_decode_n_u64: "decode_n decode_u64 n b = Inr (v, b') \<Longrightarrow> length b' \<le> length b"
  by (rule length_rest_decode_n) (rule length_rest_decode_u64)

lemma length_rest_decode_n_compact:
  "decode_n decode_compact_bytes n b = Inr (v, b') \<Longrightarrow> length b' \<le> length b"
  by (rule length_rest_decode_n) (rule length_rest_decode_compact_bytes)

lemmas length_rest =
  length_rest_decode_u64 length_rest_decode_var_u64 length_rest_decode_compact_bytes
  length_rest_decode_n_u64 length_rest_decode_n_compact

lemma Lock_parse_field_rest:
  "Lock_parse_field tag b st = Inr (Some (st', b')) \<Longrightarrow> length b' \<le> length b"
  unfolding Lock_parse_field_def
  by (auto split: prod.splits if_splits list.splits dest!: length_rest)

function Lock_parse_fields ::
    "bytes \<Rightarrow> lock_parse_state \<Rightarrow> txn_types_error + lock_parse_state" where
  "Lock_parse_fields [] st = Inr st"
| "Lock_parse_fields (tag # b) st =
     (case Lock_parse_field tag b st of
        Inl e \<Rightarrow> Inl e
      | Inr None \<Rightarrow> Inr st
      | Inr (Some (st', b')) \<Rightarrow> Lock_parse_fields b' st')"
  by pat_completeness auto
termination
  by (relation "measure (\<lambda>(b, st). length b)") (auto dest!: Lock_parse_field_rest)

definition Lock_parse :: "bytes \<Rightarrow> txn_types_error + lock" where
  "Lock_parse b =
     (case b of
        [] \<Rightarrow> Inl BadFormatLock
      | t # b1 \<Rightarrow>
          (case LockType_from_u8 t of
             None \<Rightarrow> Inl BadFormatLock
           | Some lt \<Rightarrow>
               codec_try (decode_compact_bytes b1) (\<lambda>(pk, b2).
               codec_try (decode_var_u64 b2) (\<lambda>(start_ts, b3).
               codec_try (if b3 = [] then Inr (0, []) else decode_var_u64 b3) (\<lambda>(ttl, b4).
                 (let l0 = Lock_new lt pk start_ts ttl None ts_zero 0 ts_zero False in
                  if b4 = [] then Inr l0
                  else
                    res_bind (Lock_parse_fields b4 (l0, ts_zero, 0)) (\<lambda>(l, lcts, versions).
                      codec_try (from_parts lcts versions) (\<lambda>lc.
                        Inr (l\<lparr>lock_last_change := lc\<rparr>)))))))))"

section \<open>Lock information and read conflicts\<close>

definition into_lock_info :: "lock \<Rightarrow> bytes \<Rightarrow> lock_info" where
  "into_lock_info l raw_key =
     \<lparr> info_primary_lock = lock_primary l, info_lock_version = lock_ts l, info_key = raw_key,
       info_lock_ttl = lock_ttl l, info_txn_size = lock_txn_size l,
       info_lock_type =
         (case lock_type l of LTPut \<Rightarrow> OpPut | LTDelete \<Rightarrow> OpDel | LTLock \<Rightarrow> OpLock
          | LTPessimistic \<Rightarrow> OpPessimisticLock),
       info_lock_for_update_ts = lock_for_update_ts l,
       info_use_async_commit = lock_use_async_commit l,
       info_min_commit_ts = lock_min_commit_ts l,
       info_secondaries = lock_secondaries l \<rparr>"

definition check_ts_conflict_si ::
    "lock \<Rightarrow> key \<Rightarrow> ts \<Rightarrow> TsSet \<Rightarrow> bool \<Rightarrow> txn_types_error + unit" where
  "check_ts_conflict_si l k t bypass_locks is_replica_read =
     (if t < lock_ts l \<or> lock_type l = LTLock \<or> is_pessimistic_lock l then Inr ()
      else if t < lock_min_commit_ts l then Inr ()
      else if TsSet_contains bypass_locks (lock_ts l) then Inr ()
      else
        codec_try (Key_to_raw k) (\<lambda>raw_key.
          if t = ts_max \<and> is_replica_read then Inl (TKeyIsLocked (into_lock_info l raw_key))
          else if t = ts_max \<and> raw_key = lock_primary l \<and> \<not> lock_use_async_commit l \<and>
              \<not> lock_use_one_pc l
          then Inr ()
          else Inl (TKeyIsLocked (into_lock_info l raw_key))))"

definition check_ts_conflict_rc_check_ts ::
    "lock \<Rightarrow> key \<Rightarrow> ts \<Rightarrow> TsSet \<Rightarrow> txn_types_error + unit" where
  "check_ts_conflict_rc_check_ts l k t bypass_locks =
     (if lock_type l = LTLock \<or> is_pessimistic_lock l then Inr ()
      else if TsSet_contains bypass_locks (lock_ts l) then Inr ()
      else
        codec_try (Key_to_raw k) (\<lambda>raw_key.
          Inl (TWriteConflict t (lock_ts l) ts_zero raw_key (lock_primary l) RcCheckTsReason)))"

datatype isolation_level = Si | Rc | RcCheckTs

definition check_ts_conflict ::
    "lock \<Rightarrow> key \<Rightarrow> ts \<Rightarrow> TsSet \<Rightarrow> isolation_level \<Rightarrow> txn_types_error + unit" where
  "check_ts_conflict l k t bypass_locks iso_level =
     (case iso_level of
        Si \<Rightarrow> check_ts_conflict_si l k t bypass_locks False
      | RcCheckTs \<Rightarrow> check_ts_conflict_rc_check_ts l k t bypass_locks
      | Rc \<Rightarrow> Inr ())"

definition check_ts_conflict_for_replica_read ::
    "lock \<Rightarrow> key \<Rightarrow> ts \<Rightarrow> TsSet \<Rightarrow> isolation_level \<Rightarrow> txn_types_error + unit" where
  "check_ts_conflict_for_replica_read l k t bypass_locks iso_level =
     (case iso_level of
        Si \<Rightarrow> check_ts_conflict_si l k t bypass_locks True
      | RcCheckTs \<Rightarrow> Inl TPanic
      | Rc \<Rightarrow> Inr ())"

section \<open>In memory pessimistic locks\<close>

record pessimistic_lock =
  pl_primary :: bytes
  pl_start_ts :: ts
  pl_ttl :: u64
  pl_for_update_ts :: ts
  pl_min_commit_ts :: ts
  pl_last_change :: last_change
  pl_is_locked_with_conflict :: bool

definition PessimisticLock_to_lock :: "pessimistic_lock \<Rightarrow> lock" where
  "PessimisticLock_to_lock p =
     (Lock_new LTPessimistic (pl_primary p) (pl_start_ts p) (pl_ttl p) None (pl_for_update_ts p) 0
       (pl_min_commit_ts p) (pl_is_locked_with_conflict p))\<lparr>lock_last_change := pl_last_change p\<rparr>"

datatype txn_lock_ref = InMemory pessimistic_lock | Persisted lock

fun TxnLockRef_get_start_ts :: "txn_lock_ref \<Rightarrow> ts" where
  "TxnLockRef_get_start_ts (InMemory p) = pl_start_ts p"
| "TxnLockRef_get_start_ts (Persisted l) = lock_ts l"

fun TxnLockRef_get_for_update_ts :: "txn_lock_ref \<Rightarrow> ts" where
  "TxnLockRef_get_for_update_ts (InMemory p) = pl_for_update_ts p"
| "TxnLockRef_get_for_update_ts (Persisted l) = lock_for_update_ts l"

fun TxnLockRef_is_pessimistic_lock :: "txn_lock_ref \<Rightarrow> bool" where
  "TxnLockRef_is_pessimistic_lock (InMemory p) \<longleftrightarrow> True"
| "TxnLockRef_is_pessimistic_lock (Persisted l) \<longleftrightarrow> is_pessimistic_lock l"

fun TxnLockRef_get_lock_type :: "txn_lock_ref \<Rightarrow> lock_type" where
  "TxnLockRef_get_lock_type (InMemory p) = LTPessimistic"
| "TxnLockRef_get_lock_type (Persisted l) = lock_type l"

section \<open>Parsing undoes serialising\<close>

text \<open>
  The locks the code writes: a short value has at most 255 bytes, secondaries only come with
  async commit, the one phase commit flag is never persisted, and the last change is well formed.
\<close>

definition wf_lock :: "lock \<Rightarrow> bool" where
  "wf_lock l \<longleftrightarrow>
     (case lock_short_value l of None \<Rightarrow> True | Some v \<Rightarrow> is_short_value v) \<and>
     \<not> lock_use_one_pc l \<and>
     (\<not> lock_use_async_commit l \<longrightarrow> lock_secondaries l = []) \<and>
     length (lock_secondaries l) < 2 ^ 31 \<and>
     list_all (\<lambda>k. length k < 2 ^ 64) (lock_primary l # lock_secondaries l) \<and>
     length (lock_rollback_ts l) < 2 ^ 64 \<and>
     wf_last_change (lock_last_change l)"

lemma decode_n_encode:
  "(\<And>x r. x \<in> set xs \<Longrightarrow> d (e x @ r) = Inr (x, r)) \<Longrightarrow>
   decode_n d (length xs) (concat (map e xs) @ rest) = Inr (xs, rest)"
  by (induction xs) auto

lemma i32_small: "n < 2 ^ 31 \<Longrightarrow> nat (sint (ucast (of_nat n :: u64) :: 32 word)) = n"
proof -
  assume n: "n < 2 ^ 31"
  have "uint (ucast (of_nat n :: u64) :: 32 word) = int n"
    using n by (simp add: unsigned_ucast_eq unsigned_of_nat take_bit_nat_eq_self
        take_bit_int_eq_self flip: of_nat_take_bit)
  moreover have "sint w = uint w" if "uint w < 2 ^ 31" for w :: "32 word"
  proof -
    have "- (2 ^ 31) \<le> uint w" by (rule order_trans [of _ 0]) simp_all
    with that show ?thesis by (simp add: sint_uint signed_take_bit_int_eq_self_iff)
  qed
  ultimately show ?thesis using n by simp
qed

named_theorems parse_field_simps \<open>what the parser does on one serialised field\<close>

lemma parse_short_value [parse_field_simps]:
  "(case v of None \<Rightarrow> True | Some v \<Rightarrow> is_short_value v) \<Longrightarrow>
   Lock_parse_fields ((case v of None \<Rightarrow> []
      | Some v \<Rightarrow> [SHORT_VALUE_PREFIX, of_nat (length v)] @ v) @ rest) (l, t, n) =
     Lock_parse_fields rest (case v of None \<Rightarrow> l | Some v \<Rightarrow> l\<lparr>lock_short_value := Some v\<rparr>, t, n)"
  by (cases v) (auto simp: Lock_parse_field_def is_short_value_def SHORT_VALUE_MAX_LEN_def
      unat_of_nat_u8)

lemma parse_for_update_ts [parse_field_simps]:
  "Lock_parse_fields ((if is_zero v then [] else FOR_UPDATE_TS_PREFIX # encode_u64 v) @ rest) (l, t, n) =
     Lock_parse_fields rest (if is_zero v then l else l\<lparr>lock_for_update_ts := v\<rparr>, t, n)"
  by (simp add: Lock_parse_field_def prefix_defs codec_simps)

lemma parse_txn_size [parse_field_simps]:
  "Lock_parse_fields ((if 0 < v then TXN_SIZE_PREFIX # encode_u64 v else []) @ rest) (l, t, n) =
     Lock_parse_fields rest (if 0 < v then l\<lparr>lock_txn_size := v\<rparr> else l, t, n)"
  by (simp add: Lock_parse_field_def prefix_defs codec_simps)

lemma parse_min_commit_ts [parse_field_simps]:
  "Lock_parse_fields ((if is_zero v then [] else MIN_COMMIT_TS_PREFIX # encode_u64 v) @ rest) (l, t, n) =
     Lock_parse_fields rest (if is_zero v then l else l\<lparr>lock_min_commit_ts := v\<rparr>, t, n)"
  by (simp add: Lock_parse_field_def prefix_defs codec_simps)

lemma parse_secondaries [parse_field_simps]:
  assumes "length ks < 2 ^ 31" "list_all (\<lambda>k. length k < 2 ^ 64) ks"
  shows "Lock_parse_fields ((if c then ASYNC_COMMIT_PREFIX # encode_var_u64 (of_nat (length ks)) @
        concat (map encode_compact_bytes ks) else []) @ rest) (l, t, n) =
     Lock_parse_fields rest (if c then use_async_commit ks l else l, t, n)"
proof -
  have "decode_n decode_compact_bytes (length ks) (concat (map encode_compact_bytes ks) @ rest) =
      Inr (ks, rest)"
    using assms(2) by (intro decode_n_encode decode_compact_bytes_encode) (simp add: list_all_iff)
  then show ?thesis
    using i32_small [OF assms(1)] by (simp add: Lock_parse_field_def prefix_defs codec_simps)
qed

lemma parse_rollback_ts [parse_field_simps]:
  assumes "length tss < 2 ^ 64"
  shows "Lock_parse_fields ((if tss \<noteq> [] then ROLLBACK_TS_PREFIX # encode_var_u64 (of_nat (length tss)) @
        concat (map encode_u64 tss) else []) @ rest) (l, t, n) =
     Lock_parse_fields rest (if tss \<noteq> [] then l\<lparr>lock_rollback_ts := tss\<rparr> else l, t, n)"
proof -
  have "decode_n decode_u64 (length tss) (concat (map encode_u64 tss) @ rest) = Inr (tss, rest)"
    by (intro decode_n_encode decode_encode_u64)
  then show ?thesis
    using assms by (simp add: Lock_parse_field_def prefix_defs codec_simps unat_of_nat_u64)
qed

lemma parse_last_change [parse_field_simps]:
  "Lock_parse_fields ((if lc = LCUnknown then []
      else (let (last_change_ts, versions) = to_parts lc in
         LAST_CHANGE_PREFIX # encode_u64 last_change_ts @ encode_var_u64 versions)) @ rest)
      (l, ts_zero, 0) =
     Lock_parse_fields rest (l, to_parts lc)"
  by (cases lc) (simp_all add: Lock_parse_field_def prefix_defs codec_simps)

lemma parse_txn_source [parse_field_simps]:
  "Lock_parse_fields ((if v \<noteq> 0 then TXN_SOURCE_PREFIX # encode_var_u64 v else []) @ rest) (l, p) =
     Lock_parse_fields rest (if v \<noteq> 0 then l\<lparr>lock_txn_source := v\<rparr> else l, p)"
  by (cases p) (simp add: Lock_parse_field_def prefix_defs codec_simps)

lemma parse_conflict [parse_field_simps]:
  "Lock_parse_fields ((if c then [PESSIMISTIC_LOCK_WITH_CONFLICT_PREFIX] else []) @ rest) (l, p) =
     Lock_parse_fields rest (if c then l\<lparr>lock_is_locked_with_conflict := True\<rparr> else l, p)"
  by (cases p) (simp add: Lock_parse_field_def prefix_defs)

lemma parse_generation [parse_field_simps]:
  "Lock_parse_fields (if 0 < v then GENERATION_PREFIX # encode_u64 v else []) (l, p) =
     Inr (if 0 < v then l\<lparr>lock_generation := v\<rparr> else l, p)"
  using decode_encode_u64 [of v "[]"]
  by (cases p) (simp add: Lock_parse_field_def prefix_defs)

lemma LockType_from_to_u8 [simp]: "LockType_from_u8 (LockType_to_u8 lt) = Some lt"
  by (cases lt) (simp_all add: LockType_from_u8_def FLAG_PUT_def FLAG_DELETE_def FLAG_LOCK_def
      FLAG_PESSIMISTIC_def)

lemma encode_var_u64_not_Nil [simp]: "encode_var_u64 v \<noteq> []"
  by (subst encode_var_u64.simps) simp

lemma Lock_parse_fields_serialised:
  assumes "wf_lock l"
    and l0: "l0 = Lock_new (lock_type l) (lock_primary l) (lock_ts l) (lock_ttl l) None ts_zero 0 ts_zero False"
    and bytes: "Lock_to_bytes l = [LockType_to_u8 (lock_type l)] @ encode_compact_bytes (lock_primary l) @
      encode_var_u64 (lock_ts l) @ encode_var_u64 (lock_ttl l) @ fs"
  shows "\<exists>l'. Lock_parse_fields fs (l0, ts_zero, 0) = Inr (l', to_parts (lock_last_change l)) \<and>
    l'\<lparr>lock_last_change := lock_last_change l\<rparr> = l"
proof -
  from bytes have fs: "fs =
     (case lock_short_value l of None \<Rightarrow> []
      | Some v \<Rightarrow> [SHORT_VALUE_PREFIX, of_nat (length v)] @ v) @
     (if is_zero (lock_for_update_ts l) then []
      else FOR_UPDATE_TS_PREFIX # encode_u64 (lock_for_update_ts l)) @
     (if 0 < lock_txn_size l then TXN_SIZE_PREFIX # encode_u64 (lock_txn_size l) else []) @
     (if is_zero (lock_min_commit_ts l) then []
      else MIN_COMMIT_TS_PREFIX # encode_u64 (lock_min_commit_ts l)) @
     (if lock_use_async_commit l
      then ASYNC_COMMIT_PREFIX # encode_var_u64 (of_nat (length (lock_secondaries l))) @
        concat (map encode_compact_bytes (lock_secondaries l))
      else []) @
     (if lock_rollback_ts l \<noteq> []
      then ROLLBACK_TS_PREFIX # encode_var_u64 (of_nat (length (lock_rollback_ts l))) @
        concat (map encode_u64 (lock_rollback_ts l))
      else []) @
     (if lock_last_change l = LCUnknown then []
      else
        (let (last_change_ts, versions) = to_parts (lock_last_change l) in
         LAST_CHANGE_PREFIX # encode_u64 last_change_ts @ encode_var_u64 versions)) @
     (if lock_txn_source l \<noteq> 0 then TXN_SOURCE_PREFIX # encode_var_u64 (lock_txn_source l) else []) @
     (if lock_is_locked_with_conflict l then [PESSIMISTIC_LOCK_WITH_CONFLICT_PREFIX] else []) @
     (if 0 < lock_generation l then GENERATION_PREFIX # encode_u64 (lock_generation l) else [])"
    unfolding Lock_to_bytes_def by (simp only: append_assoc same_append_eq append.simps list.inject)
  have wf: "case lock_short_value l of None \<Rightarrow> True | Some v \<Rightarrow> is_short_value v"
    "length (lock_secondaries l) < 2 ^ 31" "list_all (\<lambda>k. length k < 2 ^ 64) (lock_secondaries l)"
    "length (lock_rollback_ts l) < 2 ^ 64"
    using assms(1) by (auto simp: wf_lock_def)
  show ?thesis
    unfolding fs parse_short_value [OF wf(1)] parse_for_update_ts parse_txn_size
      parse_min_commit_ts parse_secondaries [OF wf(2,3)] parse_rollback_ts [OF wf(4)]
      parse_last_change parse_txn_source parse_conflict parse_generation
    using assms(1) unfolding wf_lock_def
    by (cases l) (auto simp: l0 Lock_new_def use_async_commit_def is_zero_def ts_zero_def word_gt_0
        split: option.splits)
qed

lemma Lock_parse_to_bytes [codec_simps]:
  assumes "wf_lock l"
  shows "Lock_parse (Lock_to_bytes l) = Inr l"
proof -
  let ?l0 = "Lock_new (lock_type l) (lock_primary l) (lock_ts l) (lock_ttl l) None ts_zero 0 ts_zero False"
  obtain fs where bytes: "Lock_to_bytes l = [LockType_to_u8 (lock_type l)] @
      encode_compact_bytes (lock_primary l) @ encode_var_u64 (lock_ts l) @ encode_var_u64 (lock_ttl l) @ fs"
    unfolding Lock_to_bytes_def by blast
  obtain l' where l': "Lock_parse_fields fs (?l0, ts_zero, 0) = Inr (l', to_parts (lock_last_change l))"
    "l'\<lparr>lock_last_change := lock_last_change l\<rparr> = l"
    using Lock_parse_fields_serialised [OF assms refl bytes] by blast
  have lc: "from_parts (fst (to_parts (lock_last_change l))) (snd (to_parts (lock_last_change l))) =
      Inr (lock_last_change l)"
    using assms by (intro from_parts_to_parts) (simp add: wf_lock_def)
  have "length (lock_primary l) < 2 ^ 64" using assms by (simp add: wf_lock_def)
  then have "Lock_parse (Lock_to_bytes l) =
      (if fs = [] then Inr ?l0
       else res_bind (Lock_parse_fields fs (?l0, ts_zero, 0)) (\<lambda>(l, lcts, versions).
         codec_try (from_parts lcts versions) (\<lambda>lc. Inr (l\<lparr>lock_last_change := lc\<rparr>))))"
    unfolding Lock_parse_def bytes by (simp add: codec_simps Let_def)
  also have "\<dots> = Inr l"
  proof (cases "fs = []")
    case True
    with l'(1) have "l' = ?l0" "to_parts (lock_last_change l) = (ts_zero, 0)" by simp_all
    moreover from this(2) lc have "lock_last_change l = LCUnknown"
      by (simp add: from_parts_def is_zero_def ts_zero_def)
    ultimately show ?thesis using l'(2) True by (simp add: Lock_new_def)
  next
    case False
    with l' lc show ?thesis by (simp add: split_beta)
  qed
  finally show ?thesis .
qed

section \<open>The size computed before serialising\<close>

lemma length_encode_var_u64:
  "unat v < 2 ^ (7 * k) \<Longrightarrow> 0 < k \<Longrightarrow> length (encode_var_u64 v) \<le> k"
proof (induction v arbitrary: k rule: encode_var_u64.induct)
  case (1 v)
  show ?case
  proof (cases "0x80 \<le> v")
    case True
    obtain j where k: "k = Suc j" using "1.prems"(2) by (cases k) auto
    have "unat v < 2 ^ (7 * j) * 128" using "1.prems"(1) by (simp add: k power_add)
    then have "unat (drop_bit 7 v) < 2 ^ (7 * j)"
      by (simp add: drop_bit_eq_div unat_div less_mult_imp_div_less)
    moreover have "0 < j"
    proof (rule ccontr)
      assume "\<not> 0 < j"
      with \<open>unat v < 2 ^ (7 * j) * 128\<close> have "unat v < 128" by simp
      with True show False by (simp add: word_le_nat_alt)
    qed
    ultimately show ?thesis
      using 1 True by (subst encode_var_u64.simps) (simp add: k)
  next
    case False
    with "1.prems" show ?thesis by (subst encode_var_u64.simps) simp
  qed
qed

lemma length_encode_var_u64_le: "length (encode_var_u64 v) \<le> MAX_VAR_U64_LEN"
proof -
  have "unat v < 2 ^ LENGTH(64)" by (rule unsigned_less)
  then have "unat v < 2 ^ (7 * 10)" by simp
  then show ?thesis
    unfolding MAX_VAR_U64_LEN_def by (rule length_encode_var_u64) simp
qed

lemma length_encode_compact_bytes_le: "length (encode_compact_bytes k) \<le> MAX_VAR_I64_LEN + length k"
  using length_encode_var_u64_le
  by (simp add: encode_compact_bytes_def encode_var_i64_def Let_def MAX_VAR_I64_LEN_def MAX_VAR_U64_LEN_def)

lemma length_concat_compact_le:
  "length (concat (map encode_compact_bytes ks)) \<le> sum_list (map (\<lambda>k. MAX_VAR_I64_LEN + length k) ks)"
proof (induction ks)
  case (Cons k ks)
  then show ?case using length_encode_compact_bytes_le [of k] by simp
qed simp

lemma length_concat_encode_u64: "length (concat (map encode_u64 tss)) = U64_SIZE * length tss"
  by (induction tss) (auto simp: U64_SIZE_def)

lemma length_last_change_le:
  "length (if lc = LCUnknown then []
      else (let (t, n) = to_parts lc in LAST_CHANGE_PREFIX # encode_u64 t @ encode_var_u64 n)) \<le>
   (if lc = LCUnknown then 0 else 1 + U64_SIZE + MAX_VAR_U64_LEN)"
  using length_encode_var_u64_le by (simp add: split_beta U64_SIZE_def)

lemma Lock_to_bytes_length_le: "length (Lock_to_bytes l) \<le> pre_allocate_size l"
proof -
  note var = length_encode_var_u64_le
  have "length (case lock_short_value l of None \<Rightarrow> []
      | Some v \<Rightarrow> [SHORT_VALUE_PREFIX, of_nat (length v)] @ v) =
    (case lock_short_value l of None \<Rightarrow> 0 | Some v \<Rightarrow> 2 + length v)"
    by (simp split: option.splits)
  moreover have "length (if lock_use_async_commit l
      then ASYNC_COMMIT_PREFIX # encode_var_u64 (of_nat (length (lock_secondaries l))) @
        concat (map encode_compact_bytes (lock_secondaries l)) else []) \<le>
    (if lock_use_async_commit l
      then 1 + MAX_VAR_U64_LEN + sum_list (map (\<lambda>k. MAX_VAR_I64_LEN + length k) (lock_secondaries l))
      else 0)"
    using add_mono [OF var length_concat_compact_le] by (simp add: add.assoc)
  moreover have "length (if lock_rollback_ts l \<noteq> []
      then ROLLBACK_TS_PREFIX # encode_var_u64 (of_nat (length (lock_rollback_ts l))) @
        concat (map encode_u64 (lock_rollback_ts l)) else []) \<le>
    (if lock_rollback_ts l \<noteq> [] then 1 + MAX_VAR_U64_LEN + U64_SIZE * length (lock_rollback_ts l) else 0)"
    using var by (simp add: length_concat_encode_u64)
  moreover note length_last_change_le [of "lock_last_change l"]
  moreover have "length (if lock_txn_source l \<noteq> 0
      then TXN_SOURCE_PREFIX # encode_var_u64 (lock_txn_source l) else []) \<le>
    (if lock_txn_source l \<noteq> 0 then 1 + MAX_VAR_U64_LEN else 0)"
    using var by simp
  moreover note length_encode_compact_bytes_le [of "lock_primary l"] var [of "lock_ts l"] var [of "lock_ttl l"]
  moreover have prefixed: "length (if c then p # encode_u64 v else []) = (if c then 1 + U64_SIZE else 0)"
    "length (if c then [] else p # encode_u64 v) = (if c then 0 else 1 + U64_SIZE)"
    "length (if c then [p] else []) = (if c then 1 else 0)" for c p v
    by (simp_all add: U64_SIZE_def)
  ultimately show ?thesis
    unfolding Lock_to_bytes_def pre_allocate_size_def length_append prefixed by simp
qed

section \<open>Which locks block a read\<close>

lemma check_ts_conflict_si_iff:
  assumes "Key_to_raw k = Inr raw"
  shows "check_ts_conflict_si l k t bypass False = Inr () \<longleftrightarrow>
    t < lock_ts l \<or> lock_type l \<in> {LTLock, LTPessimistic} \<or> t < lock_min_commit_ts l \<or>
    TsSet_contains bypass (lock_ts l) \<or>
    t = ts_max \<and> raw = lock_primary l \<and> \<not> lock_use_async_commit l \<and> \<not> lock_use_one_pc l"
  using assms by (auto simp: check_ts_conflict_si_def is_pessimistic_lock_def)

lemma check_ts_conflict_si_error:
  assumes "Key_to_raw k = Inr raw" "check_ts_conflict_si l k t bypass r \<noteq> Inr ()"
  shows "check_ts_conflict_si l k t bypass r = Inl (TKeyIsLocked (into_lock_info l raw))"
  using assms by (auto simp: check_ts_conflict_si_def split: if_splits)

section \<open>Properties of locks\<close>

text \<open>C23: Every lock that the code writes is read back unchanged from its serialised form.\<close>

theorem lock_roundtrip: "wf_lock l \<Longrightarrow> Lock_parse (Lock_to_bytes l) = Inr l"
  by (rule Lock_parse_to_bytes)

definition sample_lock :: lock where
  "sample_lock =
     (use_async_commit [[1, 2], [3]]
       (Lock_new LTPut [0x70, 0x6b] 10 3000 (Some [0x76]) 7 2 11 False))
     \<lparr>lock_rollback_ts := [5, 8], lock_last_change := LCExist 4 2\<rparr>"

theorem lock_roundtrip_witness:
  "wf_lock sample_lock \<and> Lock_parse (Lock_to_bytes sample_lock) = Inr sample_lock"
proof -
  have "wf_lock sample_lock"
    by (simp add: wf_lock_def sample_lock_def use_async_commit_def Lock_new_def is_short_value_def
        SHORT_VALUE_MAX_LEN_def)
  then show ?thesis using lock_roundtrip by blast
qed

text \<open>C31: The buffer allocated for a lock is never too small: the serialised form fits in the
  size computed beforehand.\<close>

theorem lock_size_bound: "length (Lock_to_bytes l) \<le> pre_allocate_size l"
  by (rule Lock_to_bytes_length_le)

end
