(* ===== verification/Txn_Write.thy ===== *)
theory Txn_Write
  imports Txn_Lock
begin

text \<open>
  Commit and rollback records, \<^verbatim>\<open>components/txn_types/src/write.rs\<close>: the record, its
  serialised form and parser, and the tests on it that the readers use (the GC fence and the
  protected rollback).  \<^verbatim>\<open>Write\<close> and the borrowed \<^verbatim>\<open>WriteRef\<close> have the same fields and
  are one record here.
\<close>

section \<open>Write types\<close>

datatype write_type = WTPut | WTDelete | WTLock | WTRollback

definition FLAG_ROLLBACK :: u8 where "FLAG_ROLLBACK = 0x52"
definition FLAG_OVERLAPPED_ROLLBACK :: u8 where "FLAG_OVERLAPPED_ROLLBACK = 0x52"
definition GC_FENCE_PREFIX :: u8 where "GC_FENCE_PREFIX = 0x46"
definition WRITE_TXN_SOURCE_PREFIX :: u8 where "WRITE_TXN_SOURCE_PREFIX = 0x53"

definition PROTECTED_ROLLBACK_SHORT_VALUE :: bytes where
  "PROTECTED_ROLLBACK_SHORT_VALUE = [0x70]"

lemmas write_prefix_defs =
  SHORT_VALUE_PREFIX_def FLAG_OVERLAPPED_ROLLBACK_def GC_FENCE_PREFIX_def LAST_CHANGE_PREFIX_def
  WRITE_TXN_SOURCE_PREFIX_def

fun WriteType_from_lock_type :: "lock_type \<Rightarrow> write_type option" where
  "WriteType_from_lock_type LTPut = Some WTPut"
| "WriteType_from_lock_type LTDelete = Some WTDelete"
| "WriteType_from_lock_type LTLock = Some WTLock"
| "WriteType_from_lock_type LTPessimistic = None"

definition WriteType_from_u8 :: "u8 \<Rightarrow> write_type option" where
  "WriteType_from_u8 b =
     (if b = FLAG_PUT then Some WTPut
      else if b = FLAG_DELETE then Some WTDelete
      else if b = FLAG_LOCK then Some WTLock
      else if b = FLAG_ROLLBACK then Some WTRollback
      else None)"

fun WriteType_to_u8 :: "write_type \<Rightarrow> u8" where
  "WriteType_to_u8 WTPut = FLAG_PUT"
| "WriteType_to_u8 WTDelete = FLAG_DELETE"
| "WriteType_to_u8 WTLock = FLAG_LOCK"
| "WriteType_to_u8 WTRollback = FLAG_ROLLBACK"

section \<open>The write record\<close>

record write_record =
  write_type :: write_type
  write_start_ts :: ts
  write_short_value :: "value_bytes option"
  has_overlapped_rollback :: bool
  gc_fence :: "ts option"
  write_last_change :: last_change
  write_txn_source :: u64

definition Write_new :: "write_type \<Rightarrow> ts \<Rightarrow> value_bytes option \<Rightarrow> write_record" where
  "Write_new wt start_ts sv =
     \<lparr> write_type = wt, write_start_ts = start_ts, write_short_value = sv,
       has_overlapped_rollback = False, gc_fence = None, write_last_change = LCUnknown,
       write_txn_source = 0 \<rparr>"

definition new_rollback :: "ts \<Rightarrow> bool \<Rightarrow> write_record" where
  "new_rollback start_ts protected =
     Write_new WTRollback start_ts (if protected then Some PROTECTED_ROLLBACK_SHORT_VALUE else None)"

definition set_overlapped_rollback :: "bool \<Rightarrow> ts option \<Rightarrow> write_record \<Rightarrow> write_record" where
  "set_overlapped_rollback b fence w = w\<lparr>has_overlapped_rollback := b, gc_fence := fence\<rparr>"

definition Write_parse_type :: "bytes \<Rightarrow> txn_types_error + write_type" where
  "Write_parse_type b =
     (case b of
        [] \<Rightarrow> Inl BadFormatWrite
      | t # b' \<Rightarrow> (case WriteType_from_u8 t of None \<Rightarrow> Inl BadFormatWrite | Some wt \<Rightarrow> Inr wt))"

definition Write_to_bytes :: "write_record \<Rightarrow> bytes" where
  "Write_to_bytes w =
     [WriteType_to_u8 (write_type w)] @
     encode_var_u64 (write_start_ts w) @
     (case write_short_value w of None \<Rightarrow> []
      | Some v \<Rightarrow> [SHORT_VALUE_PREFIX, of_nat (length v)] @ v) @
     (if has_overlapped_rollback w then [FLAG_OVERLAPPED_ROLLBACK] else []) @
     (case gc_fence w of None \<Rightarrow> [] | Some t \<Rightarrow> GC_FENCE_PREFIX # encode_u64 t) @
     (if write_last_change w = LCUnknown then []
      else
        (let (last_change_ts, versions) = to_parts (write_last_change w) in
         LAST_CHANGE_PREFIX # encode_u64 last_change_ts @ encode_var_u64 versions)) @
     (if write_txn_source w \<noteq> 0
      then WRITE_TXN_SOURCE_PREFIX # encode_var_u64 (write_txn_source w) else [])"

definition Write_pre_allocate_size :: "write_record \<Rightarrow> nat" where
  "Write_pre_allocate_size w =
     1 + MAX_VAR_U64_LEN + (if has_overlapped_rollback w then 1 else 0) +
     (case write_short_value w of None \<Rightarrow> 0 | Some v \<Rightarrow> 2 + length v) +
     (if gc_fence w \<noteq> None then 1 + U64_SIZE else 0) +
     (if write_last_change w = LCUnknown then 0 else 1 + U64_SIZE + MAX_VAR_U64_LEN) +
     (if write_txn_source w \<noteq> 0 then 1 + MAX_VAR_U64_LEN else 0)"

text \<open>
  One iteration of the parser's loop; the state is the record under construction with the two
  parts of the last change, and \<open>None\<close> is the \<^verbatim>\<open>break\<close>.
\<close>

type_synonym write_parse_state = "write_record \<times> ts \<times> u64"

definition Write_parse_field ::
    "u8 \<Rightarrow> bytes \<Rightarrow> write_parse_state \<Rightarrow> txn_types_error + (write_parse_state \<times> bytes) option" where
  "Write_parse_field tag b st =
     (case st of (w, lcts, versions) \<Rightarrow>
      if tag = SHORT_VALUE_PREFIX then
        (case b of
           [] \<Rightarrow> Inl BadFormatWrite
         | len # b' \<Rightarrow>
             if length b' < unat len then Inl TPanic
             else Inr (Some ((w\<lparr>write_short_value := Some (take (unat len) b')\<rparr>, lcts, versions),
               drop (unat len) b')))
      else if tag = FLAG_OVERLAPPED_ROLLBACK then
        Inr (Some ((w\<lparr>has_overlapped_rollback := True\<rparr>, lcts, versions), b))
      else if tag = GC_FENCE_PREFIX then
        codec_try (decode_u64 b) (\<lambda>(t, b').
          Inr (Some ((w\<lparr>gc_fence := Some t\<rparr>, lcts, versions), b')))
      else if tag = LAST_CHANGE_PREFIX then
        codec_try (decode_u64 b) (\<lambda>(t, b').
          codec_try (decode_var_u64 b') (\<lambda>(n, b''). Inr (Some ((w, t, n), b''))))
      else if tag = WRITE_TXN_SOURCE_PREFIX then
        codec_try (decode_var_u64 b) (\<lambda>(v, b').
          Inr (Some ((w\<lparr>write_txn_source := v\<rparr>, lcts, versions), b')))
      else Inr None)"

lemma Write_parse_field_rest:
  "Write_parse_field tag b st = Inr (Some (st', b')) \<Longrightarrow> length b' \<le> length b"
  unfolding Write_parse_field_def
  by (auto split: prod.splits if_splits list.splits dest!: length_rest)

function Write_parse_fields ::
    "bytes \<Rightarrow> write_parse_state \<Rightarrow> txn_types_error + write_parse_state" where
  "Write_parse_fields [] st = Inr st"
| "Write_parse_fields (tag # b) st =
     (case Write_parse_field tag b st of
        Inl e \<Rightarrow> Inl e
      | Inr None \<Rightarrow> Inr st
      | Inr (Some (st', b')) \<Rightarrow> Write_parse_fields b' st')"
  by pat_completeness auto
termination
  by (relation "measure (\<lambda>(b, st). length b)") (auto dest!: Write_parse_field_rest)

definition Write_parse :: "bytes \<Rightarrow> txn_types_error + write_record" where
  "Write_parse b =
     (case b of
        [] \<Rightarrow> Inl BadFormatWrite
      | t # b1 \<Rightarrow>
          (case WriteType_from_u8 t of
             None \<Rightarrow> Inl BadFormatWrite
           | Some wt \<Rightarrow>
               res_bind (res_map_err (\<lambda>_. BadFormatWrite) (read_var_u64 b1)) (\<lambda>(start_ts, b2).
               res_bind (Write_parse_fields b2 (Write_new wt start_ts None, ts_zero, 0))
                 (\<lambda>(w, lcts, versions).
               codec_try (from_parts lcts versions) (\<lambda>lc. Inr (w\<lparr>write_last_change := lc\<rparr>))))))"

section \<open>Tests on a record\<close>

definition check_gc_fence_as_latest_version :: "write_record \<Rightarrow> ts \<Rightarrow> bool" where
  "check_gc_fence_as_latest_version w read_ts =
     (case gc_fence w of
        Some gc_fence_ts \<Rightarrow> (if \<not> is_zero gc_fence_ts \<and> gc_fence_ts \<le> read_ts then False else True)
      | None \<Rightarrow> True)"

definition is_protected :: "write_record \<Rightarrow> bool" where
  "is_protected w \<longleftrightarrow>
     write_type w = WTRollback \<and>
     (case write_short_value w of
        Some v \<Rightarrow> v = PROTECTED_ROLLBACK_SHORT_VALUE | None \<Rightarrow> False)"

section \<open>Parsing undoes serialising\<close>

definition wf_write :: "write_record \<Rightarrow> bool" where
  "wf_write w \<longleftrightarrow>
     (case write_short_value w of None \<Rightarrow> True | Some v \<Rightarrow> is_short_value v) \<and>
     wf_last_change (write_last_change w)"

lemma WriteType_from_to_u8 [simp]: "WriteType_from_u8 (WriteType_to_u8 wt) = Some wt"
  by (cases wt) (simp_all add: WriteType_from_u8_def FLAG_PUT_def FLAG_DELETE_def FLAG_LOCK_def
      FLAG_ROLLBACK_def)

lemma write_short_value_step:
  "(case v of None \<Rightarrow> True | Some v \<Rightarrow> is_short_value v) \<Longrightarrow>
   Write_parse_fields ((case v of None \<Rightarrow> []
      | Some v \<Rightarrow> [SHORT_VALUE_PREFIX, of_nat (length v)] @ v) @ rest) (w, p) =
     Write_parse_fields rest (case v of None \<Rightarrow> w | Some v \<Rightarrow> w\<lparr>write_short_value := Some v\<rparr>, p)"
  by (cases v; cases p) (auto simp: Write_parse_field_def is_short_value_def
      SHORT_VALUE_MAX_LEN_def unat_of_nat_u8)

lemma write_overlapped_step:
  "Write_parse_fields ((if c then [FLAG_OVERLAPPED_ROLLBACK] else []) @ rest) (w, p) =
     Write_parse_fields rest (if c then w\<lparr>has_overlapped_rollback := True\<rparr> else w, p)"
  by (cases p) (simp add: Write_parse_field_def write_prefix_defs)

lemma write_gc_fence_step:
  "Write_parse_fields ((case f of None \<Rightarrow> [] | Some t \<Rightarrow> GC_FENCE_PREFIX # encode_u64 t) @ rest) (w, p) =
     Write_parse_fields rest (case f of None \<Rightarrow> w | Some t \<Rightarrow> w\<lparr>gc_fence := Some t\<rparr>, p)"
  by (cases f; cases p) (simp_all add: Write_parse_field_def write_prefix_defs codec_simps)

lemma write_last_change_step:
  "Write_parse_fields ((if lc = LCUnknown then []
      else (let (last_change_ts, versions) = to_parts lc in
         LAST_CHANGE_PREFIX # encode_u64 last_change_ts @ encode_var_u64 versions)) @ rest)
      (w, ts_zero, 0) =
     Write_parse_fields rest (w, to_parts lc)"
  by (cases lc) (simp_all add: Write_parse_field_def write_prefix_defs codec_simps)

lemma write_txn_source_step:
  "Write_parse_fields (if v \<noteq> 0 then WRITE_TXN_SOURCE_PREFIX # encode_var_u64 v else []) (w, p) =
     Inr (if v \<noteq> 0 then w\<lparr>write_txn_source := v\<rparr> else w, p)"
  using decode_encode_var_u64 [of v "[]"]
  by (cases p) (simp add: Write_parse_field_def write_prefix_defs)

lemma Write_parse_to_bytes [codec_simps]:
  assumes "wf_write w"
  shows "Write_parse (Write_to_bytes w) = Inr w"
proof -
  have sv: "case write_short_value w of None \<Rightarrow> True | Some v \<Rightarrow> is_short_value v"
    and lc: "wf_last_change (write_last_change w)"
    using assms by (auto simp: wf_write_def)
  let ?fs = "(case write_short_value w of None \<Rightarrow> []
      | Some v \<Rightarrow> [SHORT_VALUE_PREFIX, of_nat (length v)] @ v) @
     (if has_overlapped_rollback w then [FLAG_OVERLAPPED_ROLLBACK] else []) @
     (case gc_fence w of None \<Rightarrow> [] | Some t \<Rightarrow> GC_FENCE_PREFIX # encode_u64 t) @
     (if write_last_change w = LCUnknown then []
      else
        (let (last_change_ts, versions) = to_parts (write_last_change w) in
         LAST_CHANGE_PREFIX # encode_u64 last_change_ts @ encode_var_u64 versions)) @
     (if write_txn_source w \<noteq> 0
      then WRITE_TXN_SOURCE_PREFIX # encode_var_u64 (write_txn_source w) else [])"
  let ?w0 = "Write_new (write_type w) (write_start_ts w) None"
  obtain w' where w': "Write_parse_fields ?fs (?w0, ts_zero, 0) = Inr (w', to_parts (write_last_change w))"
    "w'\<lparr>write_last_change := write_last_change w\<rparr> = w"
    unfolding write_short_value_step [OF sv] write_overlapped_step write_gc_fence_step
      write_last_change_step write_txn_source_step
    by (cases w) (auto simp: Write_new_def split: option.splits)
  have "Write_parse (Write_to_bytes w) =
      res_bind (Write_parse_fields ?fs (?w0, ts_zero, 0)) (\<lambda>(w, lcts, versions).
        codec_try (from_parts lcts versions) (\<lambda>lc. Inr (w\<lparr>write_last_change := lc\<rparr>)))"
    unfolding Write_parse_def Write_to_bytes_def append_Cons append_Nil list.case
      WriteType_from_to_u8 option.case read_encode_var_u64 res_map_err.simps res_bind.simps split
    by (rule refl)
  with w' from_parts_to_parts [OF lc] show ?thesis
    by (simp add: split_beta)
qed

lemma Write_to_bytes_length_le: "length (Write_to_bytes w) \<le> Write_pre_allocate_size w"
  using length_encode_var_u64_le [of "write_start_ts w"] length_last_change_le [of "write_last_change w"]
    length_encode_var_u64_le [of "write_txn_source w"]
  unfolding Write_to_bytes_def Write_pre_allocate_size_def
  by (auto simp: U64_SIZE_def split: option.splits)

lemma Write_parse_type_to_bytes: "Write_parse_type (Write_to_bytes w) = Inr (write_type w)"
  by (simp add: Write_parse_type_def Write_to_bytes_def)

lemma is_protected_new_rollback [simp]: "is_protected (new_rollback t p) \<longleftrightarrow> p"
  by (simp add: is_protected_def new_rollback_def Write_new_def)

lemma wf_new_rollback [simp]: "wf_write (new_rollback t p)"
  by (simp add: wf_write_def new_rollback_def Write_new_def is_short_value_def
      SHORT_VALUE_MAX_LEN_def PROTECTED_ROLLBACK_SHORT_VALUE_def)

section \<open>Properties of write records\<close>

text \<open>C30: Every commit or rollback record with a short value of at most 255 bytes is read back
  unchanged from its serialised form, although the two integers in it are read by different
  decoders, and its serialised form fits in the size computed beforehand.\<close>

theorem write_roundtrip:
  "wf_write w \<Longrightarrow>
   Write_parse (Write_to_bytes w) = Inr w \<and> length (Write_to_bytes w) \<le> Write_pre_allocate_size w"
  by (simp add: Write_parse_to_bytes Write_to_bytes_length_le)

theorem write_roundtrip_witness:
  "wf_write (set_overlapped_rollback True (Some 12) (Write_new WTPut 5 (Some [1]))) \<and>
   Write_parse (Write_to_bytes (set_overlapped_rollback True (Some 12) (Write_new WTPut 5 (Some [1])))) =
     Inr (set_overlapped_rollback True (Some 12) (Write_new WTPut 5 (Some [1])))"
proof -
  have "wf_write (set_overlapped_rollback True (Some 12) (Write_new WTPut 5 (Some [1])))"
    by (simp add: wf_write_def set_overlapped_rollback_def Write_new_def is_short_value_def
        SHORT_VALUE_MAX_LEN_def)
  then show ?thesis using write_roundtrip by blast
qed

end
