(* ===== verification/Ordered_Map.thy ===== *)
theory Ordered_Map
  imports Txn_Write
begin

text \<open>
  The ordered map under the storage engine.  \<^verbatim>\<open>std::collections::BTreeMap\<close>, which
  \<^verbatim>\<open>components/tikv_kv/src/btree_engine.rs\<close> uses for every column family, is a strictly
  sorted association list with the operations the engine calls: \<^verbatim>\<open>get\<close>, \<^verbatim>\<open>insert\<close>,
  \<^verbatim>\<open>remove\<close> and the two ends of a \<^verbatim>\<open>range\<close>.  The locale \<open>ordered_map\<close> states what its
  clients rely on, and the lemmas about the versions of a key are proved from that contract.
\<close>

section \<open>Sorted association lists\<close>

type_synonym ('k, 'v) tree = "('k \<times> 'v) list"

definition tree_inv :: "('k::linorder, 'v) tree \<Rightarrow> bool" where
  "tree_inv m \<longleftrightarrow> sorted_wrt (<) (map fst m)"

definition tree_get :: "('k::linorder, 'v) tree \<Rightarrow> 'k \<Rightarrow> 'v option" where
  "tree_get m k = map_of m k"

fun tree_insert :: "'k::linorder \<Rightarrow> 'v \<Rightarrow> ('k, 'v) tree \<Rightarrow> ('k, 'v) tree" where
  "tree_insert k v [] = [(k, v)]"
| "tree_insert k v ((k', v') # m) =
     (if k < k' then (k, v) # (k', v') # m
      else if k = k' then (k, v) # m
      else (k', v') # tree_insert k v m)"

fun tree_remove :: "'k::linorder \<Rightarrow> ('k, 'v) tree \<Rightarrow> ('k, 'v) tree" where
  "tree_remove k [] = []"
| "tree_remove k ((k', v') # m) = (if k = k' then m else (k', v') # tree_remove k m)"

datatype 'k bound = Unbounded | Included 'k | Excluded 'k

fun above :: "'k::linorder bound \<Rightarrow> 'k \<Rightarrow> bool" where
  "above Unbounded k \<longleftrightarrow> True"
| "above (Included l) k \<longleftrightarrow> l \<le> k"
| "above (Excluded l) k \<longleftrightarrow> l < k"

fun below :: "'k::linorder bound \<Rightarrow> 'k \<Rightarrow> bool" where
  "below Unbounded k \<longleftrightarrow> True"
| "below (Included u) k \<longleftrightarrow> k \<le> u"
| "below (Excluded u) k \<longleftrightarrow> k < u"

definition in_bounds :: "'k::linorder bound \<times> 'k bound \<Rightarrow> 'k \<Rightarrow> bool" where
  "in_bounds bs k \<longleftrightarrow> above (fst bs) k \<and> below (snd bs) k"

text \<open>\<^verbatim>\<open>range(..).next()\<close> and \<^verbatim>\<open>range(..).next_back()\<close>.\<close>

definition range_first :: "('k::linorder, 'v) tree \<Rightarrow> 'k bound \<times> 'k bound \<Rightarrow> ('k \<times> 'v) option" where
  "range_first m bs = find (\<lambda>p. in_bounds bs (fst p)) m"

definition range_last :: "('k::linorder, 'v) tree \<Rightarrow> 'k bound \<times> 'k bound \<Rightarrow> ('k \<times> 'v) option" where
  "range_last m bs = find (\<lambda>p. in_bounds bs (fst p)) (rev m)"

definition first_ge :: "('k::linorder, 'v) tree \<Rightarrow> 'k \<Rightarrow> ('k \<times> 'v) option" where
  "first_ge m k = range_first m (Included k, Unbounded)"

text \<open>The sum of a measure over the entries.\<close>

definition tree_weight :: "('k \<times> 'v \<Rightarrow> 'w::comm_monoid_add) \<Rightarrow> ('k, 'v) tree \<Rightarrow> 'w" where
  "tree_weight f m = sum_list (map f m)"

section \<open>Laws of the sorted list\<close>

lemma tree_inv_Nil [simp]: "tree_inv []"
  by (simp add: tree_inv_def)

lemma tree_inv_Cons [simp]:
  "tree_inv ((k, v) # m) \<longleftrightarrow> (\<forall>(k', v') \<in> set m. k < k') \<and> tree_inv m"
  by (auto simp: tree_inv_def)

lemma tree_get_Nil [simp]: "tree_get [] k = None"
  by (simp add: tree_get_def)

lemma tree_get_Cons: "tree_get ((k', v') # m) k = (if k = k' then Some v' else tree_get m k)"
  by (simp add: tree_get_def)

lemma tree_inv_append:
  "tree_inv (xs @ (k, v) # ys) \<longleftrightarrow>
     tree_inv xs \<and> tree_inv ys \<and> (\<forall>p \<in> set xs. fst p < k) \<and> (\<forall>p \<in> set ys. k < fst p) \<and>
     (\<forall>p \<in> set xs. \<forall>q \<in> set ys. fst p < fst q)"
  by (auto simp: tree_inv_def sorted_wrt_append)

lemma tree_inv_inject: "tree_inv m \<Longrightarrow> (k, v) \<in> set m \<Longrightarrow> (k, w) \<in> set m \<Longrightarrow> v = w"
  by (induction m) auto

lemma tree_get_Some: "tree_inv m \<Longrightarrow> tree_get m k = Some v \<longleftrightarrow> (k, v) \<in> set m"
  unfolding tree_get_def
  by (metis map_of_SomeD map_of_eq_None_iff image_eqI fst_conv option.exhaust tree_inv_inject)

lemma tree_get_None: "tree_get m k = None \<longleftrightarrow> (\<forall>v. (k, v) \<notin> set m)"
  unfolding tree_get_def map_of_eq_None_iff by force

lemma tree_insert_keys: "fst ` set (tree_insert k v m) = insert k (fst ` set m)"
proof (induction m)
  case (Cons a m)
  then show ?case by (cases a) (simp add: insert_commute)
qed simp

lemma tree_inv_insert [simp]: "tree_inv m \<Longrightarrow> tree_inv (tree_insert k v m)"
proof (induction m)
  case (Cons a m)
  obtain k' v' where a: "a = (k', v')" by force
  have keys: "x \<in> insert k (fst ` set m)" if "(x, y) \<in> set (tree_insert k v m)" for x y
    using tree_insert_keys [of k v m] imageI [OF that, of fst] by simp
  have later: "k' < x" if "x \<in> fst ` set m" for x
    using Cons.prems a that by auto
  consider "k < k'" | "k = k'" | "k' < k" by fastforce
  then show ?case
  proof cases
    case 1
    with Cons.prems a later show ?thesis by force
  next
    case 2
    with Cons.prems a show ?thesis by simp
  next
    case 3
    with Cons a have "tree_insert k v (a # m) = (k', v') # tree_insert k v m" "tree_inv (tree_insert k v m)"
      by auto
    with 3 keys later show ?thesis by auto
  qed
qed simp

lemma tree_get_insert [simp]:
  "tree_get (tree_insert k v m) k' = (if k' = k then Some v else tree_get m k')"
  by (induction m) (auto simp: tree_get_Cons)

lemma tree_remove_subset: "set (tree_remove k m) \<subseteq> set m"
proof (induction m)
  case (Cons a m)
  then show ?case by (cases a) auto
qed simp

lemma tree_inv_remove [simp]: "tree_inv m \<Longrightarrow> tree_inv (tree_remove k m)"
proof (induction m)
  case (Cons a m)
  then show ?case using tree_remove_subset [of k m] by (cases a) auto
qed simp

lemma tree_get_remove [simp]:
  "tree_inv m \<Longrightarrow> tree_get (tree_remove k m) k' = (if k' = k then None else tree_get m k')"
proof (induction m)
  case (Cons a m)
  obtain x y where a: "a = (x, y)" by force
  have "tree_get m x = None" using Cons.prems a unfolding tree_get_None by auto
  with Cons a show ?case by (auto simp: tree_get_Cons)
qed simp

lemma tree_inv_filter [simp]: "tree_inv m \<Longrightarrow> tree_inv (filter P m)"
  by (induction m) auto

lemma tree_get_filter:
  "tree_get (filter (\<lambda>p. P (fst p)) m) k = (if P k then tree_get m k else None)"
  by (induction m) (auto simp: tree_get_Cons)

lemma tree_weight_Nil [simp]: "tree_weight f [] = 0"
  by (simp add: tree_weight_def)

lemma tree_weight_Cons [simp]: "tree_weight f (p # m) = f p + tree_weight f m"
  by (simp add: tree_weight_def)

lemma tree_weight_insert_new:
  "tree_get m k = None \<Longrightarrow> tree_weight f (tree_insert k v m) = f (k, v) + tree_weight f m"
  by (induction m) (auto simp: tree_get_Cons add.left_commute split: if_splits)

lemma tree_weight_insert_old:
  "tree_inv m \<Longrightarrow> tree_get m k = Some v' \<Longrightarrow> f (k, v) = f (k, v') \<Longrightarrow>
   tree_weight f (tree_insert k v m) = tree_weight f m"
proof (induction m)
  case (Cons a m)
  obtain k' w where a: "a = (k', w)" by (cases a)
  show ?case
  proof (cases "k = k'")
    case True
    with Cons.prems(2,3) a show ?thesis by (simp add: tree_get_Cons)
  next
    case False
    then have get: "tree_get m k = Some v'" using Cons.prems(2) a by (simp add: tree_get_Cons)
    then have "(k, v') \<in> set m" using Cons.prems(1) a tree_get_Some [of m k v'] by simp
    then have "k' < k" using Cons.prems(1) a by auto
    with False a Cons.IH [OF _ get Cons.prems(3)] Cons.prems(1) show ?thesis by (simp add: less_not_sym)
  qed
qed simp

lemma tree_weight_remove:
  fixes f :: "'k::linorder \<times> 'v \<Rightarrow> 'w::ab_group_add"
  shows "tree_inv m \<Longrightarrow> tree_get m k = Some v \<Longrightarrow>
    tree_weight f (tree_remove k m) = tree_weight f m - f (k, v)"
  by (induction m) (auto simp: tree_get_Cons split: if_splits)

lemma tree_weight_filter:
  "tree_weight f (filter P m) + tree_weight f (filter (\<lambda>p. \<not> P p) m) = tree_weight f m"
  by (induction m) (simp_all add: add.assoc add.left_commute)

lemma find_append: "find P (xs @ ys) = (case find P xs of None \<Rightarrow> find P ys | Some x \<Rightarrow> Some x)"
  by (induction xs) auto

lemma range_first_None: "range_first m bs = None \<longleftrightarrow> (\<forall>p \<in> set m. \<not> in_bounds bs (fst p))"
  unfolding range_first_def find_None_iff by blast

lemma range_last_None: "range_last m bs = None \<longleftrightarrow> (\<forall>p \<in> set m. \<not> in_bounds bs (fst p))"
  unfolding range_last_def find_None_iff by auto

lemma find_split:
  "find P xs = Some x \<longleftrightarrow> P x \<and> (\<exists>us vs. xs = us @ x # vs \<and> (\<forall>u \<in> set us. \<not> P u))"
proof
  show "find P xs = Some x \<Longrightarrow> P x \<and> (\<exists>us vs. xs = us @ x # vs \<and> (\<forall>u \<in> set us. \<not> P u))"
  proof (induction xs)
    case (Cons y xs)
    show ?case
    proof (cases "P y")
      case True
      with Cons.prems have "y = x" by simp
      with True show ?thesis by (metis append_Nil empty_iff list.set(1))
    next
      case False
      with Cons obtain us vs where "P x" "xs = us @ x # vs" "\<forall>u \<in> set us. \<not> P u" by auto
      with False have "y # xs = (y # us) @ x # vs" "\<forall>u \<in> set (y # us). \<not> P u" by auto
      with \<open>P x\<close> show ?thesis by blast
    qed
  qed simp
next
  assume "P x \<and> (\<exists>us vs. xs = us @ x # vs \<and> (\<forall>u \<in> set us. \<not> P u))"
  then obtain us vs where "P x" "xs = us @ x # vs" "\<forall>u \<in> set us. \<not> P u" by blast
  then have "find P us = None" by (auto simp: find_None_iff)
  with \<open>P x\<close> \<open>xs = us @ x # vs\<close> show "find P xs = Some x" by (simp add: find_append)
qed

lemma range_first_Some:
  assumes "tree_inv m"
  shows "range_first m bs = Some p \<longleftrightarrow>
     p \<in> set m \<and> in_bounds bs (fst p) \<and> (\<forall>q \<in> set m. in_bounds bs (fst q) \<longrightarrow> fst p \<le> fst q)"
  (is "_ \<longleftrightarrow> ?R")
proof
  assume "range_first m bs = Some p"
  then obtain us vs where "in_bounds bs (fst p)" "m = us @ p # vs" "\<forall>u \<in> set us. \<not> in_bounds bs (fst u)"
    unfolding range_first_def find_split by blast
  with assms show ?R by (cases p) (auto simp: tree_inv_append less_imp_le)
next
  assume R: ?R
  then obtain us vs where m: "m = us @ p # vs" by (meson split_list)
  with assms have "\<forall>u \<in> set us. fst u < fst p" by (cases p) (simp add: tree_inv_append)
  with R m show "range_first m bs = Some p"
    unfolding range_first_def find_split by (metis UnCI leD set_append)
qed

lemma range_last_Some:
  assumes "tree_inv m"
  shows "range_last m bs = Some p \<longleftrightarrow>
     p \<in> set m \<and> in_bounds bs (fst p) \<and> (\<forall>q \<in> set m. in_bounds bs (fst q) \<longrightarrow> fst q \<le> fst p)"
  (is "_ \<longleftrightarrow> ?R")
proof
  assume "range_last m bs = Some p"
  then obtain us vs where "in_bounds bs (fst p)" "rev m = us @ p # vs" "\<forall>u \<in> set us. \<not> in_bounds bs (fst u)"
    unfolding range_last_def find_split by blast
  moreover from this(2) have "m = rev vs @ p # rev us" by (metis append.assoc append_Cons append_Nil rev.simps(2) rev_append rev_swap)
  ultimately show ?R using assms by (cases p) (auto simp: tree_inv_append less_imp_le)
next
  assume R: ?R
  then obtain us vs where m: "m = us @ p # vs" by (meson split_list)
  with assms have "\<forall>u \<in> set (rev vs). fst p < fst u" by (cases p) (simp add: tree_inv_append)
  moreover have "rev m = rev vs @ p # rev us" using m by simp
  ultimately show "range_last m bs = Some p"
    using R m unfolding range_last_def find_split by (metis UnCI leD list.set_intros(2) set_append set_rev)
qed

section \<open>The contract of an ordered map of keys\<close>

locale ordered_map =
  fixes inv :: "'m \<Rightarrow> bool"
    and get :: "'m \<Rightarrow> key \<Rightarrow> 'v option"
    and ins :: "key \<Rightarrow> 'v \<Rightarrow> 'm \<Rightarrow> 'm"
    and rem :: "key \<Rightarrow> 'm \<Rightarrow> 'm"
    and seek :: "'m \<Rightarrow> key \<Rightarrow> (key \<times> 'v) option"
  assumes inv_ins: "inv m \<Longrightarrow> inv (ins k v m)"
    and inv_rem: "inv m \<Longrightarrow> inv (rem k m)"
    and get_ins: "inv m \<Longrightarrow> get (ins k v m) k' = (if k' = k then Some v else get m k')"
    and get_rem: "inv m \<Longrightarrow> get (rem k m) k' = (if k' = k then None else get m k')"
    and seek_Some: "inv m \<Longrightarrow> seek m k = Some (k', v) \<longleftrightarrow>
      get m k' = Some v \<and> k \<le> k' \<and> (\<forall>x. get m x \<noteq> None \<longrightarrow> k \<le> x \<longrightarrow> k' \<le> x)"
    and seek_None: "inv m \<Longrightarrow> seek m k = None \<longleftrightarrow> (\<forall>x. get m x \<noteq> None \<longrightarrow> \<not> k \<le> x)"
begin

text \<open>
  When every stored key is an encoded user key with a timestamp, seeking to a version of a key
  finds the newest version that is not newer, exactly if there is one.
\<close>

lemma seek_version:
  assumes "inv m" and keys: "\<And>x. get m x \<noteq> None \<Longrightarrow> \<exists>u s. x = append_ts (Key_from_raw u) s"
  shows "seek m (append_ts (Key_from_raw raw) t) = Some (append_ts (Key_from_raw raw) t', v) \<longleftrightarrow>
    t' \<le> t \<and> get m (append_ts (Key_from_raw raw) t') = Some v \<and>
    (\<forall>s. t' < s \<longrightarrow> s \<le> t \<longrightarrow> get m (append_ts (Key_from_raw raw) s) = None)"
  (is "?L \<longleftrightarrow> ?R")
proof
  assume ?L
  with assms(1) show ?R
    unfolding seek_Some [OF assms(1)] by (metis append_ts_le_same leD)
next
  assume R: ?R
  have "append_ts (Key_from_raw raw) t' \<le> x"
    if x: "get m x \<noteq> None" and le: "append_ts (Key_from_raw raw) t \<le> x" for x
  proof -
    from keys [OF x] obtain u s where us: "x = append_ts (Key_from_raw u) s" by blast
    show ?thesis
    proof (cases "raw = u")
      case True
      with R x le us show ?thesis by (metis append_ts_le_same linorder_not_le)
    next
      case False
      with le us have "raw < u" by (simp add: order.order_iff_strict append_ts_from_raw_less)
      then show ?thesis using us by (simp add: order.order_iff_strict append_ts_from_raw_less)
    qed
  qed
  with R show ?L unfolding seek_Some [OF assms(1)] by simp
qed

lemma seek_version_none:
  assumes "inv m" and keys: "\<And>x. get m x \<noteq> None \<Longrightarrow> \<exists>u s. x = append_ts (Key_from_raw u) s"
  shows "(\<exists>t' v. seek m (append_ts (Key_from_raw raw) t) = Some (append_ts (Key_from_raw raw) t', v)) \<longleftrightarrow>
    (\<exists>t' \<le> t. get m (append_ts (Key_from_raw raw) t') \<noteq> None)"
  (is "?L \<longleftrightarrow> ?R")
proof
  assume ?L
  then obtain t' v where "seek m (append_ts (Key_from_raw raw) t) = Some (append_ts (Key_from_raw raw) t', v)"
    by blast
  then show ?R using seek_version [OF assms] by auto
next
  assume ?R
  define S where "S = {s. s \<le> t \<and> get m (append_ts (Key_from_raw raw) s) \<noteq> None}"
  have "finite S" by simp
  moreover have "S \<noteq> {}" using \<open>?R\<close> by (auto simp: S_def)
  ultimately have max: "Max S \<in> S" by (rule Max_in)
  then obtain v where v: "Max S \<le> t" "get m (append_ts (Key_from_raw raw) (Max S)) = Some v"
    unfolding S_def by blast
  have "get m (append_ts (Key_from_raw raw) s) = None" if "Max S < s" "s \<le> t" for s
  proof (rule ccontr)
    assume "get m (append_ts (Key_from_raw raw) s) \<noteq> None"
    with \<open>s \<le> t\<close> have "s \<in> S" by (simp add: S_def)
    then have "s \<le> Max S" using \<open>finite S\<close> by (rule Max_ge [rotated])
    with \<open>Max S < s\<close> show False by simp
  qed
  with v have "seek m (append_ts (Key_from_raw raw) t) = Some (append_ts (Key_from_raw raw) (Max S), v)"
    using seek_version [OF assms] by blast
  then show ?L by blast
qed

end

lemma first_ge_Some:
  "tree_inv m \<Longrightarrow> first_ge m k = Some (k', v) \<longleftrightarrow>
     tree_get m k' = Some v \<and> k \<le> k' \<and> (\<forall>x. tree_get m x \<noteq> None \<longrightarrow> k \<le> x \<longrightarrow> k' \<le> x)"
  unfolding first_ge_def range_first_Some
  by (auto simp: in_bounds_def tree_get_Some tree_get_None)

lemma first_ge_None:
  "tree_inv m \<Longrightarrow> first_ge m k = None \<longleftrightarrow> (\<forall>x. tree_get m x \<noteq> None \<longrightarrow> \<not> k \<le> x)"
  unfolding first_ge_def range_first_None
  by (auto simp: in_bounds_def tree_get_None)

interpretation btree: ordered_map tree_inv tree_get tree_insert tree_remove first_ge
  by unfold_locales (simp_all add: first_ge_Some first_ge_None)

end
