(* ===== verification/Engine.thy ===== *)
theory Engine
  imports Ordered_Map
begin

text \<open>
  The key value engine, \<^verbatim>\<open>components/tikv_kv\<close>: modifications (\<^verbatim>\<open>lib.rs\<close>), the in
  memory engine over ordered maps with its three column families and its iterator
  (\<^verbatim>\<open>btree_engine.rs\<close>), and the iterator trait as a record of operations with its contract
  as a locale, which the cursors of the theory \<open>Cursor\<close> rely on.  Locks around the trees
  and statistics are not modelled.
\<close>

section \<open>Modifications\<close>

datatype cf = CF_DEFAULT | CF_LOCK | CF_WRITE

fun cf_len :: "cf \<Rightarrow> nat" where
  "cf_len CF_DEFAULT = 7"
| "cf_len CF_LOCK = 4"
| "cf_len CF_WRITE = 5"

datatype modify =
    ModDelete cf key
  | ModPut cf key value_bytes
  | ModPessimisticLock key pessimistic_lock
  | ModDeleteRange cf key key bool
  | ModIngest

text \<open>\<open>None\<close> is the \<^verbatim>\<open>unreachable!()\<close> of modifications without a size or key.\<close>

definition cf_size :: "cf \<Rightarrow> nat" where
  "cf_size cf = (if cf = CF_DEFAULT then 0 else cf_len cf)"

fun modify_size :: "modify \<Rightarrow> nat option" where
  "modify_size (ModDelete cf k) = Some (cf_size cf + length k)"
| "modify_size (ModPut cf k v) = Some (cf_size cf + length k + length v)"
| "modify_size (ModPessimisticLock k l) = Some (cf_size CF_LOCK + length k)"
| "modify_size (ModDeleteRange cf s e b) = None"
| "modify_size ModIngest = None"

fun modify_key :: "modify \<Rightarrow> key option" where
  "modify_key (ModDelete cf k) = Some k"
| "modify_key (ModPut cf k v) = Some k"
| "modify_key (ModPessimisticLock k l) = Some k"
| "modify_key (ModDeleteRange cf s e b) = None"
| "modify_key ModIngest = None"

section \<open>The in memory engine\<close>

record engine =
  eng_default :: "(key, value_bytes) tree"
  eng_lock :: "(key, value_bytes) tree"
  eng_write :: "(key, value_bytes) tree"

definition engine_new :: engine where
  "engine_new = \<lparr> eng_default = [], eng_lock = [], eng_write = [] \<rparr>"

fun get_cf_tree :: "engine \<Rightarrow> cf \<Rightarrow> (key, value_bytes) tree" where
  "get_cf_tree e CF_DEFAULT = eng_default e"
| "get_cf_tree e CF_LOCK = eng_lock e"
| "get_cf_tree e CF_WRITE = eng_write e"

fun map_cf_tree ::
    "((key, value_bytes) tree \<Rightarrow> (key, value_bytes) tree) \<Rightarrow> cf \<Rightarrow> engine \<Rightarrow> engine" where
  "map_cf_tree f CF_DEFAULT e = e\<lparr>eng_default := f (eng_default e)\<rparr>"
| "map_cf_tree f CF_LOCK e = e\<lparr>eng_lock := f (eng_lock e)\<rparr>"
| "map_cf_tree f CF_WRITE e = e\<lparr>eng_write := f (eng_write e)\<rparr>"

definition get_cf :: "engine \<Rightarrow> cf \<Rightarrow> key \<Rightarrow> value_bytes option" where
  "get_cf e cf k = tree_get (get_cf_tree e cf) k"

text \<open>The request errors (\<^verbatim>\<open>kvproto::errorpb::Error\<close>) that the modelled code builds.\<close>

datatype errorpb = StaleCommand | EpochNotMatch | FlashbackInProgress

datatype kv_error = KvRequest errorpb | KvEmptyRequest | KvIterator | KvPanic

fun write_modifies :: "engine \<Rightarrow> modify list \<Rightarrow> kv_error + engine" where
  "write_modifies e [] = Inr e"
| "write_modifies e (ModDelete cf k # ms) = write_modifies (map_cf_tree (tree_remove k) cf e) ms"
| "write_modifies e (ModPut cf k v # ms) = write_modifies (map_cf_tree (tree_insert k v) cf e) ms"
| "write_modifies e (ModPessimisticLock k l # ms) =
     write_modifies
       (map_cf_tree (tree_insert k (Lock_to_bytes (PessimisticLock_to_lock l))) CF_LOCK e) ms"
| "write_modifies e (ModDeleteRange cf s t b # ms) = Inl KvPanic"
| "write_modifies e (ModIngest # ms) = Inl KvPanic"

definition async_write :: "engine \<Rightarrow> modify list \<Rightarrow> kv_error + engine" where
  "async_write e ms = (if ms = [] then Inl KvEmptyRequest else write_modifies e ms)"

section \<open>The iterator trait\<close>

definition first_key :: "('k::linorder, 'v) tree \<Rightarrow> 'k bound \<times> 'k bound \<Rightarrow> 'k option" where
  "first_key m bs = map_option fst (range_first m bs)"

definition last_key :: "('k::linorder, 'v) tree \<Rightarrow> 'k bound \<times> 'k bound \<Rightarrow> 'k option" where
  "last_key m bs = map_option fst (range_last m bs)"

text \<open>
  The methods of \<^verbatim>\<open>tikv_kv::Iterator\<close>.  A method that moves the iterator returns whether it is
  valid afterwards, with the iterator; reading the key or value of an invalid iterator panics.
\<close>

record 'i iter_ops =
  op_next :: "'i \<Rightarrow> (kv_error + bool) \<times> 'i"
  op_prev :: "'i \<Rightarrow> (kv_error + bool) \<times> 'i"
  op_seek :: "'i \<Rightarrow> key \<Rightarrow> (kv_error + bool) \<times> 'i"
  op_seek_for_prev :: "'i \<Rightarrow> key \<Rightarrow> (kv_error + bool) \<times> 'i"
  op_seek_to_first :: "'i \<Rightarrow> (kv_error + bool) \<times> 'i"
  op_seek_to_last :: "'i \<Rightarrow> (kv_error + bool) \<times> 'i"
  op_valid :: "'i \<Rightarrow> kv_error + bool"
  op_validate_key :: "'i \<Rightarrow> key \<Rightarrow> kv_error + unit"
  op_key :: "'i \<Rightarrow> kv_error + bytes"
  op_value :: "'i \<Rightarrow> kv_error + bytes"

text \<open>
  What a user of an iterator relies on: a fixed sorted view of the data, a position in it that
  every move changes as the name of the method says, and no errors.  \<open>fwd\<close> and \<open>bwd\<close> are the
  keys that may be given to the two seeks (an iterator with bounds may refuse others).
\<close>

locale kv_iterator =
  fixes ops :: "'i iter_ops"
    and ok :: "'i \<Rightarrow> bool"
    and view :: "'i \<Rightarrow> (key, value_bytes) tree"
    and pos :: "'i \<Rightarrow> key option"
    and fwd :: "'i \<Rightarrow> key \<Rightarrow> bool"
    and bwd :: "'i \<Rightarrow> key \<Rightarrow> bool"
    and same :: "'i \<Rightarrow> 'i \<Rightarrow> bool"
  assumes view_inv: "ok it \<Longrightarrow> tree_inv (view it)"
    and same_refl: "same it it"
    and same_trans: "same it it' \<Longrightarrow> same it' it'' \<Longrightarrow> same it it''"
    and same_view: "same it it' \<Longrightarrow> view it' = view it"
    and same_fwd: "same it it' \<Longrightarrow> fwd it' = fwd it"
    and same_bwd: "same it it' \<Longrightarrow> bwd it' = bwd it"
    and pos_view: "ok it \<Longrightarrow> pos it = Some c \<Longrightarrow> tree_get (view it) c \<noteq> None"
    and valid: "ok it \<Longrightarrow> op_valid ops it = Inr (pos it \<noteq> None)"
    and key: "ok it \<Longrightarrow> pos it = Some c \<Longrightarrow> op_key ops it = Inr c"
    and val: "ok it \<Longrightarrow> pos it = Some c \<Longrightarrow> op_value ops it = Inr (the (tree_get (view it) c))"
    and validate: "ok it \<Longrightarrow> op_validate_key ops it k = Inr ()"
    and seek: "ok it \<Longrightarrow> fwd it k \<Longrightarrow> \<exists>it'. op_seek ops it k = (Inr (pos it' \<noteq> None), it') \<and> ok it' \<and>
      same it it' \<and> pos it' = first_key (view it) (Included k, Unbounded)"
    and seek_for_prev: "ok it \<Longrightarrow> bwd it k \<Longrightarrow>
      \<exists>it'. op_seek_for_prev ops it k = (Inr (pos it' \<noteq> None), it') \<and> ok it' \<and>
      same it it' \<and> pos it' = last_key (view it) (Unbounded, Included k)"
    and nxt: "ok it \<Longrightarrow> pos it = Some c \<Longrightarrow> \<exists>it'. op_next ops it = (Inr (pos it' \<noteq> None), it') \<and> ok it' \<and>
      same it it' \<and> pos it' = first_key (view it) (Excluded c, Unbounded)"
    and prv: "ok it \<Longrightarrow> pos it = Some c \<Longrightarrow> \<exists>it'. op_prev ops it = (Inr (pos it' \<noteq> None), it') \<and> ok it' \<and>
      same it it' \<and> pos it' = last_key (view it) (Unbounded, Excluded c)"
    and first: "ok it \<Longrightarrow> \<exists>it'. op_seek_to_first ops it = (Inr (pos it' \<noteq> None), it') \<and> ok it' \<and>
      same it it' \<and> pos it' = first_key (view it) (Unbounded, Unbounded)"
    and last: "ok it \<Longrightarrow> \<exists>it'. op_seek_to_last ops it = (Inr (pos it' \<noteq> None), it') \<and> ok it' \<and>
      same it it' \<and> pos it' = last_key (view it) (Unbounded, Unbounded)"

section \<open>The iterator of the in memory engine\<close>

record btree_iter =
  bi_tree :: "(key, value_bytes) tree"
  bi_cur_key :: "key option"
  bi_cur_value :: "value_bytes option"
  bi_valid :: bool
  bi_bounds :: "key bound \<times> key bound"

text \<open>\<^verbatim>\<open>BTreeMap::range\<close> panics on a range that ends before it starts.\<close>

fun range_panics :: "key bound \<times> key bound \<Rightarrow> bool" where
  "range_panics (Included l, Included u) \<longleftrightarrow> u < l"
| "range_panics (Included l, Excluded u) \<longleftrightarrow> u < l"
| "range_panics (Excluded l, Included u) \<longleftrightarrow> u < l"
| "range_panics (Excluded l, Excluded u) \<longleftrightarrow> u \<le> l"
| "range_panics _ \<longleftrightarrow> False"

definition BTreeEngineIterator_new ::
    "(key, value_bytes) tree \<Rightarrow> bytes option \<Rightarrow> bytes option \<Rightarrow> btree_iter" where
  "BTreeEngineIterator_new t lower upper =
     \<lparr> bi_tree = t, bi_cur_key = None, bi_cur_value = None, bi_valid = False,
       bi_bounds =
         (case lower of None \<Rightarrow> Unbounded | Some k \<Rightarrow> Included (Key_from_raw k),
          case upper of None \<Rightarrow> Unbounded | Some k \<Rightarrow> Excluded (Key_from_raw k)) \<rparr>"

definition seek_to_range_endpoint ::
    "btree_iter \<Rightarrow> key bound \<times> key bound \<Rightarrow> bool \<Rightarrow> (kv_error + bool) \<times> btree_iter" where
  "seek_to_range_endpoint it rng left =
     (if range_panics rng then (Inl KvPanic, it)
      else
        (case (if left then range_first (bi_tree it) rng else range_last (bi_tree it) rng) of
           Some (k, v) \<Rightarrow>
             if in_bounds (bi_bounds it) k
             then (Inr True, it\<lparr>bi_cur_key := Some k, bi_cur_value := Some v, bi_valid := True\<rparr>)
             else (Inr False, it\<lparr>bi_valid := False\<rparr>)
         | None \<Rightarrow> (Inr False, it\<lparr>bi_valid := False\<rparr>)))"

definition bi_next :: "btree_iter \<Rightarrow> (kv_error + bool) \<times> btree_iter" where
  "bi_next it =
     (case bi_cur_key it of
        None \<Rightarrow> (Inl KvPanic, it)
      | Some k \<Rightarrow> seek_to_range_endpoint it (Excluded k, Unbounded) True)"

definition bi_prev :: "btree_iter \<Rightarrow> (kv_error + bool) \<times> btree_iter" where
  "bi_prev it =
     (case bi_cur_key it of
        None \<Rightarrow> (Inl KvPanic, it)
      | Some k \<Rightarrow> seek_to_range_endpoint it (Unbounded, Excluded k) False)"

definition bi_seek :: "btree_iter \<Rightarrow> key \<Rightarrow> (kv_error + bool) \<times> btree_iter" where
  "bi_seek it k = seek_to_range_endpoint it (Included k, Unbounded) True"

definition bi_seek_for_prev :: "btree_iter \<Rightarrow> key \<Rightarrow> (kv_error + bool) \<times> btree_iter" where
  "bi_seek_for_prev it k = seek_to_range_endpoint it (Unbounded, Included k) False"

definition bi_seek_to_first :: "btree_iter \<Rightarrow> (kv_error + bool) \<times> btree_iter" where
  "bi_seek_to_first it = seek_to_range_endpoint it (bi_bounds it) True"

definition bi_seek_to_last :: "btree_iter \<Rightarrow> (kv_error + bool) \<times> btree_iter" where
  "bi_seek_to_last it = seek_to_range_endpoint it (bi_bounds it) False"

definition bi_key :: "btree_iter \<Rightarrow> kv_error + bytes" where
  "bi_key it =
     (if bi_valid it then (case bi_cur_key it of Some k \<Rightarrow> Inr k | None \<Rightarrow> Inl KvPanic)
      else Inl KvPanic)"

definition bi_value :: "btree_iter \<Rightarrow> kv_error + bytes" where
  "bi_value it =
     (if bi_valid it then (case bi_cur_value it of Some v \<Rightarrow> Inr v | None \<Rightarrow> Inl KvPanic)
      else Inl KvPanic)"

definition btree_ops :: "btree_iter iter_ops" where
  "btree_ops =
     \<lparr> op_next = bi_next, op_prev = bi_prev, op_seek = bi_seek,
       op_seek_for_prev = bi_seek_for_prev, op_seek_to_first = bi_seek_to_first,
       op_seek_to_last = bi_seek_to_last, op_valid = (\<lambda>it. Inr (bi_valid it)),
       op_validate_key = (\<lambda>it k. Inr ()), op_key = bi_key, op_value = bi_value \<rparr>"

section \<open>The iterator keeps the contract\<close>

definition bi_ok :: "btree_iter \<Rightarrow> bool" where
  "bi_ok it \<longleftrightarrow>
     tree_inv (bi_tree it) \<and> \<not> range_panics (bi_bounds it) \<and>
     (bi_valid it \<longrightarrow> (\<exists>k v. bi_cur_key it = Some k \<and> bi_cur_value it = Some v \<and>
        tree_get (bi_tree it) k = Some v \<and> in_bounds (bi_bounds it) k))"

definition bi_view :: "btree_iter \<Rightarrow> (key, value_bytes) tree" where
  "bi_view it = filter (\<lambda>p. in_bounds (bi_bounds it) (fst p)) (bi_tree it)"

definition bi_pos :: "btree_iter \<Rightarrow> key option" where
  "bi_pos it = (if bi_valid it then bi_cur_key it else None)"

definition bi_fwd :: "btree_iter \<Rightarrow> key \<Rightarrow> bool" where
  "bi_fwd it k \<longleftrightarrow> above (fst (bi_bounds it)) k"

definition bi_bwd :: "btree_iter \<Rightarrow> key \<Rightarrow> bool" where
  "bi_bwd it k \<longleftrightarrow> below (snd (bi_bounds it)) k"

definition bi_same :: "btree_iter \<Rightarrow> btree_iter \<Rightarrow> bool" where
  "bi_same it it' \<longleftrightarrow> bi_tree it' = bi_tree it \<and> bi_bounds it' = bi_bounds it"

lemma above_mono: "above b x \<Longrightarrow> x \<le> y \<Longrightarrow> above b y"
  by (cases b) auto

lemma below_mono: "below b x \<Longrightarrow> y \<le> x \<Longrightarrow> below b y"
  by (cases b) auto

lemma forward_endpoint:
  assumes "tree_inv t" "\<And>x. in_bounds R x \<Longrightarrow> above (fst bs) x"
  shows "range_first (filter (\<lambda>p. in_bounds bs (fst p)) t) R =
    (case range_first t R of Some p \<Rightarrow> if in_bounds bs (fst p) then Some p else None | None \<Rightarrow> None)"
proof (cases "range_first t R")
  case None
  then have "range_first (filter (\<lambda>p. in_bounds bs (fst p)) t) R = None"
    unfolding range_first_None by simp
  with None show ?thesis by simp
next
  case (Some p)
  then have p: "p \<in> set t" "in_bounds R (fst p)" "\<forall>q \<in> set t. in_bounds R (fst q) \<longrightarrow> fst p \<le> fst q"
    by (auto simp: range_first_Some [OF assms(1)])
  show ?thesis
  proof (cases "in_bounds bs (fst p)")
    case True
    with p have "range_first (filter (\<lambda>p. in_bounds bs (fst p)) t) R = Some p"
      by (simp add: range_first_Some [OF tree_inv_filter [OF assms(1)]])
    with Some True show ?thesis by simp
  next
    case False
    with p assms(2) have "\<not> below (snd bs) (fst p)" by (simp add: in_bounds_def)
    with p below_mono have "range_first (filter (\<lambda>p. in_bounds bs (fst p)) t) R = None"
      unfolding range_first_None by (fastforce simp: in_bounds_def)
    with Some False show ?thesis by simp
  qed
qed

lemma backward_endpoint:
  assumes "tree_inv t" "\<And>x. in_bounds R x \<Longrightarrow> below (snd bs) x"
  shows "range_last (filter (\<lambda>p. in_bounds bs (fst p)) t) R =
    (case range_last t R of Some p \<Rightarrow> if in_bounds bs (fst p) then Some p else None | None \<Rightarrow> None)"
proof (cases "range_last t R")
  case None
  then have "range_last (filter (\<lambda>p. in_bounds bs (fst p)) t) R = None"
    unfolding range_last_None by simp
  with None show ?thesis by simp
next
  case (Some p)
  then have p: "p \<in> set t" "in_bounds R (fst p)" "\<forall>q \<in> set t. in_bounds R (fst q) \<longrightarrow> fst q \<le> fst p"
    by (auto simp: range_last_Some [OF assms(1)])
  show ?thesis
  proof (cases "in_bounds bs (fst p)")
    case True
    with p have "range_last (filter (\<lambda>p. in_bounds bs (fst p)) t) R = Some p"
      by (simp add: range_last_Some [OF tree_inv_filter [OF assms(1)]])
    with Some True show ?thesis by simp
  next
    case False
    with p assms(2) have "\<not> above (fst bs) (fst p)" by (simp add: in_bounds_def)
    with p above_mono have "range_last (filter (\<lambda>p. in_bounds bs (fst p)) t) R = None"
      unfolding range_last_None by (fastforce simp: in_bounds_def)
    with Some False show ?thesis by simp
  qed
qed

lemma find_filter: "find Q (filter P xs) = find (\<lambda>x. P x \<and> Q x) xs"
  by (induction xs) auto

lemma whole_range:
  "range_first (filter (\<lambda>p. in_bounds bs (fst p)) t) (Unbounded, Unbounded) = range_first t bs"
  "range_last (filter (\<lambda>p. in_bounds bs (fst p)) t) (Unbounded, Unbounded) = range_last t bs"
  by (simp_all add: range_first_def range_last_def find_filter rev_filter in_bounds_def)

text \<open>One move of the iterator, given that the endpoint of the view is the one it finds.\<close>

lemma endpoint_move:
  assumes "bi_ok it" "\<not> range_panics R"
    and find: "(if left then range_first (bi_tree it) R else range_last (bi_tree it) R) = res"
    and view: "target = (case res of Some p \<Rightarrow> if in_bounds (bi_bounds it) (fst p) then Some p else None
        | None \<Rightarrow> None)"
    and mem: "\<And>p. res = Some p \<Longrightarrow> p \<in> set (bi_tree it)"
  shows "\<exists>it'. seek_to_range_endpoint it R left = (Inr (bi_pos it' \<noteq> None), it') \<and> bi_ok it' \<and>
    bi_same it it' \<and> bi_pos it' = map_option fst target"
proof (cases "target")
  case None
  with view have "seek_to_range_endpoint it R left = (Inr False, it\<lparr>bi_valid := False\<rparr>)"
    using assms(2) find unfolding seek_to_range_endpoint_def
    by (auto split: option.splits if_splits)
  with None assms(1) show ?thesis
    by (intro exI [of _ "it\<lparr>bi_valid := False\<rparr>"]) (simp add: bi_pos_def bi_ok_def bi_same_def)
next
  case (Some p)
  with view have res: "res = Some p" "in_bounds (bi_bounds it) (fst p)"
    by (auto split: option.splits if_splits)
  let ?it = "it\<lparr>bi_cur_key := Some (fst p), bi_cur_value := Some (snd p), bi_valid := True\<rparr>"
  have "tree_get (bi_tree it) (fst p) = Some (snd p)"
    using assms(1) mem [OF res(1)] by (simp add: bi_ok_def tree_get_Some)
  moreover have "seek_to_range_endpoint it R left = (Inr True, ?it)"
    using assms(2) find res by (cases p) (simp add: seek_to_range_endpoint_def)
  ultimately show ?thesis
    using assms(1) res Some
    by (intro exI [of _ ?it]) (simp add: bi_pos_def bi_ok_def bi_same_def)
qed

lemma range_first_mem: "range_first m R = Some p \<Longrightarrow> p \<in> set m"
  by (auto simp: range_first_def find_Some_iff)

lemma range_last_mem: "range_last m R = Some p \<Longrightarrow> p \<in> set m"
  unfolding range_last_def by (metis find_Some_iff nth_mem set_rev)

lemma range_first_in: "range_first m R = Some p \<Longrightarrow> in_bounds R (fst p)"
  by (auto simp: range_first_def find_split)

lemma range_last_in: "range_last m R = Some p \<Longrightarrow> in_bounds R (fst p)"
  by (auto simp: range_last_def find_split)

lemma bi_move_forward:
  assumes "bi_ok it" "\<And>x. in_bounds (lo, Unbounded) x \<Longrightarrow> above (fst (bi_bounds it)) x"
  shows "\<exists>it'. seek_to_range_endpoint it (lo, Unbounded) True = (Inr (bi_pos it' \<noteq> None), it') \<and> bi_ok it' \<and>
    bi_same it it' \<and> bi_pos it' = first_key (bi_view it) (lo, Unbounded)"
proof -
  have inv: "tree_inv (bi_tree it)" using assms(1) by (simp add: bi_ok_def)
  show ?thesis
    using forward_endpoint [OF inv assms(2)]
    unfolding bi_view_def first_key_def last_key_def by (intro endpoint_move [OF assms(1)]) (auto dest: range_first_mem)
qed

lemma bi_move_backward:
  assumes "bi_ok it" "\<And>x. in_bounds (Unbounded, up) x \<Longrightarrow> below (snd (bi_bounds it)) x"
  shows "\<exists>it'. seek_to_range_endpoint it (Unbounded, up) False = (Inr (bi_pos it' \<noteq> None), it') \<and> bi_ok it' \<and>
    bi_same it it' \<and> bi_pos it' = last_key (bi_view it) (Unbounded, up)"
proof -
  have inv: "tree_inv (bi_tree it)" using assms(1) by (simp add: bi_ok_def)
  show ?thesis
    using backward_endpoint [OF inv assms(2)]
    unfolding bi_view_def first_key_def last_key_def by (intro endpoint_move [OF assms(1)]) (auto dest: range_last_mem)
qed

lemma bi_cur:
  assumes "bi_ok it" "bi_pos it = Some c"
  shows "bi_valid it" "bi_cur_key it = Some c" "in_bounds (bi_bounds it) c"
    "bi_cur_value it = tree_get (bi_tree it) c" "tree_get (bi_tree it) c \<noteq> None"
  using assms by (auto simp: bi_ok_def bi_pos_def split: if_splits)

lemma bi_next_law:
  assumes "bi_ok it" "bi_pos it = Some c"
  shows "\<exists>it'. bi_next it = (Inr (bi_pos it' \<noteq> None), it') \<and> bi_ok it' \<and> bi_same it it' \<and>
    bi_pos it' = first_key (bi_view it) (Excluded c, Unbounded)"
proof -
  have "above (fst (bi_bounds it)) x" if "in_bounds (Excluded c, Unbounded) x" for x
    using that bi_cur(3) [OF assms] by (auto simp: in_bounds_def intro: above_mono less_imp_le)
  from bi_move_forward [OF assms(1) this] show ?thesis
    by (simp only: bi_next_def bi_cur(2) [OF assms] option.case)
qed

lemma bi_prev_law:
  assumes "bi_ok it" "bi_pos it = Some c"
  shows "\<exists>it'. bi_prev it = (Inr (bi_pos it' \<noteq> None), it') \<and> bi_ok it' \<and> bi_same it it' \<and>
    bi_pos it' = last_key (bi_view it) (Unbounded, Excluded c)"
proof -
  have "below (snd (bi_bounds it)) x" if "in_bounds (Unbounded, Excluded c) x" for x
    using that bi_cur(3) [OF assms] by (auto simp: in_bounds_def intro: below_mono less_imp_le)
  from bi_move_backward [OF assms(1) this] show ?thesis
    by (simp only: bi_prev_def bi_cur(2) [OF assms] option.case)
qed

lemma bi_seek_law:
  assumes "bi_ok it" "bi_fwd it k"
  shows "\<exists>it'. bi_seek it k = (Inr (bi_pos it' \<noteq> None), it') \<and> bi_ok it' \<and> bi_same it it' \<and>
    bi_pos it' = first_key (bi_view it) (Included k, Unbounded)"
proof -
  have "above (fst (bi_bounds it)) x" if "in_bounds (Included k, Unbounded) x" for x
    using that assms(2) by (auto simp: in_bounds_def bi_fwd_def intro: above_mono)
  from bi_move_forward [OF assms(1) this] show ?thesis by (simp only: bi_seek_def)
qed

lemma bi_seek_for_prev_law:
  assumes "bi_ok it" "bi_bwd it k"
  shows "\<exists>it'. bi_seek_for_prev it k = (Inr (bi_pos it' \<noteq> None), it') \<and> bi_ok it' \<and> bi_same it it' \<and>
    bi_pos it' = last_key (bi_view it) (Unbounded, Included k)"
proof -
  have "below (snd (bi_bounds it)) x" if "in_bounds (Unbounded, Included k) x" for x
    using that assms(2) by (auto simp: in_bounds_def bi_bwd_def intro: below_mono)
  from bi_move_backward [OF assms(1) this] show ?thesis by (simp only: bi_seek_for_prev_def)
qed

lemma bi_ends_law:
  assumes "bi_ok it"
  shows "\<exists>it'. bi_seek_to_first it = (Inr (bi_pos it' \<noteq> None), it') \<and> bi_ok it' \<and> bi_same it it' \<and>
      bi_pos it' = first_key (bi_view it) (Unbounded, Unbounded)"
    "\<exists>it'. bi_seek_to_last it = (Inr (bi_pos it' \<noteq> None), it') \<and> bi_ok it' \<and> bi_same it it' \<and>
      bi_pos it' = last_key (bi_view it) (Unbounded, Unbounded)"
proof -
  have bounds: "\<not> range_panics (bi_bounds it)" using assms by (simp add: bi_ok_def)
  have keep: "r = (case r of Some p \<Rightarrow> if in_bounds bs (fst p) then Some p else None | None \<Rightarrow> None)"
    if "\<And>p. r = Some p \<Longrightarrow> in_bounds bs (fst p)" for r :: "(key \<times> value_bytes) option" and bs
    using that by (cases r) auto
  show "\<exists>it'. bi_seek_to_first it = (Inr (bi_pos it' \<noteq> None), it') \<and> bi_ok it' \<and> bi_same it it' \<and>
      bi_pos it' = first_key (bi_view it) (Unbounded, Unbounded)"
    unfolding bi_seek_to_first_def bi_view_def first_key_def last_key_def whole_range
    by (rule endpoint_move [OF assms bounds _ keep]) (auto dest: range_first_in range_first_mem)
  show "\<exists>it'. bi_seek_to_last it = (Inr (bi_pos it' \<noteq> None), it') \<and> bi_ok it' \<and> bi_same it it' \<and>
      bi_pos it' = last_key (bi_view it) (Unbounded, Unbounded)"
    unfolding bi_seek_to_last_def bi_view_def first_key_def last_key_def whole_range
    by (rule endpoint_move [OF assms bounds _ keep]) (auto dest: range_last_in range_last_mem)
qed

lemma btree_ops_simps:
  "op_next btree_ops = bi_next" "op_prev btree_ops = bi_prev" "op_seek btree_ops = bi_seek"
  "op_seek_for_prev btree_ops = bi_seek_for_prev" "op_seek_to_first btree_ops = bi_seek_to_first"
  "op_seek_to_last btree_ops = bi_seek_to_last" "op_valid btree_ops it = Inr (bi_valid it)"
  "op_validate_key btree_ops it k = Inr ()" "op_key btree_ops = bi_key" "op_value btree_ops = bi_value"
  by (simp_all add: btree_ops_def)

lemma bi_read_laws:
  assumes "bi_ok it"
  shows "tree_inv (bi_view it)"
    "bi_pos it = Some c \<Longrightarrow> tree_get (bi_view it) c \<noteq> None"
    "Inr (bi_valid it) = Inr (bi_pos it \<noteq> None)"
    "bi_pos it = Some c \<Longrightarrow> bi_key it = Inr c"
    "bi_pos it = Some c \<Longrightarrow> bi_value it = Inr (the (tree_get (bi_view it) c))"
proof -
  have inv: "tree_inv (bi_tree it)" using assms by (simp add: bi_ok_def)
  then show "tree_inv (bi_view it)" by (simp add: bi_view_def tree_inv_filter)
  show "Inr (bi_valid it) = Inr (bi_pos it \<noteq> None)"
    using assms by (auto simp: bi_ok_def bi_pos_def)
  assume c: "bi_pos it = Some c"
  note cur = bi_cur [OF assms c]
  have view: "tree_get (bi_view it) c = tree_get (bi_tree it) c"
    using cur(3) by (simp add: bi_view_def tree_get_filter)
  with cur(5) show "tree_get (bi_view it) c \<noteq> None" by simp
  show "bi_key it = Inr c" using cur(1,2) by (simp add: bi_key_def)
  show "bi_value it = Inr (the (tree_get (bi_view it) c))"
    using cur(1,4,5) by (auto simp: bi_value_def view)
qed

interpretation btree_iterator: kv_iterator btree_ops bi_ok bi_view bi_pos bi_fwd bi_bwd bi_same
  by (unfold_locales; (unfold btree_ops_simps)?;
      (rule bi_read_laws bi_next_law bi_prev_law bi_seek_law bi_seek_for_prev_law bi_ends_law refl;
        assumption)?;
      (simp add: bi_same_def bi_view_def bi_fwd_def bi_bwd_def fun_eq_iff)?)

declare map_cf_tree.simps [simp del]

end
