(* ===== verification/Mvcc_Store.thy ===== *)
theory Mvcc_Store
  imports Engine
begin

text \<open>
  What the MVCC layer stores in the engine, abstractly: for a user key the map from commit
  timestamps to write records, the lock, and the values by start timestamp; the form of the
  engine that every action keeps; and the effect of each modification on these views.
\<close>

section \<open>Well formed engines and the versions of a key\<close>

text \<open>
  What the code writes: version keys in the write and default families, user keys in the lock
  family, and serialised records as values.
\<close>

definition wf_engine :: "engine \<Rightarrow> bool" where
  "wf_engine e \<longleftrightarrow>
     tree_inv (eng_default e) \<and> tree_inv (eng_lock e) \<and> tree_inv (eng_write e) \<and>
     (\<forall>k v. get_cf e CF_WRITE k = Some v \<longrightarrow>
        (\<exists>u t. k = append_ts (Key_from_raw u) t) \<and> (\<exists>w. wf_write w \<and> v = Write_to_bytes w)) \<and>
     (\<forall>k v. get_cf e CF_LOCK k = Some v \<longrightarrow>
        (\<exists>u. k = Key_from_raw u) \<and> (\<exists>l. wf_lock l \<and> v = Lock_to_bytes l)) \<and>
     (\<forall>k v. get_cf e CF_DEFAULT k = Some v \<longrightarrow> (\<exists>u t. k = append_ts (Key_from_raw u) t))"

text \<open>The records of a user key by commit timestamp, its lock, and its values by start timestamp.\<close>

definition versions :: "engine \<Rightarrow> bytes \<Rightarrow> ts \<Rightarrow> write_record option" where
  "versions e u t =
     (case get_cf e CF_WRITE (append_ts (Key_from_raw u) t) of
        None \<Rightarrow> None
      | Some v \<Rightarrow> (case Write_parse v of Inl _ \<Rightarrow> None | Inr w \<Rightarrow> Some w))"

definition lock_of :: "engine \<Rightarrow> bytes \<Rightarrow> lock option" where
  "lock_of e u =
     (case get_cf e CF_LOCK (Key_from_raw u) of
        None \<Rightarrow> None
      | Some v \<Rightarrow> (case Lock_parse v of Inl _ \<Rightarrow> None | Inr l \<Rightarrow> Some l))"

definition value_of :: "engine \<Rightarrow> bytes \<Rightarrow> ts \<Rightarrow> value_bytes option" where
  "value_of e u t = get_cf e CF_DEFAULT (append_ts (Key_from_raw u) t)"

text \<open>The greatest defined point at or below a bound.\<close>

definition latest :: "(ts \<Rightarrow> 'a option) \<Rightarrow> ts \<Rightarrow> (ts \<times> 'a) option" where
  "latest f t =
     (let S = {c. c \<le> t \<and> f c \<noteq> None} in
      if S = {} then None else Some (Max S, the (f (Max S))))"

lemma latest_None: "latest f t = None \<longleftrightarrow> (\<forall>c \<le> t. f c = None)"
  by (auto simp: latest_def Let_def)

lemma latest_Some:
  "latest f t = Some (c, w) \<longleftrightarrow>
     c \<le> t \<and> f c = Some w \<and> (\<forall>c'. c < c' \<longrightarrow> c' \<le> t \<longrightarrow> f c' = None)"
  (is "_ \<longleftrightarrow> ?R")
proof
  let ?S = "{c. c \<le> t \<and> f c \<noteq> None}"
  have fin: "finite ?S" by simp
  assume "latest f t = Some (c, w)"
  then have S: "?S \<noteq> {}" "c = Max ?S" "w = the (f c)"
    by (auto simp: latest_def Let_def split: if_splits)
  from Max_in [OF fin S(1)] have "c \<in> ?S" unfolding S(2) .
  then have "c \<le> t" "f c = Some w" using S(3) by auto
  moreover have "f c' = None" if c': "c < c'" "c' \<le> t" for c'
  proof (rule ccontr)
    assume "f c' \<noteq> None"
    with c' have "c' \<le> Max ?S" by (intro Max_ge [OF fin]) blast
    with c'(1) S(2) show False by (metis not_less)
  qed
  ultimately show ?R by blast
next
  let ?S = "{c. c \<le> t \<and> f c \<noteq> None}"
  assume R: ?R
  have "Max ?S = c"
  proof (rule Max_eqI)
    show "y \<le> c" if "y \<in> ?S" for y using R that by (metis (mono_tags) mem_Collect_eq not_less)
  qed (use R in simp_all)
  moreover have "c \<in> ?S" using R by simp
  ultimately show "latest f t = Some (c, w)" using R unfolding latest_def Let_def by auto
qed

lemma latest_eqI:
  assumes "\<And>c. c \<le> t \<Longrightarrow> f c = g c"
  shows "latest f t = latest g t"
proof (cases "latest g t")
  case None
  then have "latest f t = None" unfolding latest_None using assms by simp
  with None show ?thesis by simp
next
  case (Some p)
  obtain c w where p: "p = (c, w)" by (cases p)
  have "latest f t = Some (c, w)"
    using Some assms unfolding p latest_Some by simp
  with Some p show ?thesis by simp
qed

lemma latest_skip:
  assumes "c \<le> t" "\<And>c'. c < c' \<Longrightarrow> c' \<le> t \<Longrightarrow> f c' = None"
  shows "latest f t = latest f c"
proof (cases "latest f c")
  case None
  have "f c' = None" if "c' \<le> t" for c'
    using None assms(2) that unfolding latest_None by (cases "c' \<le> c") (simp_all add: not_le)
  then have "latest f t = None" unfolding latest_None by simp
  with None show ?thesis by simp
next
  case (Some p)
  obtain d w where p: "p = (d, w)" by (cases p)
  then have d: "d \<le> c" "f d = Some w" "\<And>c'. d < c' \<Longrightarrow> c' \<le> c \<Longrightarrow> f c' = None"
    using Some by (simp_all add: latest_Some)
  have "f c' = None" if "d < c'" "c' \<le> t" for c'
    using d(3) [OF that(1)] assms(2) [OF _ that(2)] by (cases "c' \<le> c") (simp_all add: not_le)
  with d assms(1) have "latest f t = Some (d, w)" unfolding latest_Some by (meson order_trans)
  with Some p show ?thesis by simp
qed

lemma latest_prev:
  assumes "f c = None" "ts_prev c = Some c'"
  shows "latest f c = latest f c'"
proof (rule latest_skip)
  show "c' \<le> c" using assms(2) by (simp add: ts_prev_eq word_le_nat_alt)
  show "f x = None" if "c' < x" "x \<le> c" for x
  proof -
    have "x = c" using that assms(2) by (simp add: ts_prev_eq word_le_nat_alt word_less_nat_alt word_unat_eq_iff)
    with assms(1) show ?thesis by simp
  qed
qed

lemma latest_zero: "latest f 0 = map_option (Pair 0) (f 0)"
  by (cases "f 0") (auto simp: latest_Some latest_None)

lemma wf_engine_write:
  assumes "wf_engine e" "get_cf e CF_WRITE k = Some v"
  shows "\<exists>u t w. k = append_ts (Key_from_raw u) t \<and> v = Write_to_bytes w \<and> wf_write w"
proof -
  have "\<forall>k v. get_cf e CF_WRITE k = Some v \<longrightarrow>
      (\<exists>u t. k = append_ts (Key_from_raw u) t) \<and> (\<exists>w. wf_write w \<and> v = Write_to_bytes w)"
    using assms(1) unfolding wf_engine_def by (elim conjE)
  with assms(2) show ?thesis by blast
qed

lemma wf_engine_lock:
  assumes "wf_engine e" "get_cf e CF_LOCK k = Some v"
  shows "\<exists>u l. k = Key_from_raw u \<and> v = Lock_to_bytes l \<and> wf_lock l"
proof -
  have "\<forall>k v. get_cf e CF_LOCK k = Some v \<longrightarrow>
      (\<exists>u. k = Key_from_raw u) \<and> (\<exists>l. wf_lock l \<and> v = Lock_to_bytes l)"
    using assms(1) unfolding wf_engine_def by (elim conjE)
  with assms(2) show ?thesis by blast
qed

lemma versions_cases:
  assumes "wf_engine e"
  shows "(get_cf e CF_WRITE (append_ts (Key_from_raw u) t) = None \<and> versions e u t = None) \<or>
    (\<exists>w. get_cf e CF_WRITE (append_ts (Key_from_raw u) t) = Some (Write_to_bytes w) \<and> wf_write w \<and>
      versions e u t = Some w)"
proof (cases "get_cf e CF_WRITE (append_ts (Key_from_raw u) t)")
  case (Some v)
  with wf_engine_write [OF assms Some] show ?thesis
    by (auto simp: versions_def Write_parse_to_bytes)
qed (simp add: versions_def)

lemma lock_of_cases:
  assumes "wf_engine e"
  shows "(get_cf e CF_LOCK (Key_from_raw u) = None \<and> lock_of e u = None) \<or>
    (\<exists>l. get_cf e CF_LOCK (Key_from_raw u) = Some (Lock_to_bytes l) \<and> wf_lock l \<and> lock_of e u = Some l)"
proof (cases "get_cf e CF_LOCK (Key_from_raw u)")
  case (Some v)
  with wf_engine_lock [OF assms Some] show ?thesis
    by (auto simp: lock_of_def Lock_parse_to_bytes)
qed (simp add: lock_of_def)

section \<open>The effect of modifications\<close>

named_theorems store_simps \<open>the views of the engine after a modification\<close>

lemma get_cf_insert [store_simps]:
  "get_cf (map_cf_tree (tree_insert k v) cf e) cf' k' =
     (if cf' = cf \<and> k' = k then Some v else get_cf e cf' k')"
  by (cases cf; cases cf') (simp_all add: get_cf_def map_cf_tree.simps)

lemma wf_engine_tree: "wf_engine e \<Longrightarrow> tree_inv (get_cf_tree e cf)"
  by (cases cf) (simp_all add: wf_engine_def)

lemma get_cf_remove [store_simps]:
  "wf_engine e \<Longrightarrow> get_cf (map_cf_tree (tree_remove k) cf e) cf' k' =
     (if cf' = cf \<and> k' = k then None else get_cf e cf' k')"
  using wf_engine_tree [of e cf] by (cases cf; cases cf') (simp_all add: get_cf_def map_cf_tree.simps)

lemma wf_engineI:
  assumes "\<And>cf. tree_inv (get_cf_tree e cf)"
    and "\<And>k v. get_cf e CF_WRITE k = Some v \<Longrightarrow>
      (\<exists>u t. k = append_ts (Key_from_raw u) t) \<and> (\<exists>w. wf_write w \<and> v = Write_to_bytes w)"
    and "\<And>k v. get_cf e CF_LOCK k = Some v \<Longrightarrow>
      (\<exists>u. k = Key_from_raw u) \<and> (\<exists>l. wf_lock l \<and> v = Lock_to_bytes l)"
    and "\<And>k v. get_cf e CF_DEFAULT k = Some v \<Longrightarrow> \<exists>u t. k = append_ts (Key_from_raw u) t"
  shows "wf_engine e"
  using assms(1) [of CF_DEFAULT] assms(1) [of CF_LOCK] assms(1) [of CF_WRITE] assms(2-4)
  unfolding wf_engine_def get_cf_tree.simps by blast

lemma wf_engine_default:
  assumes "wf_engine e" "get_cf e CF_DEFAULT k = Some v"
  shows "\<exists>u t. k = append_ts (Key_from_raw u) t"
  using assms unfolding wf_engine_def by blast

lemma wf_engine_new [simp]: "wf_engine engine_new"
proof (rule wf_engineI)
  show "tree_inv (get_cf_tree engine_new cf)" for cf by (cases cf) (simp_all add: engine_new_def)
qed (simp_all add: engine_new_def get_cf_def)

lemma tree_inv_map_cf:
  "wf_engine e \<Longrightarrow> (\<And>m. tree_inv m \<Longrightarrow> tree_inv (f m)) \<Longrightarrow> tree_inv (get_cf_tree (map_cf_tree f cf e) cf')"
  using wf_engine_tree [of e cf'] by (cases cf; cases cf') (simp_all add: map_cf_tree.simps)

lemma wf_engine_remove [simp]:
  assumes "wf_engine e"
  shows "wf_engine (map_cf_tree (tree_remove k) cf e)"
proof (rule wf_engineI)
  show "tree_inv (get_cf_tree (map_cf_tree (tree_remove k) cf e) cf')" for cf'
    by (rule tree_inv_map_cf [OF assms]) simp
next
  fix k' v
  assume "get_cf (map_cf_tree (tree_remove k) cf e) CF_WRITE k' = Some v"
  then have "get_cf e CF_WRITE k' = Some v" by (simp add: store_simps assms split: if_splits)
  then show "(\<exists>u t. k' = append_ts (Key_from_raw u) t) \<and> (\<exists>w. wf_write w \<and> v = Write_to_bytes w)"
    using wf_engine_write [OF assms] by blast
next
  fix k' v
  assume "get_cf (map_cf_tree (tree_remove k) cf e) CF_LOCK k' = Some v"
  then have "get_cf e CF_LOCK k' = Some v" by (simp add: store_simps assms split: if_splits)
  then show "(\<exists>u. k' = Key_from_raw u) \<and> (\<exists>l. wf_lock l \<and> v = Lock_to_bytes l)"
    using wf_engine_lock [OF assms] by blast
next
  fix k' v
  assume "get_cf (map_cf_tree (tree_remove k) cf e) CF_DEFAULT k' = Some v"
  then have "get_cf e CF_DEFAULT k' = Some v" by (simp add: store_simps assms split: if_splits)
  then show "\<exists>u t. k' = append_ts (Key_from_raw u) t" by (rule wf_engine_default [OF assms])
qed

definition fits :: "cf \<Rightarrow> key \<Rightarrow> value_bytes \<Rightarrow> bool" where
  "fits cf k v \<longleftrightarrow>
     (case cf of
        CF_WRITE \<Rightarrow> (\<exists>u t. k = append_ts (Key_from_raw u) t) \<and> (\<exists>w. wf_write w \<and> v = Write_to_bytes w)
      | CF_LOCK \<Rightarrow> (\<exists>u. k = Key_from_raw u) \<and> (\<exists>l. wf_lock l \<and> v = Lock_to_bytes l)
      | CF_DEFAULT \<Rightarrow> (\<exists>u t. k = append_ts (Key_from_raw u) t))"

lemma fitsI [simp]:
  "wf_write w \<Longrightarrow> fits CF_WRITE (append_ts (Key_from_raw u) t) (Write_to_bytes w)"
  "wf_lock l \<Longrightarrow> fits CF_LOCK (Key_from_raw u) (Lock_to_bytes l)"
  "fits CF_DEFAULT (append_ts (Key_from_raw u) t) v"
  unfolding fits_def by auto

lemma wf_engine_fits: "wf_engine e \<Longrightarrow> get_cf e cf k = Some v \<Longrightarrow> fits cf k v"
  using wf_engine_write [of e k v] wf_engine_lock [of e k v] wf_engine_default [of e k v]
  unfolding fits_def by (cases cf) (simp_all, blast+)

lemma wf_engine_insert [simp]:
  assumes "wf_engine e" "fits cf k v"
  shows "wf_engine (map_cf_tree (tree_insert k v) cf e)"
proof -
  have fit: "fits cf' k' v'" if "get_cf (map_cf_tree (tree_insert k v) cf e) cf' k' = Some v'" for cf' k' v'
    using that assms(2) wf_engine_fits [OF assms(1)] by (auto simp: store_simps split: if_splits)
  show ?thesis
  proof (rule wf_engineI)
    show "tree_inv (get_cf_tree (map_cf_tree (tree_insert k v) cf e) cf')" for cf'
      by (rule tree_inv_map_cf [OF assms(1)]) simp
  qed (use fit [of CF_WRITE] fit [of CF_LOCK] fit [of CF_DEFAULT] in \<open>auto simp: fits_def\<close>)
qed

lemma versions_insert_write [store_simps]:
  "wf_write w \<Longrightarrow>
   versions (map_cf_tree (tree_insert (append_ts (Key_from_raw u) t) (Write_to_bytes w)) CF_WRITE e) u' t' =
     (if u' = u \<and> t' = t then Some w else versions e u' t')"
  by (simp add: versions_def get_cf_insert Write_parse_to_bytes)

lemma versions_remove_write [store_simps]:
  "wf_engine e \<Longrightarrow>
   versions (map_cf_tree (tree_remove (append_ts (Key_from_raw u) t)) CF_WRITE e) u' t' =
     (if u' = u \<and> t' = t then None else versions e u' t')"
  by (simp add: versions_def get_cf_remove)

lemma lock_of_insert [store_simps]:
  "wf_lock l \<Longrightarrow>
   lock_of (map_cf_tree (tree_insert (Key_from_raw u) (Lock_to_bytes l)) CF_LOCK e) u' =
     (if u' = u then Some l else lock_of e u')"
  by (simp add: lock_of_def get_cf_insert Lock_parse_to_bytes)

lemma lock_of_remove [store_simps]:
  "wf_engine e \<Longrightarrow>
   lock_of (map_cf_tree (tree_remove (Key_from_raw u)) CF_LOCK e) u' = (if u' = u then None else lock_of e u')"
  by (simp add: lock_of_def get_cf_remove)

lemma value_of_insert [store_simps]:
  "value_of (map_cf_tree (tree_insert (append_ts (Key_from_raw u) t) v) CF_DEFAULT e) u' t' =
     (if u' = u \<and> t' = t then Some v else value_of e u' t')"
  by (simp add: value_of_def get_cf_insert)

lemma value_of_remove [store_simps]:
  "wf_engine e \<Longrightarrow>
   value_of (map_cf_tree (tree_remove (append_ts (Key_from_raw u) t)) CF_DEFAULT e) u' t' =
     (if u' = u \<and> t' = t then None else value_of e u' t')"
  by (simp add: value_of_def get_cf_remove)

lemma get_cf_other [simp]:
  "cf \<noteq> cf' \<Longrightarrow> get_cf (map_cf_tree f cf e) cf' k = get_cf e cf' k"
  by (cases cf; cases cf') (simp_all add: get_cf_def map_cf_tree.simps)

lemma views_other [store_simps]:
  "cf \<noteq> CF_WRITE \<Longrightarrow> versions (map_cf_tree f cf e) = versions e"
  "cf \<noteq> CF_LOCK \<Longrightarrow> lock_of (map_cf_tree f cf e) = lock_of e"
  "cf \<noteq> CF_DEFAULT \<Longrightarrow> value_of (map_cf_tree f cf e) = value_of e"
  by (intro ext; simp add: versions_def lock_of_def value_of_def)+

lemma versions_new [simp]: "versions engine_new u t = None"
  by (simp add: versions_def engine_new_def get_cf_def)

lemma lock_of_new [simp]: "lock_of engine_new u = None"
  by (simp add: lock_of_def engine_new_def get_cf_def)

lemma value_of_new [simp]: "value_of engine_new u t = None"
  by (simp add: value_of_def engine_new_def get_cf_def)

end
