(* ===== verification/Txn_Ext.thy ===== *)
theory Txn_Ext
  imports Engine
begin

text \<open>
  The in memory pessimistic lock table of a region peer,
  \<^verbatim>\<open>components/raftstore/src/store/txn_ext.rs\<close>: inserting under the two memory limits, removing,
  scanning a range, and handing the locks over to the new regions of a split.  The lock around
  the table is not modelled; the process wide gauge \<^verbatim>\<open>INSTANCE_MEM_SIZE\<close> is an argument and a
  result.  The lemmas show that the recorded memory size is the size of the table after every
  operation, that a scan returns the matching locks of the range up to its limit, and that a
  split moves every lock to the region that holds its key.
\<close>

section \<open>The table\<close>

datatype locks_status = Normal | TransferringLeader | MergingRegion | NotLeader | IsInFlashback

record peer_pessimistic_locks =
  pp_map :: "(key, pessimistic_lock \<times> bool) tree"
  pp_status :: locks_status
  pp_term :: u64
  pp_version :: u64
  pp_memory_size :: u64

definition PeerPessimisticLocks_default :: peer_pessimistic_locks where
  "PeerPessimisticLocks_default =
     \<lparr> pp_map = [], pp_status = Normal, pp_term = 0, pp_version = 0, pp_memory_size = 0 \<rparr>"

text \<open>\<^verbatim>\<open>size_of::<PessimisticLock>()\<close> on the 64 bit targets (the source's tests fix the sum).\<close>

definition SIZE_OF_PESSIMISTIC_LOCK :: u64 where
  "SIZE_OF_PESSIMISTIC_LOCK = 80"

definition pl_memory_size :: "pessimistic_lock \<Rightarrow> u64" where
  "pl_memory_size l = of_nat (length (pl_primary l)) + SIZE_OF_PESSIMISTIC_LOCK"

definition insert_incr ::
    "(key, pessimistic_lock \<times> bool) tree \<Rightarrow> (key \<times> pessimistic_lock) list \<Rightarrow> u64" where
  "insert_incr m pairs =
     foldl (\<lambda>incr (k, l).
         if tree_get m k = None then incr + (of_nat (length k) + pl_memory_size l) else incr)
       0 pairs"

text \<open>\<open>None\<close> is \<^verbatim>\<open>Err(pairs)\<close>; the table and the gauge are then unchanged.\<close>

definition pp_insert ::
    "(key \<times> pessimistic_lock) list \<Rightarrow> u64 \<Rightarrow> u64 \<Rightarrow> peer_pessimistic_locks \<times> u64 \<Rightarrow>
      (peer_pessimistic_locks \<times> u64) option" where
  "pp_insert pairs peer_mem_size_limit instance_mem_size_limit st =
     (case st of (t, instance_mem_size) \<Rightarrow>
      let incr = insert_incr (pp_map t) pairs in
      if peer_mem_size_limit < pp_memory_size t + incr \<or>
        instance_mem_size_limit < instance_mem_size + incr
      then None
      else
        Some (t\<lparr>pp_map := foldl (\<lambda>m (k, l). tree_insert k (l, False) m) (pp_map t) pairs,
              pp_memory_size := pp_memory_size t + incr\<rparr>,
          instance_mem_size + incr))"

definition pp_remove :: "key \<Rightarrow> peer_pessimistic_locks \<times> u64 \<Rightarrow> peer_pessimistic_locks \<times> u64" where
  "pp_remove k st =
     (case st of (t, instance_mem_size) \<Rightarrow>
      case tree_get (pp_map t) k of
        None \<Rightarrow> (t, instance_mem_size)
      | Some (l, _) \<Rightarrow>
          let desc = of_nat (length k) + pl_memory_size l in
          (t\<lparr>pp_map := tree_remove k (pp_map t), pp_memory_size := pp_memory_size t - desc\<rparr>,
           instance_mem_size - desc))"

definition pp_clear :: "peer_pessimistic_locks \<times> u64 \<Rightarrow> peer_pessimistic_locks \<times> u64" where
  "pp_clear st =
     (case st of (t, instance_mem_size) \<Rightarrow>
      (t\<lparr>pp_map := [], pp_memory_size := 0\<rparr>, instance_mem_size - pp_memory_size t))"

definition pp_is_writable :: "peer_pessimistic_locks \<Rightarrow> bool" where
  "pp_is_writable t \<longleftrightarrow> pp_status t = Normal"

definition pp_get :: "peer_pessimistic_locks \<Rightarrow> key \<Rightarrow> (pessimistic_lock \<times> bool) option" where
  "pp_get t k = tree_get (pp_map t) k"

section \<open>Scanning\<close>

definition key_range :: "key option \<Rightarrow> key option \<Rightarrow> key bound \<times> key bound" where
  "key_range start end =
     ((case start of None \<Rightarrow> Unbounded | Some k \<Rightarrow> Included k),
      (case end of None \<Rightarrow> Unbounded | Some k \<Rightarrow> Excluded k))"

fun pp_scan_loop ::
    "(key \<Rightarrow> pessimistic_lock \<Rightarrow> bool) \<Rightarrow> nat \<Rightarrow> (key, pessimistic_lock \<times> bool) tree \<Rightarrow>
      (key \<times> lock) list \<Rightarrow> (key \<times> lock) list \<times> bool" where
  "pp_scan_loop f limit [] locks = (locks, False)"
| "pp_scan_loop f limit ((k, l, d) # it) locks =
     (let locks' = (if f k l then locks @ [(k, PessimisticLock_to_lock l)] else locks) in
      if 0 < limit \<and> limit \<le> length locks' then (locks', it \<noteq> [])
      else pp_scan_loop f limit it locks')"

text \<open>\<open>None\<close> is the failed assertion on the two ends.\<close>

definition pp_scan_locks ::
    "peer_pessimistic_locks \<Rightarrow> key option \<Rightarrow> key option \<Rightarrow> (key \<Rightarrow> pessimistic_lock \<Rightarrow> bool) \<Rightarrow> nat \<Rightarrow>
      ((key \<times> lock) list \<times> bool) option" where
  "pp_scan_locks t start end f limit =
     (if (case (start, end) of (Some s, Some e) \<Rightarrow> e < s | _ \<Rightarrow> False) then None
      else
        Some (pp_scan_loop f limit
          (filter (\<lambda>p. in_bounds (key_range start end) (fst p)) (pp_map t)) []))"

section \<open>Splitting a region\<close>

text \<open>The start and end key of a region; an empty end key is unbounded.\<close>

record region =
  region_start :: bytes
  region_end :: bytes

definition region_contains :: "region \<Rightarrow> bytes \<Rightarrow> bool" where
  "region_contains r k \<longleftrightarrow> region_start r \<le> k \<and> (region_end r = [] \<or> k < region_end r)"

text \<open>
  \<^verbatim>\<open>binary_search_by_key\<close> with \<^verbatim>\<open>unwrap_or_else(|idx| idx - 1)\<close> on sorted start keys: the position
  of the key, or one less than the number of smaller start keys.  \<open>None\<close> is the subtraction
  below zero, whose wrapped index panics.
\<close>

definition region_index :: "region list \<Rightarrow> bytes \<Rightarrow> nat option" where
  "region_index regions k =
     (let n = length (takeWhile (\<lambda>r. region_start r < k) regions) in
      if n < length regions \<and> region_start (regions ! n) = k then Some n
      else if n = 0 then None
      else Some (n - 1))"

text \<open>One iteration of the loop over the removed locks: the table that is split and the new tables.\<close>

fun move_lock ::
    "region list \<Rightarrow> key \<times> pessimistic_lock \<times> bool \<Rightarrow>
      peer_pessimistic_locks \<times> peer_pessimistic_locks list \<Rightarrow>
      (peer_pessimistic_locks \<times> peer_pessimistic_locks list) option" where
  "move_lock regions (k, l, d) (t, res) =
     (case region_index regions k of
        None \<Rightarrow> None
      | Some idx \<Rightarrow>
          let sz = of_nat (length k) + pl_memory_size l; r = res ! idx in
          Some (t\<lparr>pp_memory_size := pp_memory_size t - sz\<rparr>,
            res[idx := r\<lparr>pp_map := tree_insert k (l, False) (pp_map r),
                         pp_memory_size := pp_memory_size r + sz\<rparr>]))"

fun move_locks ::
    "region list \<Rightarrow> (key, pessimistic_lock \<times> bool) tree \<Rightarrow>
      peer_pessimistic_locks \<times> peer_pessimistic_locks list \<Rightarrow>
      (peer_pessimistic_locks \<times> peer_pessimistic_locks list) option" where
  "move_locks regions [] st = Some st"
| "move_locks regions (p # removed) st =
     Option.bind (move_lock regions p st) (move_locks regions removed)"

definition group_by_regions ::
    "region list \<Rightarrow> region \<Rightarrow> peer_pessimistic_locks \<Rightarrow>
      (peer_pessimistic_locks \<times> peer_pessimistic_locks list) option" where
  "group_by_regions regions derived t =
     (let outside = (\<lambda>k. k < region_start derived \<or> region_end derived \<noteq> [] \<and> region_end derived \<le> k);
          removed = filter (\<lambda>p. outside (fst p)) (pp_map t);
          kept = filter (\<lambda>p. \<not> outside (fst p)) (pp_map t)
      in move_locks regions removed
           (t\<lparr>pp_map := kept\<rparr>, map (\<lambda>_. PeerPessimisticLocks_default) regions))"

section \<open>The recorded memory size\<close>

definition entry_size :: "key \<times> pessimistic_lock \<times> bool \<Rightarrow> u64" where
  "entry_size p = of_nat (length (fst p)) + pl_memory_size (fst (snd p))"

abbreviation tree_size :: "(key, pessimistic_lock \<times> bool) tree \<Rightarrow> u64" where
  "tree_size \<equiv> tree_weight entry_size"

definition pp_inv :: "peer_pessimistic_locks \<Rightarrow> bool" where
  "pp_inv t \<longleftrightarrow> tree_inv (pp_map t) \<and> pp_memory_size t = tree_size (pp_map t)"

lemma foldl_if_add:
  fixes f :: "'a \<Rightarrow> 'b::comm_monoid_add"
  shows "foldl (\<lambda>s x. if P x then s + f x else s) z xs =
    z + sum_list (map (\<lambda>x. if P x then f x else 0) xs)"
  by (induction xs arbitrary: z) (simp_all add: add.assoc)

lemma insert_incr_eq:
  "insert_incr m pairs =
     sum_list (map (\<lambda>p. if tree_get m (fst p) = None then entry_size (fst p, snd p, False) else 0) pairs)"
  using foldl_if_add [of "\<lambda>p. tree_get m (fst p) = None" "\<lambda>p. entry_size (fst p, snd p, False)" 0 pairs]
  unfolding insert_incr_def entry_size_def fst_conv snd_conv by (simp add: case_prod_beta')

lemma insert_incr_Cons:
  "insert_incr m ((k, l) # pairs) =
     (if tree_get m k = None then entry_size (k, l, False) else 0) + insert_incr m pairs"
  by (simp add: insert_incr_eq)

lemma insert_incr_cong:
  "(\<And>p. p \<in> set pairs \<Longrightarrow> tree_get m' (fst p) = tree_get m (fst p)) \<Longrightarrow>
   insert_incr m' pairs = insert_incr m pairs"
  unfolding insert_incr_eq by (rule arg_cong [where f = sum_list]) simp

text \<open>An overwrite keeps the length of the primary key.\<close>

definition overwrites_fit ::
    "(key, pessimistic_lock \<times> bool) tree \<Rightarrow> (key \<times> pessimistic_lock) list \<Rightarrow> bool" where
  "overwrites_fit m pairs \<longleftrightarrow>
     (\<forall>p \<in> set pairs. case tree_get m (fst p) of None \<Rightarrow> True
        | Some v \<Rightarrow> length (pl_primary (fst v)) = length (pl_primary (snd p)))"

lemma overwrites_fit_cong:
  "(\<And>p. p \<in> set pairs \<Longrightarrow> tree_get m' (fst p) = tree_get m (fst p)) \<Longrightarrow>
   overwrites_fit m' pairs = overwrites_fit m pairs"
  unfolding overwrites_fit_def by (rule ball_cong) simp_all

lemma tree_size_insert_pairs:
  "tree_inv m \<Longrightarrow> distinct (map fst pairs) \<Longrightarrow> overwrites_fit m pairs \<Longrightarrow>
   tree_inv (foldl (\<lambda>m (k, l). tree_insert k (l, False) m) m pairs) \<and>
   tree_size (foldl (\<lambda>m (k, l). tree_insert k (l, False) m) m pairs) = tree_size m + insert_incr m pairs"
proof (induction pairs arbitrary: m)
  case (Cons p pairs)
  obtain k l where p: "p = (k, l)" by (cases p)
  let ?m = "tree_insert k (l, False) m"
  have other: "fst q \<noteq> k" if "q \<in> set pairs" for q
    using Cons.prems(2) p that by (metis distinct.simps(2) fst_conv imageI list.map(2) list.set_map)
  then have get: "tree_get ?m (fst q) = tree_get m (fst q)" if "q \<in> set pairs" for q
    using that by simp
  have "overwrites_fit ?m pairs"
    using Cons.prems(3) overwrites_fit_cong [OF get] by (simp add: overwrites_fit_def)
  then have IH: "tree_inv (foldl (\<lambda>m (k, l). tree_insert k (l, False) m) ?m pairs) \<and>
      tree_size (foldl (\<lambda>m (k, l). tree_insert k (l, False) m) ?m pairs) = tree_size ?m + insert_incr ?m pairs"
    using Cons.prems(1,2) by (intro Cons.IH) simp_all
  have sz: "tree_size ?m = (if tree_get m k = None then entry_size (k, l, False) else 0) + tree_size m"
  proof (cases "tree_get m k")
    case None
    then show ?thesis by (simp add: tree_weight_insert_new)
  next
    case (Some v)
    with Cons.prems(3) p have "length (pl_primary (fst v)) = length (pl_primary l)"
      by (simp add: overwrites_fit_def)
    then have "entry_size (k, l, False) = entry_size (k, v)"
      by (simp add: entry_size_def pl_memory_size_def)
    with Some show ?thesis by (simp add: tree_weight_insert_old [OF Cons.prems(1) Some])
  qed
  show ?case
    using IH insert_incr_cong [OF get] by (simp add: p sz insert_incr_Cons ac_simps)
qed (simp add: insert_incr_eq)

lemma pp_insert_inv:
  assumes "pp_inv t" "distinct (map fst pairs)" "overwrites_fit (pp_map t) pairs"
    and "pp_insert pairs a b (t, inst) = Some (t', inst')"
  shows "pp_inv t' \<and> inst' - inst = pp_memory_size t' - pp_memory_size t"
  using assms tree_size_insert_pairs [of "pp_map t" pairs]
  by (auto simp: pp_insert_def pp_inv_def Let_def split: if_splits)

lemma pp_remove_inv:
  assumes "pp_inv t" "pp_remove k (t, inst) = (t', inst')"
  shows "pp_inv t' \<and> inst' - inst = pp_memory_size t' - pp_memory_size t"
proof (cases "tree_get (pp_map t) k")
  case (Some v)
  with assms show ?thesis
    by (cases v) (auto simp: pp_remove_def pp_inv_def Let_def tree_weight_remove entry_size_def)
qed (use assms in \<open>auto simp: pp_remove_def\<close>)

section \<open>What a scan returns\<close>

text \<open>The matching locks of a range, in key order.\<close>

definition pp_matches ::
    "peer_pessimistic_locks \<Rightarrow> key option \<Rightarrow> key option \<Rightarrow> (key \<Rightarrow> pessimistic_lock \<Rightarrow> bool) \<Rightarrow> (key \<times> lock) list" where
  "pp_matches t start end f =
     map (\<lambda>p. (fst p, PessimisticLock_to_lock (fst (snd p))))
       (filter (\<lambda>p. in_bounds (key_range start end) (fst p) \<and> f (fst p) (fst (snd p))) (pp_map t))"

lemma pp_scan_loop_eq:
  assumes "0 < limit \<Longrightarrow> length locks < limit"
    and "ms = map (\<lambda>p. (fst p, PessimisticLock_to_lock (fst (snd p)))) (filter (\<lambda>p. f (fst p) (fst (snd p))) it)"
  shows "fst (pp_scan_loop f limit it locks) =
      (if limit = 0 then locks @ ms else take limit (locks @ ms)) \<and>
    (\<not> snd (pp_scan_loop f limit it locks) \<longrightarrow> fst (pp_scan_loop f limit it locks) = locks @ ms)"
  using assms
proof (induction f limit it locks arbitrary: ms rule: pp_scan_loop.induct)
  case (2 f limit k l d it locks)
  define locks' where "locks' = (if f k l then locks @ [(k, PessimisticLock_to_lock l)] else locks)"
  define ms' where "ms' = map (\<lambda>p. (fst p, PessimisticLock_to_lock (fst (snd p))))
    (filter (\<lambda>p. f (fst p) (fst (snd p))) it)"
  have all: "locks @ ms = locks' @ ms'" using "2.prems"(2) by (simp add: locks'_def ms'_def)
  show ?case
  proof (cases "0 < limit \<and> limit \<le> length locks'")
    case True
    then have "limit = length locks'" using "2.prems"(1) by (auto simp: locks'_def split: if_splits)
    with True all show ?thesis by (auto simp: locks'_def [symmetric] ms'_def)
  next
    case False
    then have step: "pp_scan_loop f limit ((k, l, d) # it) locks = pp_scan_loop f limit it locks'"
      by (auto simp: locks'_def Let_def)
    have "0 < limit \<Longrightarrow> length locks' < limit" using False by auto
    then show ?thesis unfolding step all by (rule "2.IH" [OF locks'_def False _ ms'_def])
  qed
qed auto

lemma pp_scan_locks_eq:
  assumes "pp_scan_locks t start end f limit = Some (locks, has_remain)"
  shows "locks = (if limit = 0 then id else take limit) (pp_matches t start end f) \<and>
    (\<not> has_remain \<longrightarrow> locks = pp_matches t start end f)"
proof -
  have "(locks, has_remain) = pp_scan_loop f limit
      (filter (\<lambda>p. in_bounds (key_range start end) (fst p)) (pp_map t)) []"
    using assms by (simp add: pp_scan_locks_def split: if_splits)
  with pp_scan_loop_eq [of limit "[]" "pp_matches t start end f" f
      "filter (\<lambda>p. in_bounds (key_range start end) (fst p)) (pp_map t)"]
  show ?thesis by (auto simp: pp_matches_def conj_commute dest: sym split: if_splits)
qed

section \<open>Where a split moves the locks\<close>

text \<open>Regions sorted by key that touch each other.\<close>

definition regions_ok :: "region list \<Rightarrow> bool" where
  "regions_ok regions \<longleftrightarrow>
     (\<forall>i j. i < j \<longrightarrow> j < length regions \<longrightarrow> region_start (regions ! i) < region_start (regions ! j)) \<and>
     (\<forall>i. Suc i < length regions \<longrightarrow> region_end (regions ! i) = region_start (regions ! Suc i))"

lemma region_index_contains:
  assumes ok: "regions_ok regions" and i: "i < length regions" and k: "region_contains (regions ! i) k"
  shows "region_index regions k = Some i"
proof -
  have le: "region_start (regions ! i) \<le> k" using k by (simp add: region_contains_def)
  have before: "region_start (regions ! j) < k" if "j < i" for j
    using ok i that le by (auto simp: regions_ok_def intro: less_le_trans)
  have after: "k < region_start (regions ! Suc i)" if "Suc i < length regions"
  proof -
    have "region_start (regions ! i) < region_start (regions ! Suc i)"
      "region_end (regions ! i) = region_start (regions ! Suc i)"
      using ok that by (auto simp: regions_ok_def)
    moreover from this have "region_end (regions ! i) \<noteq> []" by auto
    ultimately show ?thesis using k by (simp add: region_contains_def)
  qed
  show ?thesis
  proof (cases "region_start (regions ! i) = k")
    case True
    have "takeWhile (\<lambda>r. region_start r < k) regions = take i regions"
      by (rule takeWhile_eq_take_P_nth) (use before True in auto)
    with True i show ?thesis by (simp add: region_index_def)
  next
    case False
    then have "takeWhile (\<lambda>r. region_start r < k) regions = take (Suc i) regions"
      using le before after by (intro takeWhile_eq_take_P_nth) (auto simp: less_Suc_eq)
    moreover have "region_start (regions ! Suc i) \<noteq> k" if "Suc i < length regions"
      using after [OF that] by auto
    ultimately show ?thesis using i by (auto simp: region_index_def min_def)
  qed
qed

lemma region_index_less:
  assumes "regions_ok regions" "\<exists>i < length regions. region_contains (regions ! i) k"
  shows "\<exists>i < length regions. region_index regions k = Some i"
  using assms region_index_contains by blast

lemma pp_insert_one_inv:
  assumes "pp_inv r" "pp_get r k = None"
  shows "pp_inv (r\<lparr>pp_map := tree_insert k (l, False) (pp_map r),
    pp_memory_size := pp_memory_size r + (of_nat (length k) + pl_memory_size l)\<rparr>)"
  using assms by (simp add: pp_inv_def pp_get_def tree_weight_insert_new entry_size_def)

lemma move_locks_spec:
  assumes "\<And>p. p \<in> set removed \<Longrightarrow> \<exists>i < length regions. region_index regions (fst p) = Some i"
    and "distinct (map fst removed)" "length res = length regions"
    and "\<And>i. i < length regions \<Longrightarrow> pp_inv (res ! i)"
    and "\<And>i p. i < length regions \<Longrightarrow> p \<in> set removed \<Longrightarrow> pp_get (res ! i) (fst p) = None"
  shows "\<exists>t' res'. move_locks regions removed (t, res) = Some (t', res') \<and> pp_map t' = pp_map t \<and>
    pp_memory_size t' = pp_memory_size t - tree_size removed \<and> length res' = length regions \<and>
    (\<forall>i < length regions. pp_inv (res' ! i) \<and>
      (\<forall>k. pp_get (res' ! i) k =
        (case tree_get removed k of
           Some v \<Rightarrow> if region_index regions k = Some i then Some (fst v, False) else pp_get (res ! i) k
         | None \<Rightarrow> pp_get (res ! i) k)))"
  using assms
proof (induction removed arbitrary: t res)
  case (Cons p removed)
  obtain k l d where p: "p = (k, l, d)" by (cases p)
  obtain i where i: "i < length regions" "region_index regions k = Some i"
    using Cons.prems(1) [of p] p by auto
  let ?sz = "of_nat (length k) + pl_memory_size l :: u64"
  define r where "r = (res ! i)\<lparr>pp_map := tree_insert k (l, False) (pp_map (res ! i)),
    pp_memory_size := pp_memory_size (res ! i) + ?sz\<rparr>"
  let ?t = "t\<lparr>pp_memory_size := pp_memory_size t - ?sz\<rparr>" and ?res = "res[i := r]"
  have step: "move_locks regions (p # removed) (t, res) = move_locks regions removed (?t, ?res)"
    by (simp add: p i Let_def r_def)
  have none: "pp_get (res ! i) k = None" using Cons.prems(5) [OF i(1), of p] p by simp
  have r: "pp_inv r" "\<And>k'. pp_get r k' = (if k' = k then Some (l, False) else pp_get (res ! i) k')"
    using pp_insert_one_inv [OF Cons.prems(4) [OF i(1)] none] by (simp_all add: r_def pp_get_def)
  have ne: "fst q \<noteq> k" if "q \<in> set removed" for q
    using Cons.prems(2) p that by (metis distinct.simps(2) fst_conv imageI list.map(2) list.set_map)
  have fresh: "tree_get removed k = None" unfolding tree_get_None using ne by (metis fst_conv)
  have nth: "?res ! j = (if j = i then r else res ! j)" for j
    using i(1) Cons.prems(3) by (simp add: nth_list_update)
  have "\<exists>t' res'. move_locks regions removed (?t, ?res) = Some (t', res') \<and> pp_map t' = pp_map ?t \<and>
    pp_memory_size t' = pp_memory_size ?t - tree_size removed \<and> length res' = length regions \<and>
    (\<forall>j < length regions. pp_inv (res' ! j) \<and>
      (\<forall>k'. pp_get (res' ! j) k' =
        (case tree_get removed k' of
           Some v \<Rightarrow> if region_index regions k' = Some j then Some (fst v, False) else pp_get (?res ! j) k'
         | None \<Rightarrow> pp_get (?res ! j) k')))"
  proof (rule Cons.IH)
    show "pp_get (?res ! j) (fst q) = None" if "j < length regions" "q \<in> set removed" for j q
      using Cons.prems(5) [OF that(1), of q] that(2) ne [OF that(2)] by (auto simp: nth r(2))
  qed (use Cons.prems r(1) in \<open>simp_all add: nth\<close>)
  then obtain t' res' where t': "move_locks regions removed (?t, ?res) = Some (t', res')"
    "pp_map t' = pp_map ?t" "pp_memory_size t' = pp_memory_size ?t - tree_size removed"
    "length res' = length regions"
    and all: "\<And>j k'. j < length regions \<Longrightarrow> pp_inv (res' ! j) \<and> pp_get (res' ! j) k' =
        (case tree_get removed k' of
           Some v \<Rightarrow> if region_index regions k' = Some j then Some (fst v, False) else pp_get (?res ! j) k'
         | None \<Rightarrow> pp_get (?res ! j) k')"
    by blast
  have get: "pp_get (res' ! j) k' =
      (case tree_get (p # removed) k' of
         Some v \<Rightarrow> if region_index regions k' = Some j then Some (fst v, False) else pp_get (res ! j) k'
       | None \<Rightarrow> pp_get (res ! j) k')" if "j < length regions" for j k'
    using all [OF that, of k'] i(2) fresh
    by (cases "k' = k") (auto simp: p tree_get_Cons nth r(2) split: option.splits)
  have "pp_memory_size t' = pp_memory_size t - tree_size (p # removed)"
    using t'(3) by (simp add: p entry_size_def diff_diff_eq)
  with t' all get show ?case
    unfolding step by (intro exI [of _ t'] exI [of _ res']) simp
qed simp

lemma group_by_regions_spec:
  assumes inv: "pp_inv t" and ok: "regions_ok regions"
    and d: "d < length regions" "derived = regions ! d"
    and cover: "\<And>k. pp_get t k \<noteq> None \<Longrightarrow> \<exists>i < length regions. region_contains (regions ! i) k"
  shows "\<exists>t' res. group_by_regions regions derived t = Some (t', res) \<and> pp_inv t' \<and>
    length res = length regions \<and>
    (\<forall>k. pp_get t' k = (if region_contains derived k then pp_get t k else None)) \<and>
    (\<forall>i < length regions. pp_inv (res ! i) \<and>
      (\<forall>k. pp_get (res ! i) k =
        (if i \<noteq> d \<and> region_contains (regions ! i) k then map_option (\<lambda>v. (fst v, False)) (pp_get t k)
         else None)))"
proof -
  define kept where "kept = filter (\<lambda>p. region_contains derived (fst p)) (pp_map t)"
  define removed where "removed = filter (\<lambda>p. \<not> region_contains derived (fst p)) (pp_map t)"
  have outside: "(k < region_start derived \<or> region_end derived \<noteq> [] \<and> region_end derived \<le> k) \<longleftrightarrow>
      \<not> region_contains derived k" for k
    by (auto simp: region_contains_def)
  let ?res = "map (\<lambda>_. PeerPessimisticLocks_default) regions"
  have group: "group_by_regions regions derived t = move_locks regions removed (t\<lparr>pp_map := kept\<rparr>, ?res)"
    unfolding group_by_regions_def Let_def outside by (simp add: kept_def removed_def)
  have tree: "tree_inv (pp_map t)" "pp_memory_size t = tree_size (pp_map t)"
    using inv by (simp_all add: pp_inv_def)
  have get: "tree_get removed k = (if region_contains derived k then None else pp_get t k)"
    "tree_get kept k = (if region_contains derived k then pp_get t k else None)" for k
    using tree_get_filter [where P = "\<lambda>k. \<not> region_contains derived k" and m = "pp_map t" and k = k]
      tree_get_filter [where P = "region_contains derived" and m = "pp_map t" and k = k]
    by (simp_all add: removed_def kept_def pp_get_def)
  have rem: "tree_inv removed" using tree(1) by (simp add: removed_def)
  have "\<exists>t' res'. move_locks regions removed (t\<lparr>pp_map := kept\<rparr>, ?res) = Some (t', res') \<and>
    pp_map t' = pp_map (t\<lparr>pp_map := kept\<rparr>) \<and>
    pp_memory_size t' = pp_memory_size (t\<lparr>pp_map := kept\<rparr>) - tree_size removed \<and>
    length res' = length regions \<and>
    (\<forall>i < length regions. pp_inv (res' ! i) \<and>
      (\<forall>k. pp_get (res' ! i) k =
        (case tree_get removed k of
           Some v \<Rightarrow> if region_index regions k = Some i then Some (fst v, False) else pp_get (?res ! i) k
         | None \<Rightarrow> pp_get (?res ! i) k)))"
  proof (rule move_locks_spec)
    show "\<exists>i < length regions. region_index regions (fst p) = Some i" if "p \<in> set removed" for p
    proof (rule region_index_less [OF ok cover])
      have "tree_get removed (fst p) = Some (snd p)"
        using that rem by (simp add: tree_get_Some)
      then show "pp_get t (fst p) \<noteq> None" by (auto simp: get split: if_splits)
    qed
    show "distinct (map fst removed)"
      using rem by (simp add: tree_inv_def strict_sorted_iff)
  qed (simp_all add: PeerPessimisticLocks_default_def pp_inv_def pp_get_def)
  then obtain t' res where t0: "move_locks regions removed (t\<lparr>pp_map := kept\<rparr>, ?res) = Some (t', res)"
    "pp_map t' = pp_map (t\<lparr>pp_map := kept\<rparr>)"
    "pp_memory_size t' = pp_memory_size (t\<lparr>pp_map := kept\<rparr>) - tree_size removed"
    "length res = length regions"
    and all0: "\<And>i k. i < length regions \<Longrightarrow> pp_inv (res ! i) \<and> pp_get (res ! i) k =
        (case tree_get removed k of
           Some v \<Rightarrow> if region_index regions k = Some i then Some (fst v, False) else pp_get (?res ! i) k
         | None \<Rightarrow> pp_get (?res ! i) k)"
    by blast
  have t': "move_locks regions removed (t\<lparr>pp_map := kept\<rparr>, ?res) = Some (t', res)" "pp_map t' = kept"
    "pp_memory_size t' = tree_size (pp_map t) - tree_size removed" "length res = length regions"
    using t0 tree(2) by simp_all
  have empty: "pp_get (?res ! i) k = None" if "i < length regions" for i k
    using that by (simp add: PeerPessimisticLocks_default_def pp_get_def)
  have all: "pp_inv (res ! i) \<and> pp_get (res ! i) k =
      (case tree_get removed k of
         Some v \<Rightarrow> if region_index regions k = Some i then Some (fst v, False) else None
       | None \<Rightarrow> None)" if "i < length regions" for i k
    using all0 [OF that, of k] unfolding empty [OF that] .
  have "tree_size (pp_map t) - tree_size removed = tree_size kept"
    using tree_weight_filter [of entry_size "\<lambda>p. region_contains derived (fst p)" "pp_map t"]
    by (simp add: kept_def removed_def diff_eq_eq)
  then have "pp_inv t'" using t' tree(1) by (simp add: pp_inv_def kept_def)
  moreover have "pp_get t' k = (if region_contains derived k then pp_get t k else None)" for k
    using t'(2) get by (simp add: pp_get_def)
  moreover have "pp_get (res ! i) k =
      (if i \<noteq> d \<and> region_contains (regions ! i) k then map_option (\<lambda>v. (fst v, False)) (pp_get t k)
       else None)" if i: "i < length regions" for i k
  proof (cases "pp_get t k")
    case None
    with all [OF i, of k] get show ?thesis by (simp split: if_splits)
  next
    case (Some v)
    then obtain j where j: "j < length regions" "region_contains (regions ! j) k" using cover by blast
    have index: "region_contains (regions ! i') k \<longleftrightarrow> i' = j" if "i' < length regions" for i'
      using region_index_contains [OF ok j] region_index_contains [OF ok that] j(2) by auto
    show ?thesis
      using all [OF i, of k] get Some region_index_contains [OF ok j] index [OF i] index [OF d(1)] d(2)
      by auto
  qed
  ultimately show ?thesis using t'(1,4) all unfolding group by blast
qed

section \<open>Properties of the lock table\<close>

text \<open>C37: The memory size that the table records is the size of its entries after every insertion,
  removal and clearing, and the process wide gauge moves by the same amount (the locks of one
  insertion have different keys, and a lock that is overwritten keeps the length of its primary
  key).\<close>

theorem pessimistic_locks_memory_exact:
  assumes "pp_inv t"
  shows "(distinct (map fst pairs) \<longrightarrow> overwrites_fit (pp_map t) pairs \<longrightarrow>
      pp_insert pairs a b (t, inst) = Some (t1, inst1) \<longrightarrow>
      pp_inv t1 \<and> inst1 - inst = pp_memory_size t1 - pp_memory_size t) \<and>
    (pp_remove k (t, inst) = (t2, inst2) \<longrightarrow>
      pp_inv t2 \<and> inst2 - inst = pp_memory_size t2 - pp_memory_size t) \<and>
    (pp_clear (t, inst) = (t3, inst3) \<longrightarrow>
      pp_inv t3 \<and> inst3 - inst = pp_memory_size t3 - pp_memory_size t)"
  using pp_insert_inv [OF assms] pp_remove_inv [OF assms]
  by (auto simp: pp_clear_def pp_inv_def)

definition sample_pessimistic_lock :: pessimistic_lock where
  "sample_pessimistic_lock =
     \<lparr> pl_primary = [107], pl_start_ts = 5, pl_ttl = 100, pl_for_update_ts = 6, pl_min_commit_ts = 7,
       pl_last_change = LCUnknown, pl_is_locked_with_conflict = False \<rparr>"

theorem pessimistic_locks_memory_exact_witness:
  "\<exists>t1 inst1. pp_insert [([107], sample_pessimistic_lock)] 1000 1000 (PeerPessimisticLocks_default, 0) =
      Some (t1, inst1) \<and> pp_inv t1 \<and> pp_memory_size t1 = 82 \<and> inst1 = 82"
proof -
  have "pp_inv PeerPessimisticLocks_default" by (simp add: pp_inv_def PeerPessimisticLocks_default_def)
  moreover obtain t1 inst1 where ins: "pp_insert [([107], sample_pessimistic_lock)] 1000 1000
      (PeerPessimisticLocks_default, 0) = Some (t1, inst1)" "pp_memory_size t1 = 82" "inst1 = 82"
    by (simp add: pp_insert_def insert_incr_def PeerPessimisticLocks_default_def pl_memory_size_def
        sample_pessimistic_lock_def SIZE_OF_PESSIMISTIC_LOCK_def)
  moreover have "distinct (map fst [([107] :: key, sample_pessimistic_lock)])"
    "overwrites_fit (pp_map PeerPessimisticLocks_default) [([107], sample_pessimistic_lock)]"
    by (simp_all add: overwrites_fit_def PeerPessimisticLocks_default_def)
  ultimately have "pp_inv t1"
    using pessimistic_locks_memory_exact [THEN conjunct1] by blast
  with ins show ?thesis by blast
qed

text \<open>C36: When a region is split, every in memory lock goes to the region that holds its key: the
  derived region keeps its own locks unchanged, every other region gets its locks with the
  deletion mark cleared, no lock is lost or copied, and all recorded memory sizes are exact.\<close>

theorem group_by_regions_partition:
  assumes "pp_inv t" "regions_ok regions" "d < length regions" "derived = regions ! d"
    and "\<And>k. pp_get t k \<noteq> None \<Longrightarrow> \<exists>i < length regions. region_contains (regions ! i) k"
  shows "\<exists>t' res. group_by_regions regions derived t = Some (t', res) \<and> pp_inv t' \<and>
    length res = length regions \<and>
    (\<forall>k. pp_get t' k = (if region_contains derived k then pp_get t k else None)) \<and>
    (\<forall>i < length regions. pp_inv (res ! i) \<and>
      (\<forall>k. pp_get (res ! i) k =
        (if i \<noteq> d \<and> region_contains (regions ! i) k then map_option (\<lambda>v. (fst v, False)) (pp_get t k)
         else None)))"
  using assms by (rule group_by_regions_spec)

definition sample_regions :: "region list" where
  "sample_regions =
     [\<lparr> region_start = [], region_end = [100] \<rparr>, \<lparr> region_start = [100], region_end = [] \<rparr>]"

definition sample_table :: peer_pessimistic_locks where
  "sample_table = PeerPessimisticLocks_default
     \<lparr>pp_map := [([107], sample_pessimistic_lock, True)], pp_memory_size := 82\<rparr>"

theorem group_by_regions_partition_witness:
  "\<exists>t' res. group_by_regions sample_regions (sample_regions ! 0) sample_table = Some (t', res) \<and>
    pp_get t' [107] = None \<and> pp_get (res ! 1) [107] = Some (sample_pessimistic_lock, False)"
proof -
  have inv: "pp_inv sample_table"
    by (simp add: pp_inv_def sample_table_def entry_size_def pl_memory_size_def
        sample_pessimistic_lock_def SIZE_OF_PESSIMISTIC_LOCK_def)
  have ok: "regions_ok sample_regions"
    by (auto simp: regions_ok_def sample_regions_def less_Suc_eq)
  have len: "length sample_regions = 2" by (simp add: sample_regions_def)
  have "\<exists>i < length sample_regions. region_contains (sample_regions ! i) k"
    if "pp_get sample_table k \<noteq> None" for k
    using that by (intro exI [of _ 1])
      (auto simp: sample_regions_def sample_table_def pp_get_def tree_get_Cons region_contains_def
        split: if_splits)
  from group_by_regions_partition [OF inv ok _ refl this, of 0]
  obtain t' res where res: "group_by_regions sample_regions (sample_regions ! 0) sample_table = Some (t', res)"
    "\<And>k. pp_get t' k = (if region_contains (sample_regions ! 0) k then pp_get sample_table k else None)"
    "\<And>k. pp_get (res ! 1) k = (if region_contains (sample_regions ! 1) k
      then map_option (\<lambda>v. (fst v, False)) (pp_get sample_table k) else None)"
    unfolding len by auto
  have "pp_get t' [107] = None" "pp_get (res ! 1) [107] = Some (sample_pessimistic_lock, False)"
    unfolding res(2,3) by (simp_all add: sample_regions_def region_contains_def sample_table_def pp_get_def
        tree_get_Cons)
  with res(1) show ?thesis by blast
qed

text \<open>C38: A scan of the table returns the matching locks of the range in key order, cut off at the
  limit, and reports that nothing remains only when it has returned all of them.\<close>

theorem pessimistic_scan_complete:
  assumes "pp_scan_locks t start end f limit = Some (locks, has_remain)"
  shows "locks = (if limit = 0 then id else take limit) (pp_matches t start end f) \<and>
    (\<not> has_remain \<longrightarrow> locks = pp_matches t start end f)"
  using assms by (rule pp_scan_locks_eq)

theorem pessimistic_scan_complete_witness:
  "\<exists>locks. pp_scan_locks sample_table None (Some [200]) (\<lambda>k l. True) 2 = Some (locks, False) \<and>
    locks = pp_matches sample_table None (Some [200]) (\<lambda>k l. True) \<and> length locks = 1"
proof -
  obtain locks where locks: "pp_scan_locks sample_table None (Some [200]) (\<lambda>k l. True) 2 = Some (locks, False)"
    "length locks = 1"
    by (simp add: pp_scan_locks_def sample_table_def key_range_def in_bounds_def)
  with pessimistic_scan_complete [OF locks(1)] show ?thesis by simp
qed

end
