(* ===== verification/Cursor.thy ===== *)
theory Cursor
  imports Engine
begin

text \<open>
  Cursors, \<^verbatim>\<open>components/tikv_kv/src/cursor.rs\<close>: a wrapper of an iterator that remembers the
  ends of the data it has met and, for a target near its position, steps at most
  \<open>SEEK_BOUND\<close> times before it falls back to a seek of the underlying iterator.  A cursor is
  generic in the iterator, whose operations are the argument \<open>ops\<close>.  From the contract of an
  iterator alone it is proved that stepping finds exactly what seeking finds, in both
  directions; the interpretation for the in memory engine gives this for its iterators.
  Statistics and the flags that count reads are not modelled.
\<close>

section \<open>State and primitive moves\<close>

datatype scan_mode = Forward | Backward | Mixed

definition SEEK_BOUND :: nat where
  "SEEK_BOUND = 8"

record 'i cursor =
  cur_iter :: 'i
  cur_scan_mode :: scan_mode
  cur_prefix_seek :: bool
  cur_min_key :: "bytes option"
  cur_max_key :: "bytes option"

definition Cursor_new :: "'i \<Rightarrow> scan_mode \<Rightarrow> bool \<Rightarrow> 'i cursor" where
  "Cursor_new it mode prefix_seek =
     \<lparr> cur_iter = it, cur_scan_mode = mode, cur_prefix_seek = prefix_seek,
       cur_min_key = None, cur_max_key = None \<rparr>"

text \<open>Sequencing of calls that may fail and that change the cursor.\<close>

fun st_bind :: "('e + 'a) \<times> 's \<Rightarrow> ('a \<Rightarrow> 's \<Rightarrow> ('e + 'b) \<times> 's) \<Rightarrow> ('e + 'b) \<times> 's" where
  "st_bind (Inl e, s) f = (Inl e, s)"
| "st_bind (Inr x, s) f = f x s"

definition cursor_move :: "('i \<Rightarrow> (kv_error + bool) \<times> 'i) \<Rightarrow> 'i cursor \<Rightarrow> (kv_error + bool) \<times> 'i cursor" where
  "cursor_move f c = (case f (cur_iter c) of (r, it) \<Rightarrow> (r, c\<lparr>cur_iter := it\<rparr>))"

text \<open>\<^verbatim>\<open>.expect("Invalid Iterator")\<close>.\<close>

fun expect_ok :: "(kv_error + bool) \<times> 's \<Rightarrow> (kv_error + bool) \<times> 's" where
  "expect_ok (Inl e, s) = (Inl KvPanic, s)"
| "expect_ok (Inr b, s) = (Inr b, s)"

definition cursor_valid :: "'i iter_ops \<Rightarrow> 'i cursor \<Rightarrow> kv_error + bool" where
  "cursor_valid ops c = op_valid ops (cur_iter c)"

definition cursor_key :: "'i iter_ops \<Rightarrow> 'i cursor \<Rightarrow> kv_error + bytes" where
  "cursor_key ops c = op_key ops (cur_iter c)"

definition cursor_value :: "'i iter_ops \<Rightarrow> 'i cursor \<Rightarrow> kv_error + bytes" where
  "cursor_value ops c = op_value ops (cur_iter c)"

definition cursor_next :: "'i iter_ops \<Rightarrow> 'i cursor \<Rightarrow> (kv_error + bool) \<times> 'i cursor" where
  "cursor_next ops c = expect_ok (cursor_move (op_next ops) c)"

definition cursor_prev :: "'i iter_ops \<Rightarrow> 'i cursor \<Rightarrow> (kv_error + bool) \<times> 'i cursor" where
  "cursor_prev ops c = expect_ok (cursor_move (op_prev ops) c)"

definition cursor_seek_to_first :: "'i iter_ops \<Rightarrow> 'i cursor \<Rightarrow> (kv_error + bool) \<times> 'i cursor" where
  "cursor_seek_to_first ops c =
     (if cur_prefix_seek c then (Inl KvPanic, c) else expect_ok (cursor_move (op_seek_to_first ops) c))"

definition cursor_seek_to_last :: "'i iter_ops \<Rightarrow> 'i cursor \<Rightarrow> (kv_error + bool) \<times> 'i cursor" where
  "cursor_seek_to_last ops c =
     (if cur_prefix_seek c then (Inl KvPanic, c) else expect_ok (cursor_move (op_seek_to_last ops) c))"

definition internal_seek :: "'i iter_ops \<Rightarrow> key \<Rightarrow> 'i cursor \<Rightarrow> (kv_error + bool) \<times> 'i cursor" where
  "internal_seek ops k c = cursor_move (\<lambda>it. op_seek ops it k) c"

definition internal_seek_for_prev ::
    "'i iter_ops \<Rightarrow> key \<Rightarrow> 'i cursor \<Rightarrow> (kv_error + bool) \<times> 'i cursor" where
  "internal_seek_for_prev ops k c = cursor_move (\<lambda>it. op_seek_for_prev ops it k) c"

section \<open>Seeking\<close>

definition validate_then_false ::
    "'i iter_ops \<Rightarrow> key \<Rightarrow> 'i cursor \<Rightarrow> (kv_error + bool) \<times> 'i cursor" where
  "validate_then_false ops k c =
     st_bind (op_validate_key ops (cur_iter c) k, c) (\<lambda>_ c. (Inr False, c))"

definition beyond_max_key :: "'i cursor \<Rightarrow> key \<Rightarrow> bool" where
  "beyond_max_key c k = (case cur_max_key c of Some m \<Rightarrow> m \<le> k | None \<Rightarrow> False)"

definition before_min_key :: "'i cursor \<Rightarrow> key \<Rightarrow> bool" where
  "before_min_key c k = (case cur_min_key c of Some m \<Rightarrow> k \<le> m | None \<Rightarrow> False)"

definition at_or_after :: "'i iter_ops \<Rightarrow> key \<Rightarrow> 'i cursor \<Rightarrow> kv_error + bool" where
  "at_or_after ops k c =
     res_bind (cursor_valid ops c) (\<lambda>v.
       if v then res_bind (cursor_key ops c) (\<lambda>cur. Inr (k \<le> cur)) else Inr False)"

definition at_or_before :: "'i iter_ops \<Rightarrow> key \<Rightarrow> 'i cursor \<Rightarrow> kv_error + bool" where
  "at_or_before ops k c =
     res_bind (cursor_valid ops c) (\<lambda>v.
       if v then res_bind (cursor_key ops c) (\<lambda>cur. Inr (cur \<le> k)) else Inr False)"

definition set_max_key :: "key \<Rightarrow> 'i cursor \<Rightarrow> 'i cursor" where
  "set_max_key k c = (if cur_prefix_seek c then c else c\<lparr>cur_max_key := Some k\<rparr>)"

definition set_min_key :: "key \<Rightarrow> 'i cursor \<Rightarrow> 'i cursor" where
  "set_min_key k c = (if cur_prefix_seek c then c else c\<lparr>cur_min_key := Some k\<rparr>)"

definition cursor_seek :: "'i iter_ops \<Rightarrow> key \<Rightarrow> 'i cursor \<Rightarrow> (kv_error + bool) \<times> 'i cursor" where
  "cursor_seek ops k c =
     (if cur_scan_mode c = Backward then (Inl KvPanic, c)
      else if beyond_max_key c k then validate_then_false ops k c
      else
        st_bind (if cur_scan_mode c = Forward then at_or_after ops k c else Inr False, c) (\<lambda>stay c.
          if stay then (Inr True, c)
          else
            st_bind (internal_seek ops k c) (\<lambda>found c.
              if found then (Inr True, c) else (Inr False, set_max_key k c))))"

definition cursor_seek_for_prev ::
    "'i iter_ops \<Rightarrow> key \<Rightarrow> 'i cursor \<Rightarrow> (kv_error + bool) \<times> 'i cursor" where
  "cursor_seek_for_prev ops k c =
     (if cur_scan_mode c = Forward then (Inl KvPanic, c)
      else if before_min_key c k then validate_then_false ops k c
      else
        st_bind (if cur_scan_mode c = Backward then at_or_before ops k c else Inr False, c) (\<lambda>stay c.
          if stay then (Inr True, c)
          else
            st_bind (internal_seek_for_prev ops k c) (\<lambda>found c.
              if found then (Inr True, c) else (Inr False, set_min_key k c))))"

section \<open>Seeking near the position\<close>

text \<open>
  The macro \<^verbatim>\<open>near_loop!\<close>: \<open>cond\<close> moves the cursor and says whether to go on; the result is
  whether the bound was hit, so that the caller falls back to a seek.
\<close>

function near_loop ::
    "('s \<Rightarrow> (kv_error + bool) \<times> 's) \<Rightarrow> nat \<Rightarrow> 's \<Rightarrow> (kv_error + bool) \<times> 's" where
  "near_loop cond cnt s =
     st_bind (cond s) (\<lambda>go s'.
       if \<not> go then (Inr False, s')
       else if SEEK_BOUND \<le> cnt + 1 then (Inr True, s')
       else near_loop cond (cnt + 1) s')"
  by pat_completeness auto
termination
  by (relation "measure (\<lambda>(cond, cnt, s). SEEK_BOUND - cnt)") auto

declare near_loop.simps [simp del]

definition prev_while_greater ::
    "'i iter_ops \<Rightarrow> key \<Rightarrow> 'i cursor \<Rightarrow> (kv_error + bool) \<times> 'i cursor" where
  "prev_while_greater ops k c =
     st_bind (cursor_prev ops c) (\<lambda>v c.
       if v then st_bind (cursor_key ops c, c) (\<lambda>cur c. (Inr (k < cur), c)) else (Inr False, c))"

definition next_while_less ::
    "'i iter_ops \<Rightarrow> key \<Rightarrow> 'i cursor \<Rightarrow> (kv_error + bool) \<times> 'i cursor" where
  "next_while_less ops k c =
     st_bind (cursor_next ops c) (\<lambda>v c.
       if v then st_bind (cursor_key ops c, c) (\<lambda>cur c. (Inr (cur < k), c)) else (Inr False, c))"

definition finish_seek :: "'i iter_ops \<Rightarrow> key \<Rightarrow> 'i cursor \<Rightarrow> (kv_error + bool) \<times> 'i cursor" where
  "finish_seek ops k c =
     st_bind (cursor_valid ops c, c) (\<lambda>v c. if v then (Inr True, c) else (Inr False, set_max_key k c))"

definition finish_seek_for_prev ::
    "'i iter_ops \<Rightarrow> key \<Rightarrow> 'i cursor \<Rightarrow> (kv_error + bool) \<times> 'i cursor" where
  "finish_seek_for_prev ops k c =
     st_bind (cursor_valid ops c, c) (\<lambda>v c. if v then (Inr True, c) else (Inr False, set_min_key k c))"

definition near_seek_back :: "'i iter_ops \<Rightarrow> key \<Rightarrow> 'i cursor \<Rightarrow> (kv_error + bool) \<times> 'i cursor" where
  "near_seek_back ops k c =
     st_bind (near_loop (prev_while_greater ops k) 0 c) (\<lambda>over c.
       if over then cursor_seek ops k c
       else
         st_bind (cursor_valid ops c, c) (\<lambda>v c.
           if v then
             st_bind (cursor_key ops c, c) (\<lambda>cur c.
               if cur < k then st_bind (cursor_next ops c) (\<lambda>_ c. finish_seek ops k c)
               else finish_seek ops k c)
           else if cur_prefix_seek c then cursor_seek ops k c
           else
             st_bind (cursor_seek_to_first ops c) (\<lambda>b c. if b then (Inr True, c) else (Inl KvPanic, c))))"

definition near_seek :: "'i iter_ops \<Rightarrow> key \<Rightarrow> 'i cursor \<Rightarrow> (kv_error + bool) \<times> 'i cursor" where
  "near_seek ops k c =
     (if cur_scan_mode c = Backward then (Inl KvPanic, c)
      else
        st_bind (cursor_valid ops c, c) (\<lambda>v c.
          if \<not> v then cursor_seek ops k c
          else
            st_bind (cursor_key ops c, c) (\<lambda>cur c.
              if cur = k \<or> cur_scan_mode c = Forward \<and> k < cur then (Inr True, c)
              else if beyond_max_key c k then validate_then_false ops k c
              else if k < cur then near_seek_back ops k c
              else
                st_bind (near_loop (next_while_less ops k) 0 c) (\<lambda>over c.
                  if over then cursor_seek ops k c else finish_seek ops k c))))"

definition near_seek_forward :: "'i iter_ops \<Rightarrow> key \<Rightarrow> 'i cursor \<Rightarrow> (kv_error + bool) \<times> 'i cursor" where
  "near_seek_forward ops k c =
     st_bind (near_loop (next_while_less ops k) 0 c) (\<lambda>over c.
       if over then cursor_seek_for_prev ops k c
       else
         st_bind (cursor_valid ops c, c) (\<lambda>v c.
           if v then
             st_bind (cursor_key ops c, c) (\<lambda>cur c.
               if k < cur then st_bind (cursor_prev ops c) (\<lambda>_ c. finish_seek_for_prev ops k c)
               else finish_seek_for_prev ops k c)
           else if cur_prefix_seek c then cursor_seek_for_prev ops k c
           else
             st_bind (cursor_seek_to_last ops c) (\<lambda>b c. if b then (Inr True, c) else (Inl KvPanic, c))))"

definition near_seek_for_prev ::
    "'i iter_ops \<Rightarrow> key \<Rightarrow> 'i cursor \<Rightarrow> (kv_error + bool) \<times> 'i cursor" where
  "near_seek_for_prev ops k c =
     (if cur_scan_mode c = Forward then (Inl KvPanic, c)
      else
        st_bind (cursor_valid ops c, c) (\<lambda>v c.
          if \<not> v then cursor_seek_for_prev ops k c
          else
            st_bind (cursor_key ops c, c) (\<lambda>cur c.
              if cur = k \<or> cur_scan_mode c = Backward \<and> cur < k then (Inr True, c)
              else if before_min_key c k then validate_then_false ops k c
              else if cur < k then near_seek_forward ops k c
              else
                st_bind (near_loop (prev_while_greater ops k) 0 c) (\<lambda>over c.
                  if over then cursor_seek_for_prev ops k c else finish_seek_for_prev ops k c))))"

definition cursor_get ::
    "'i iter_ops \<Rightarrow> key \<Rightarrow> 'i cursor \<Rightarrow> (kv_error + bytes option) \<times> 'i cursor" where
  "cursor_get ops k c =
     st_bind (if cur_scan_mode c \<noteq> Backward then near_seek ops k c else near_seek_for_prev ops k c)
       (\<lambda>found c.
         if \<not> found then (Inr None, c)
         else
           st_bind (cursor_key ops c, c) (\<lambda>cur c.
             if cur = k then st_bind (cursor_value ops c, c) (\<lambda>v c. (Inr (Some v), c))
             else (Inr None, c)))"

definition reverse_seek :: "'i iter_ops \<Rightarrow> key \<Rightarrow> 'i cursor \<Rightarrow> (kv_error + bool) \<times> 'i cursor" where
  "reverse_seek ops k c =
     st_bind (cursor_seek_for_prev ops k c) (\<lambda>found c.
       if \<not> found then (Inr False, c)
       else
         st_bind (cursor_key ops c, c) (\<lambda>cur c. if cur = k then cursor_prev ops c else (Inr True, c)))"

definition near_reverse_seek :: "'i iter_ops \<Rightarrow> key \<Rightarrow> 'i cursor \<Rightarrow> (kv_error + bool) \<times> 'i cursor" where
  "near_reverse_seek ops k c =
     st_bind (near_seek_for_prev ops k c) (\<lambda>found c.
       if \<not> found then (Inr False, c)
       else
         st_bind (cursor_key ops c, c) (\<lambda>cur c. if cur = k then cursor_prev ops c else (Inr True, c)))"

section \<open>The invariant of a cursor\<close>

definition keys_of :: "('k::linorder, 'v) tree \<Rightarrow> 'k set" where
  "keys_of m = fst ` set m"

text \<open>The remembered ends really are ends of the data.\<close>

definition cursor_inv ::
    "('i \<Rightarrow> bool) \<Rightarrow> ('i \<Rightarrow> (key, value_bytes) tree) \<Rightarrow> 'i cursor \<Rightarrow> bool" where
  "cursor_inv ok view c \<longleftrightarrow>
     ok (cur_iter c) \<and>
     (\<forall>m. cur_max_key c = Some m \<longrightarrow> (\<forall>x \<in> keys_of (view (cur_iter c)). x < m)) \<and>
     (\<forall>m. cur_min_key c = Some m \<longrightarrow> (\<forall>x \<in> keys_of (view (cur_iter c)). m < x))"

definition cursor_same :: "('i \<Rightarrow> 'i \<Rightarrow> bool) \<Rightarrow> 'i cursor \<Rightarrow> 'i cursor \<Rightarrow> bool" where
  "cursor_same same c c' \<longleftrightarrow>
     same (cur_iter c) (cur_iter c') \<and> cur_scan_mode c' = cur_scan_mode c \<and>
     cur_prefix_seek c' = cur_prefix_seek c"

lemma first_key_Some:
  assumes "tree_inv m"
  shows "first_key m R = Some k \<longleftrightarrow>
    k \<in> keys_of m \<and> in_bounds R k \<and> (\<forall>x \<in> keys_of m. in_bounds R x \<longrightarrow> k \<le> x)"
proof -
  have "first_key m R = Some k \<longleftrightarrow> (\<exists>p. range_first m R = Some p \<and> fst p = k)"
    unfolding first_key_def by (cases "range_first m R") auto
  then show ?thesis by (auto simp: range_first_Some [OF assms] keys_of_def intro: rev_image_eqI)
qed

lemma last_key_Some:
  assumes "tree_inv m"
  shows "last_key m R = Some k \<longleftrightarrow>
    k \<in> keys_of m \<and> in_bounds R k \<and> (\<forall>x \<in> keys_of m. in_bounds R x \<longrightarrow> x \<le> k)"
proof -
  have "last_key m R = Some k \<longleftrightarrow> (\<exists>p. range_last m R = Some p \<and> fst p = k)"
    unfolding last_key_def by (cases "range_last m R") auto
  then show ?thesis by (auto simp: range_last_Some [OF assms] keys_of_def intro: rev_image_eqI)
qed

lemma first_key_None:
  "first_key m R = None \<longleftrightarrow> (\<forall>x \<in> keys_of m. \<not> in_bounds R x)"
  by (simp add: first_key_def range_first_None keys_of_def)

lemma last_key_None:
  "last_key m R = None \<longleftrightarrow> (\<forall>x \<in> keys_of m. \<not> in_bounds R x)"
  by (simp add: last_key_def range_last_None keys_of_def)

lemma in_bounds_simps [simp]:
  "in_bounds (Included k, Unbounded) x \<longleftrightarrow> k \<le> x"
  "in_bounds (Excluded k, Unbounded) x \<longleftrightarrow> k < x"
  "in_bounds (Unbounded, Included k) x \<longleftrightarrow> x \<le> k"
  "in_bounds (Unbounded, Excluded k) x \<longleftrightarrow> x < k"
  "in_bounds (Unbounded, Unbounded) x"
  by (simp_all add: in_bounds_def)

text \<open>
  Where a seek ends: at the first key not less than the target (the last key not greater), except
  that a one directional cursor never moves back.
\<close>

definition seek_target :: "scan_mode \<Rightarrow> key option \<Rightarrow> (key, value_bytes) tree \<Rightarrow> key \<Rightarrow> key option" where
  "seek_target mode cur m k =
     (case cur of
        Some c \<Rightarrow>
          if mode = Forward \<and> k \<le> c then Some c
          else first_key m (Included k, Unbounded)
      | None \<Rightarrow> first_key m (Included k, Unbounded))"

definition seek_for_prev_target ::
    "scan_mode \<Rightarrow> key option \<Rightarrow> (key, value_bytes) tree \<Rightarrow> key \<Rightarrow> key option" where
  "seek_for_prev_target mode cur m k =
     (case cur of
        Some c \<Rightarrow>
          if mode = Backward \<and> c \<le> k then Some c
          else last_key m (Unbounded, Included k)
      | None \<Rightarrow> last_key m (Unbounded, Included k))"

text \<open>
  Where a bounded walk stops: still before the target when it hit the bound, and next to the
  target otherwise.
\<close>

definition stopped_back :: "bool \<Rightarrow> key \<Rightarrow> key option \<Rightarrow> key set \<Rightarrow> bool" where
  "stopped_back over k p K \<longleftrightarrow>
     (case p of
        None \<Rightarrow> \<not> over \<and> (\<forall>x \<in> K. k < x)
      | Some q \<Rightarrow> if over then k < q else q \<le> k \<and> (\<forall>x \<in> K. q < x \<longrightarrow> k < x))"

definition stopped_ahead :: "bool \<Rightarrow> key \<Rightarrow> key option \<Rightarrow> key set \<Rightarrow> bool" where
  "stopped_ahead over k p K \<longleftrightarrow>
     (case p of
        None \<Rightarrow> \<not> over \<and> (\<forall>x \<in> K. x < k)
      | Some q \<Rightarrow> if over then q < k else k \<le> q \<and> (\<forall>x \<in> K. x < q \<longrightarrow> x < k))"

section \<open>Stepping finds what seeking finds\<close>

context kv_iterator
begin

abbreviation (input) "cinv \<equiv> cursor_inv ok view"
abbreviation (input) "csim \<equiv> cursor_same same"
abbreviation (input) "cpos c \<equiv> pos (cur_iter c)"
abbreviation (input) "ckeys c \<equiv> keys_of (view (cur_iter c))"

lemma sim_refl: "csim c c"
  by (simp add: cursor_same_def same_refl)

lemma sim_trans: "csim c c' \<Longrightarrow> csim c' c'' \<Longrightarrow> csim c c''"
  by (auto simp: cursor_same_def intro: same_trans)

lemma sim_keys: "csim c c' \<Longrightarrow> ckeys c' = ckeys c"
  unfolding cursor_same_def by (metis same_view)

lemma sim_fwd: "csim c c' \<Longrightarrow> fwd (cur_iter c') = fwd (cur_iter c)"
  unfolding cursor_same_def by (metis same_fwd)

lemma sim_bwd: "csim c c' \<Longrightarrow> bwd (cur_iter c') = bwd (cur_iter c)"
  unfolding cursor_same_def by (metis same_bwd)

lemma inv_view: "cinv c \<Longrightarrow> tree_inv (view (cur_iter c))"
  by (simp add: cursor_inv_def view_inv)

lemma move_law:
  assumes "cinv c" "\<exists>it'. f (cur_iter c) = (Inr (pos it' \<noteq> None), it') \<and> ok it' \<and> same (cur_iter c) it' \<and> pos it' = t"
  shows "\<exists>c'. cursor_move f c = (Inr (cpos c' \<noteq> None), c') \<and> cinv c' \<and> csim c c' \<and> cpos c' = t"
proof -
  from assms(2) obtain it' where it': "f (cur_iter c) = (Inr (pos it' \<noteq> None), it')" "ok it'"
    "same (cur_iter c) it'" "pos it' = t" by blast
  with assms(1) show ?thesis
    using same_view [OF it'(3)]
    by (intro exI [of _ "c\<lparr>cur_iter := it'\<rparr>"])
      (simp add: cursor_move_def cursor_inv_def cursor_same_def)
qed

lemma expect_law:
  "\<exists>c'. m = (Inr (cpos c' \<noteq> None), c') \<and> P c' \<Longrightarrow> \<exists>c'. expect_ok m = (Inr (cpos c' \<noteq> None), c') \<and> P c'"
  by auto

lemma next_law:
  assumes "cinv c" "cpos c = Some k"
  shows "\<exists>c'. cursor_next ops c = (Inr (cpos c' \<noteq> None), c') \<and> cinv c' \<and> csim c c' \<and>
    cpos c' = first_key (view (cur_iter c)) (Excluded k, Unbounded)"
  unfolding cursor_next_def
  using assms by (intro expect_law move_law nxt) (auto simp: cursor_inv_def)

lemma prev_law:
  assumes "cinv c" "cpos c = Some k"
  shows "\<exists>c'. cursor_prev ops c = (Inr (cpos c' \<noteq> None), c') \<and> cinv c' \<and> csim c c' \<and>
    cpos c' = last_key (view (cur_iter c)) (Unbounded, Excluded k)"
  unfolding cursor_prev_def
  using assms by (intro expect_law move_law prv) (auto simp: cursor_inv_def)

lemma valid_law: "cinv c \<Longrightarrow> cursor_valid ops c = Inr (cpos c \<noteq> None)"
  by (simp add: cursor_valid_def cursor_inv_def valid)

lemma key_law: "cinv c \<Longrightarrow> cpos c = Some k \<Longrightarrow> cursor_key ops c = Inr k"
  by (simp add: cursor_key_def cursor_inv_def key)

lemma cpos_mem: "cinv c \<Longrightarrow> cpos c = Some k \<Longrightarrow> k \<in> ckeys c"
  using pos_view [of "cur_iter c" k]
  by (force simp: cursor_inv_def keys_of_def tree_get_None)

abbreviation (input) "found c r t \<equiv>
  (\<exists>c'. r = (Inr (t \<noteq> None), c') \<and> cinv c' \<and> csim c c' \<and> (t \<noteq> None \<longrightarrow> cpos c' = t))"

lemma found_trans: "csim c c' \<Longrightarrow> found c' r t \<Longrightarrow> found c r t"
proof -
  assume "csim c c'" "found c' r t"
  then obtain d where "r = (Inr (t \<noteq> None), d)" "cinv d" "csim c' d" "t \<noteq> None \<longrightarrow> cpos d = t" by blast
  with sim_trans [OF \<open>csim c c'\<close>] show ?thesis by blast
qed

lemma validate_law: "cinv c \<Longrightarrow> found c (validate_then_false ops k c) None"
  by (auto simp: validate_then_false_def cursor_inv_def validate sim_refl)

lemma internal_seek_law:
  assumes "cinv c" "fwd (cur_iter c) k"
  shows "\<exists>c'. internal_seek ops k c = (Inr (cpos c' \<noteq> None), c') \<and> cinv c' \<and> csim c c' \<and>
    cpos c' = first_key (view (cur_iter c)) (Included k, Unbounded)"
  unfolding internal_seek_def
  using assms by (intro move_law seek) (auto simp: cursor_inv_def)

lemma internal_seek_for_prev_law:
  assumes "cinv c" "bwd (cur_iter c) k"
  shows "\<exists>c'. internal_seek_for_prev ops k c = (Inr (cpos c' \<noteq> None), c') \<and> cinv c' \<and> csim c c' \<and>
    cpos c' = last_key (view (cur_iter c)) (Unbounded, Included k)"
  unfolding internal_seek_for_prev_def
  using assms by (intro move_law seek_for_prev) (auto simp: cursor_inv_def)

lemma set_max_key_law:
  "cinv c \<Longrightarrow> \<forall>x \<in> ckeys c. x < k \<Longrightarrow> cinv (set_max_key k c) \<and> csim c (set_max_key k c)"
  by (auto simp: set_max_key_def cursor_inv_def cursor_same_def same_refl)

lemma set_min_key_law:
  "cinv c \<Longrightarrow> \<forall>x \<in> ckeys c. k < x \<Longrightarrow> cinv (set_min_key k c) \<and> csim c (set_min_key k c)"
  by (auto simp: set_min_key_def cursor_inv_def cursor_same_def same_refl)

lemma at_or_after_law:
  "cinv c \<Longrightarrow> at_or_after ops k c = Inr (case cpos c of Some p \<Rightarrow> k \<le> p | None \<Rightarrow> False)"
  by (auto simp: at_or_after_def valid_law key_law split: option.splits)

lemma at_or_before_law:
  "cinv c \<Longrightarrow> at_or_before ops k c = Inr (case cpos c of Some p \<Rightarrow> p \<le> k | None \<Rightarrow> False)"
  by (auto simp: at_or_before_def valid_law key_law split: option.splits)

lemma beyond_max_key_law:
  assumes "cinv c" "beyond_max_key c k"
  shows "seek_target mode (cpos c) (view (cur_iter c)) k = None"
proof -
  have "\<forall>x \<in> ckeys c. \<not> k \<le> x"
    using assms by (fastforce simp: beyond_max_key_def cursor_inv_def split: option.splits)
  moreover from this have "first_key (view (cur_iter c)) (Included k, Unbounded) = None"
    unfolding first_key_None by simp
  ultimately show ?thesis
    using cpos_mem [OF assms(1)] by (auto simp: seek_target_def split: option.splits)
qed

lemma seek_law:
  assumes "cinv c" "cur_scan_mode c \<noteq> Backward" "fwd (cur_iter c) k"
  shows "found c (cursor_seek ops k c) (seek_target (cur_scan_mode c) (cpos c) (view (cur_iter c)) k)"
proof (cases "beyond_max_key c k")
  case True
  with assms validate_law [OF assms(1)] beyond_max_key_law [OF assms(1) True] show ?thesis
    by (simp add: cursor_seek_def)
next
  case False
  let ?first = "first_key (view (cur_iter c)) (Included k, Unbounded)"
  let ?stay = "cur_scan_mode c = Forward \<and> (case cpos c of Some p \<Rightarrow> k \<le> p | None \<Rightarrow> False)"
  obtain c' where c': "internal_seek ops k c = (Inr (cpos c' \<noteq> None), c')" "cinv c'" "csim c c'"
    "cpos c' = ?first"
    using internal_seek_law [OF assms(1,3)] by blast
  have step: "cursor_seek ops k c =
      (if ?stay then (Inr True, c) else (if ?first \<noteq> None then (Inr True, c') else (Inr False, set_max_key k c')))"
    using assms(2) False c'(1,4) by (simp add: cursor_seek_def at_or_after_law [OF assms(1)])
  show ?thesis
  proof (cases ?stay)
    case True
    then obtain p where "cpos c = Some p" "k \<le> p" by (auto split: option.splits)
    with True step assms(1) sim_refl show ?thesis by (auto simp: seek_target_def)
  next
    case False
    then have t: "seek_target (cur_scan_mode c) (cpos c) (view (cur_iter c)) k = ?first"
      by (auto simp: seek_target_def split: option.splits)
    show ?thesis
    proof (cases "?first = None")
      case True
      then have "\<forall>x \<in> ckeys c'. x < k"
        unfolding first_key_None sim_keys [OF c'(3)] by (simp add: not_le)
      with set_max_key_law [OF c'(2)] have "cinv (set_max_key k c')" "csim c (set_max_key k c')"
        using sim_trans [OF c'(3)] by blast+
      with True False step t show ?thesis by auto
    next
      case False
      with step t c' \<open>\<not> ?stay\<close> show ?thesis by auto
    qed
  qed
qed

lemma prev_while_greater_law:
  assumes "cinv c" "cpos c = Some p"
  shows "\<exists>c'. prev_while_greater ops k c = (Inr (case cpos c' of Some q \<Rightarrow> k < q | None \<Rightarrow> False), c') \<and>
    cinv c' \<and> csim c c' \<and> cpos c' = last_key (view (cur_iter c)) (Unbounded, Excluded p)"
proof -
  obtain c' where c': "cursor_prev ops c = (Inr (cpos c' \<noteq> None), c')" "cinv c'" "csim c c'"
    "cpos c' = last_key (view (cur_iter c)) (Unbounded, Excluded p)"
    using prev_law [OF assms] by blast
  have "prev_while_greater ops k c = (Inr (case cpos c' of Some q \<Rightarrow> k < q | None \<Rightarrow> False), c')"
    using c'(1) key_law [OF c'(2)] by (cases "cpos c'") (simp_all add: prev_while_greater_def)
  with c' show ?thesis by blast
qed

lemma next_while_less_law:
  assumes "cinv c" "cpos c = Some p"
  shows "\<exists>c'. next_while_less ops k c = (Inr (case cpos c' of Some q \<Rightarrow> q < k | None \<Rightarrow> False), c') \<and>
    cinv c' \<and> csim c c' \<and> cpos c' = first_key (view (cur_iter c)) (Excluded p, Unbounded)"
proof -
  obtain c' where c': "cursor_next ops c = (Inr (cpos c' \<noteq> None), c')" "cinv c'" "csim c c'"
    "cpos c' = first_key (view (cur_iter c)) (Excluded p, Unbounded)"
    using next_law [OF assms] by blast
  have "next_while_less ops k c = (Inr (case cpos c' of Some q \<Rightarrow> q < k | None \<Rightarrow> False), c')"
    using c'(1) key_law [OF c'(2)] by (cases "cpos c'") (simp_all add: next_while_less_def)
  with c' show ?thesis by blast
qed

text \<open>The bounded walk backwards ends at the bound or next to the target.\<close>

lemma near_prev_law:
  "cinv c \<Longrightarrow> cpos c = Some p \<Longrightarrow> k < p \<Longrightarrow>
   \<exists>over c'. near_loop (prev_while_greater ops k) n c = (Inr over, c') \<and> cinv c' \<and> csim c c' \<and>
     (stopped_back over k (cpos c') (ckeys c))"
proof (induction "SEEK_BOUND - n" arbitrary: n c p rule: less_induct)
  case less
  obtain c1 where c1: "prev_while_greater ops k c =
      (Inr (case cpos c1 of Some q \<Rightarrow> k < q | None \<Rightarrow> False), c1)" "cinv c1" "csim c c1"
    "cpos c1 = last_key (view (cur_iter c)) (Unbounded, Excluded p)"
    using prev_while_greater_law [OF less.prems(1,2)] by blast
  note unf = near_loop.simps [of _ n c]
  show ?case
  proof (cases "cpos c1")
    case None
    then have "\<forall>x \<in> ckeys c. k < x"
      using c1(4) less.prems(3) last_key_None [of "view (cur_iter c)" "(Unbounded, Excluded p)"]
      by (metis in_bounds_simps(4) linorder_not_less order_less_le_trans)
    with None c1 show ?thesis by (auto simp: unf stopped_back_def)
  next
    case (Some q)
    then have q: "q \<in> ckeys c" "q < p" "\<forall>x \<in> ckeys c. x < p \<longrightarrow> x \<le> q"
      using c1(4) last_key_Some [OF inv_view [OF less.prems(1)], of "(Unbounded, Excluded p)" q] by auto
    show ?thesis
    proof (cases "k < q")
      case False
      moreover have "\<forall>x \<in> ckeys c. q < x \<longrightarrow> k < x" using q(3) less.prems(3) by force
      ultimately show ?thesis using Some c1 by (auto simp: unf not_less stopped_back_def stopped_ahead_def)
    next
      case True
      show ?thesis
      proof (cases "SEEK_BOUND \<le> n + 1")
        case bound: True
        with True Some c1 show ?thesis by (auto simp: unf stopped_back_def stopped_ahead_def)
      next
        case bound: False
        then have "SEEK_BOUND - (n + 1) < SEEK_BOUND - n" by simp
        from less.hyps [OF this c1(2) Some True]
        obtain over c' where c': "near_loop (prev_while_greater ops k) (n + 1) c1 = (Inr over, c')" "cinv c'"
          "csim c1 c'" "stopped_back over k (cpos c') (ckeys c)"
          unfolding sim_keys [OF c1(3)] by blast
        have "near_loop (prev_while_greater ops k) n c = (Inr over, c')"
          using c1(1) Some True bound c'(1) by (simp add: unf)
        with c' sim_trans [OF c1(3) c'(3)] show ?thesis by blast
      qed
    qed
  qed
qed

lemma near_next_law:
  "cinv c \<Longrightarrow> cpos c = Some p \<Longrightarrow> p < k \<Longrightarrow>
   \<exists>over c'. near_loop (next_while_less ops k) n c = (Inr over, c') \<and> cinv c' \<and> csim c c' \<and>
     (stopped_ahead over k (cpos c') (ckeys c))"
proof (induction "SEEK_BOUND - n" arbitrary: n c p rule: less_induct)
  case less
  obtain c1 where c1: "next_while_less ops k c =
      (Inr (case cpos c1 of Some q \<Rightarrow> q < k | None \<Rightarrow> False), c1)" "cinv c1" "csim c c1"
    "cpos c1 = first_key (view (cur_iter c)) (Excluded p, Unbounded)"
    using next_while_less_law [OF less.prems(1,2)] by blast
  note unf = near_loop.simps [of _ n c]
  show ?case
  proof (cases "cpos c1")
    case None
    then have "\<forall>x \<in> ckeys c. x < k"
      using c1(4) less.prems(3) first_key_None [of "view (cur_iter c)" "(Excluded p, Unbounded)"]
      by (metis in_bounds_simps(2) linorder_not_less order_le_less_trans)
    with None c1 show ?thesis by (auto simp: unf stopped_ahead_def)
  next
    case (Some q)
    then have q: "q \<in> ckeys c" "p < q" "\<forall>x \<in> ckeys c. p < x \<longrightarrow> q \<le> x"
      using c1(4) first_key_Some [OF inv_view [OF less.prems(1)], of "(Excluded p, Unbounded)" q] by auto
    show ?thesis
    proof (cases "q < k")
      case False
      moreover have "\<forall>x \<in> ckeys c. x < q \<longrightarrow> x < k" using q(3) less.prems(3) by force
      ultimately show ?thesis using Some c1 by (auto simp: unf not_less stopped_back_def stopped_ahead_def)
    next
      case True
      show ?thesis
      proof (cases "SEEK_BOUND \<le> n + 1")
        case bound: True
        with True Some c1 show ?thesis by (auto simp: unf stopped_back_def stopped_ahead_def)
      next
        case bound: False
        then have "SEEK_BOUND - (n + 1) < SEEK_BOUND - n" by simp
        from less.hyps [OF this c1(2) Some True]
        obtain over c' where c': "near_loop (next_while_less ops k) (n + 1) c1 = (Inr over, c')" "cinv c'"
          "csim c1 c'" "stopped_ahead over k (cpos c') (ckeys c)"
          unfolding sim_keys [OF c1(3)] by blast
        have "near_loop (next_while_less ops k) n c = (Inr over, c')"
          using c1(1) Some True bound c'(1) by (simp add: unf)
        with c' sim_trans [OF c1(3) c'(3)] show ?thesis by blast
      qed
    qed
  qed
qed

lemma finish_seek_law:
  assumes "cinv c" "cpos c = t" "t = None \<Longrightarrow> \<forall>x \<in> ckeys c. x < k"
  shows "found c (finish_seek ops k c) t"
proof (cases t)
  case None
  with set_max_key_law [OF assms(1), of k] assms show ?thesis
    by (auto simp: finish_seek_def valid_law)
next
  case (Some x)
  with assms sim_refl show ?thesis by (auto simp: finish_seek_def valid_law)
qed

lemma first_key_eq:
  assumes "cinv c" "x \<in> ckeys c" "k \<le> x" "\<forall>y \<in> ckeys c. k \<le> y \<longrightarrow> x \<le> y"
  shows "first_key (view (cur_iter c)) (Included k, Unbounded) = Some x"
  using assms by (simp only: first_key_Some [OF inv_view] in_bounds_simps)

lemma seek_to_first_law:
  assumes "cinv c" "\<not> cur_prefix_seek c"
  shows "\<exists>c'. cursor_seek_to_first ops c = (Inr (cpos c' \<noteq> None), c') \<and> cinv c' \<and> csim c c' \<and>
    cpos c' = first_key (view (cur_iter c)) (Unbounded, Unbounded)"
proof -
  have "\<exists>c'. expect_ok (cursor_move (op_seek_to_first ops) c) = (Inr (cpos c' \<noteq> None), c') \<and> cinv c' \<and>
    csim c c' \<and> cpos c' = first_key (view (cur_iter c)) (Unbounded, Unbounded)"
    using assms(1) by (intro expect_law move_law first) (auto simp: cursor_inv_def)
  with assms(2) show ?thesis by (simp only: cursor_seek_to_first_def if_False)
qed

lemma seek_mixed_law:
  assumes "cinv c" "cur_scan_mode c = Mixed" "fwd (cur_iter c) k"
  shows "found c (cursor_seek ops k c)
    (first_key (view (cur_iter c)) (Included k, Unbounded))"
proof -
  have "seek_target Mixed p m k = first_key m (Included k, Unbounded)" for p m
    by (auto simp: seek_target_def split: option.splits)
  with seek_law [OF assms(1) _ assms(3)] assms(2) show ?thesis by simp
qed

text \<open>The cursor is past the target: the walk backwards and its repair.\<close>

lemma near_seek_back_law:
  assumes inv: "cinv c" and mode: "cur_scan_mode c = Mixed" and fwd: "fwd (cur_iter c) k"
    and p: "cpos c = Some p" "k < p"
  shows "found c (near_seek_back ops k c)
    (first_key (view (cur_iter c)) (Included k, Unbounded))"
    (is "found c _ ?first")
proof -
  obtain over c1 where c1: "near_loop (prev_while_greater ops k) 0 c = (Inr over, c1)" "cinv c1" "csim c c1"
    and stop: "stopped_back over k (cpos c1) (ckeys c)"
    using near_prev_law [OF inv p] by blast
  have view: "view (cur_iter c1) = view (cur_iter c)"
    using c1(3) unfolding cursor_same_def by (metis same_view)
  have c1': "cur_scan_mode c1 = Mixed" "fwd (cur_iter c1) k"
    using c1(3) mode fwd sim_fwd [OF c1(3)] by (auto simp: cursor_same_def)
  have pk: "p \<in> ckeys c" using cpos_mem [OF inv p(1)] .
  note seek1 = seek_mixed_law [OF c1(2) c1', unfolded view]
  consider (seek) "over \<or> cpos c1 = None \<and> cur_prefix_seek c1"
    | (first) "\<not> over" "cpos c1 = None" "\<not> cur_prefix_seek c1"
    | (near) q where "\<not> over" "cpos c1 = Some q" by (cases over; cases "cpos c1") auto
  then have "found c1 (near_seek_back ops k c) ?first"
  proof cases
    case seek
    with c1(1) valid_law [OF c1(2)] have "near_seek_back ops k c = cursor_seek ops k c1"
      by (auto simp: near_seek_back_def)
    with seek1 show ?thesis by (simp only:)
  next
    case first
    obtain c2 where c2: "cursor_seek_to_first ops c1 = (Inr (cpos c2 \<noteq> None), c2)" "cinv c2" "csim c1 c2"
      "cpos c2 = first_key (view (cur_iter c)) (Unbounded, Unbounded)"
      using seek_to_first_law [OF c1(2) first(3)] view by auto
    have "first_key (view (cur_iter c)) (Unbounded, Unbounded) \<noteq> None"
      unfolding first_key_None using pk by auto
    with c2(4) obtain x where x: "cpos c2 = Some x" by auto
    with c2(4) have "x \<in> ckeys c" "\<forall>y \<in> ckeys c. x \<le> y"
      using first_key_Some [OF inv_view [OF inv], of "(Unbounded, Unbounded)" x] by auto
    with first stop have "?first = Some x"
      by (intro first_key_eq [OF inv]) (auto simp: less_imp_le stopped_back_def)
    moreover have "near_seek_back ops k c = (Inr True, c2)"
      using c1(1) first valid_law [OF c1(2)] c2(1) x by (simp add: near_seek_back_def)
    ultimately show ?thesis using c2(2,3) x by auto
  next
    case near
    with stop have q: "q \<le> k" "\<forall>x \<in> ckeys c. q < x \<longrightarrow> k < x" by (auto simp: stopped_back_def)
    have step: "near_seek_back ops k c =
        (if q < k then st_bind (cursor_next ops c1) (\<lambda>_ c. finish_seek ops k c) else finish_seek ops k c1)"
      using c1(1) near valid_law [OF c1(2)] key_law [OF c1(2)] by (simp add: near_seek_back_def)
    show ?thesis
    proof (cases "q < k")
      case False
      with q have "q = k" by simp
      then have "?first = Some q"
        using cpos_mem [OF c1(2) near(2)] by (intro first_key_eq [OF inv]) (auto simp: view)
      with finish_seek_law [OF c1(2) near(2)] step False show ?thesis by simp
    next
      case True
      obtain c2 where c2: "cursor_next ops c1 = (Inr (cpos c2 \<noteq> None), c2)" "cinv c2" "csim c1 c2"
        "cpos c2 = first_key (view (cur_iter c)) (Excluded q, Unbounded)"
        using next_law [OF c1(2) near(2)] view by auto
      have "first_key (view (cur_iter c)) (Excluded q, Unbounded) \<noteq> None"
        unfolding first_key_None using pk p(2) True by (metis in_bounds_simps(2) order_less_trans)
      with c2(4) obtain x where x: "cpos c2 = Some x" by auto
      with c2(4) have "x \<in> ckeys c" "q < x" "\<forall>y \<in> ckeys c. q < y \<longrightarrow> x \<le> y"
        using first_key_Some [OF inv_view [OF inv], of "(Excluded q, Unbounded)" x] by auto
      with q True have "?first = Some x"
        by (intro first_key_eq [OF inv]) (auto simp: less_imp_le)
      with found_trans [OF c2(3) finish_seek_law [OF c2(2) x]] step True c2(1) show ?thesis by simp
    qed
  qed
  then show ?thesis by (rule found_trans [OF c1(3)])
qed

theorem near_seek_law:
  assumes inv: "cinv c" and mode: "cur_scan_mode c \<noteq> Backward" and fwd: "fwd (cur_iter c) k"
  shows "found c (near_seek ops k c) (seek_target (cur_scan_mode c) (cpos c) (view (cur_iter c)) k)"
proof (cases "cpos c")
  case None
  then have "near_seek ops k c = cursor_seek ops k c"
    using mode valid_law [OF inv] by (simp add: near_seek_def)
  with seek_law [OF inv mode fwd] show ?thesis by (simp only:)
next
  case (Some p)
  let ?first = "first_key (view (cur_iter c)) (Included k, Unbounded)"
  have step: "near_seek ops k c =
      (if p = k \<or> cur_scan_mode c = Forward \<and> k < p then (Inr True, c)
       else if beyond_max_key c k then validate_then_false ops k c
       else if k < p then near_seek_back ops k c
       else st_bind (near_loop (next_while_less ops k) 0 c) (\<lambda>over c.
         if over then cursor_seek ops k c else finish_seek ops k c))"
    using mode valid_law [OF inv] key_law [OF inv Some] Some by (simp add: near_seek_def)
  have pk: "p \<in> ckeys c" using cpos_mem [OF inv Some] .
  consider (stay) "p = k \<or> cur_scan_mode c = Forward \<and> k < p"
    | (beyond) "\<not> (p = k \<or> cur_scan_mode c = Forward \<and> k < p)" "beyond_max_key c k"
    | (past) "cur_scan_mode c = Mixed" "\<not> beyond_max_key c k" "k < p"
    | (ahead) "\<not> beyond_max_key c k" "p < k"
    using mode linorder_less_linear [of p k] scan_mode.exhaust [of "cur_scan_mode c"] by blast
  then show ?thesis
  proof cases
    case stay
    have "seek_target (cur_scan_mode c) (cpos c) (view (cur_iter c)) k = Some p"
    proof (cases "cur_scan_mode c = Forward")
      case False
      with stay have "p = k" by simp
      with first_key_eq [OF inv pk] Some False show ?thesis by (simp add: seek_target_def)
    qed (use stay Some in \<open>auto simp: seek_target_def\<close>)
    with stay step inv Some sim_refl show ?thesis by auto
  next
    case beyond
    with validate_law [OF inv] beyond_max_key_law [OF inv beyond(2)] step show ?thesis by simp
  next
    case past
    then have "near_seek ops k c = near_seek_back ops k c"
      "seek_target (cur_scan_mode c) (cpos c) (view (cur_iter c)) k = ?first"
      using step Some by (auto simp: seek_target_def)
    with near_seek_back_law [OF inv past(1) fwd Some past(3)] show ?thesis by (simp only:)
  next
    case ahead
    have target: "seek_target (cur_scan_mode c) (cpos c) (view (cur_iter c)) k = ?first"
      using Some ahead by (auto simp: seek_target_def dest: leD)
    obtain over c1 where c1: "near_loop (next_while_less ops k) 0 c = (Inr over, c1)" "cinv c1" "csim c c1"
      and stop: "stopped_ahead over k (cpos c1) (ckeys c)"
      using near_next_law [OF inv Some ahead(2)] by blast
    have view: "view (cur_iter c1) = view (cur_iter c)"
      using c1(3) unfolding cursor_same_def by (metis same_view)
    have c1': "cur_scan_mode c1 \<noteq> Backward" "cur_scan_mode c1 = cur_scan_mode c" "fwd (cur_iter c1) k"
      using c1(3) mode fwd sim_fwd [OF c1(3)] by (auto simp: cursor_same_def)
    have "found c1 (near_seek ops k c) ?first"
    proof (cases over)
      case True
      with step ahead c1(1) have "near_seek ops k c = cursor_seek ops k c1" by auto
      moreover have "seek_target (cur_scan_mode c1) (cpos c1) (view (cur_iter c1)) k = ?first"
        using stop True by (auto simp: seek_target_def stopped_ahead_def view split: option.splits)
      ultimately show ?thesis using seek_law [OF c1(2) c1'(1,3)] by simp
    next
      case False
      have "cpos c1 = ?first"
      proof (cases "cpos c1")
        case None
        with stop have "\<forall>x \<in> ckeys c. \<not> k \<le> x" by (auto simp: stopped_ahead_def not_le)
        then have "?first = None" unfolding first_key_None by simp
        with None show ?thesis by simp
      next
        case (Some q)
        with stop False have "k \<le> q" "\<forall>y \<in> ckeys c. k \<le> y \<longrightarrow> q \<le> y"
          by (auto simp: stopped_ahead_def)
        with Some first_key_eq [OF inv] cpos_mem [OF c1(2) Some] show ?thesis by (simp add: view)
      qed
      moreover have "\<forall>x \<in> ckeys c1. x < k" if "?first = None"
        using that unfolding first_key_None view by (simp add: not_le)
      ultimately have "found c1 (finish_seek ops k c1) ?first"
        by (intro finish_seek_law [OF c1(2)])
      with step ahead c1(1) False show ?thesis by auto
    qed
    then show ?thesis unfolding target by (rule found_trans [OF c1(3)])
  qed
qed

lemma last_key_eq:
  assumes "cinv c" "x \<in> ckeys c" "x \<le> k" "\<forall>y \<in> ckeys c. y \<le> k \<longrightarrow> y \<le> x"
  shows "last_key (view (cur_iter c)) (Unbounded, Included k) = Some x"
  using assms by (simp only: last_key_Some [OF inv_view] in_bounds_simps)

lemma before_min_key_law:
  assumes "cinv c" "before_min_key c k"
  shows "seek_for_prev_target mode (cpos c) (view (cur_iter c)) k = None"
proof -
  have "\<forall>x \<in> ckeys c. \<not> x \<le> k"
    using assms by (fastforce simp: before_min_key_def cursor_inv_def split: option.splits)
  moreover from this have "last_key (view (cur_iter c)) (Unbounded, Included k) = None"
    unfolding last_key_None by simp
  ultimately show ?thesis
    using cpos_mem [OF assms(1)] by (auto simp: seek_for_prev_target_def split: option.splits)
qed

lemma seek_for_prev_law:
  assumes "cinv c" "cur_scan_mode c \<noteq> Forward" "bwd (cur_iter c) k"
  shows "found c (cursor_seek_for_prev ops k c)
    (seek_for_prev_target (cur_scan_mode c) (cpos c) (view (cur_iter c)) k)"
proof (cases "before_min_key c k")
  case True
  with assms validate_law [OF assms(1)] before_min_key_law [OF assms(1) True] show ?thesis
    by (simp add: cursor_seek_for_prev_def)
next
  case False
  let ?last = "last_key (view (cur_iter c)) (Unbounded, Included k)"
  let ?stay = "cur_scan_mode c = Backward \<and> (case cpos c of Some p \<Rightarrow> p \<le> k | None \<Rightarrow> False)"
  obtain c' where c': "internal_seek_for_prev ops k c = (Inr (cpos c' \<noteq> None), c')" "cinv c'" "csim c c'"
    "cpos c' = ?last"
    using internal_seek_for_prev_law [OF assms(1,3)] by blast
  have step: "cursor_seek_for_prev ops k c =
      (if ?stay then (Inr True, c) else (if ?last \<noteq> None then (Inr True, c') else (Inr False, set_min_key k c')))"
    using assms(2) False c'(1,4) by (simp add: cursor_seek_for_prev_def at_or_before_law [OF assms(1)])
  show ?thesis
  proof (cases ?stay)
    case True
    then obtain p where "cpos c = Some p" "p \<le> k" by (auto split: option.splits)
    with True step assms(1) sim_refl show ?thesis by (auto simp: seek_for_prev_target_def)
  next
    case False
    then have t: "seek_for_prev_target (cur_scan_mode c) (cpos c) (view (cur_iter c)) k = ?last"
      by (auto simp: seek_for_prev_target_def split: option.splits)
    show ?thesis
    proof (cases "?last = None")
      case True
      then have "\<forall>x \<in> ckeys c'. k < x"
        unfolding last_key_None sim_keys [OF c'(3)] by (simp add: not_le)
      with set_min_key_law [OF c'(2)] have "cinv (set_min_key k c')" "csim c (set_min_key k c')"
        using sim_trans [OF c'(3)] by blast+
      with True False step t show ?thesis by auto
    next
      case False
      with step t c' \<open>\<not> ?stay\<close> show ?thesis by auto
    qed
  qed
qed

lemma finish_seek_for_prev_law:
  assumes "cinv c" "cpos c = t" "t = None \<Longrightarrow> \<forall>x \<in> ckeys c. k < x"
  shows "found c (finish_seek_for_prev ops k c) t"
proof (cases t)
  case None
  with set_min_key_law [OF assms(1), of k] assms show ?thesis
    by (auto simp: finish_seek_for_prev_def valid_law)
next
  case (Some x)
  with assms sim_refl show ?thesis by (auto simp: finish_seek_for_prev_def valid_law)
qed

lemma seek_to_last_law:
  assumes "cinv c" "\<not> cur_prefix_seek c"
  shows "\<exists>c'. cursor_seek_to_last ops c = (Inr (cpos c' \<noteq> None), c') \<and> cinv c' \<and> csim c c' \<and>
    cpos c' = last_key (view (cur_iter c)) (Unbounded, Unbounded)"
proof -
  have "\<exists>c'. expect_ok (cursor_move (op_seek_to_last ops) c) = (Inr (cpos c' \<noteq> None), c') \<and> cinv c' \<and>
    csim c c' \<and> cpos c' = last_key (view (cur_iter c)) (Unbounded, Unbounded)"
    using assms(1) by (intro expect_law move_law last) (auto simp: cursor_inv_def)
  with assms(2) show ?thesis by (simp only: cursor_seek_to_last_def if_False)
qed

lemma seek_for_prev_mixed_law:
  assumes "cinv c" "cur_scan_mode c = Mixed" "bwd (cur_iter c) k"
  shows "found c (cursor_seek_for_prev ops k c) (last_key (view (cur_iter c)) (Unbounded, Included k))"
proof -
  have "seek_for_prev_target Mixed p m k = last_key m (Unbounded, Included k)" for p m
    by (auto simp: seek_for_prev_target_def split: option.splits)
  with seek_for_prev_law [OF assms(1) _ assms(3)] assms(2) show ?thesis by simp
qed

lemma near_seek_forward_law:
  assumes inv: "cinv c" and mode: "cur_scan_mode c = Mixed" and bwd: "bwd (cur_iter c) k"
    and p: "cpos c = Some p" "p < k"
  shows "found c (near_seek_forward ops k c) (last_key (view (cur_iter c)) (Unbounded, Included k))"
    (is "found c _ ?last")
proof -
  obtain over c1 where c1: "near_loop (next_while_less ops k) 0 c = (Inr over, c1)" "cinv c1" "csim c c1"
    and stop: "stopped_ahead over k (cpos c1) (ckeys c)"
    using near_next_law [OF inv p] by blast
  have view: "view (cur_iter c1) = view (cur_iter c)"
    using c1(3) unfolding cursor_same_def by (metis same_view)
  have c1': "cur_scan_mode c1 = Mixed" "bwd (cur_iter c1) k"
    using c1(3) mode bwd sim_bwd [OF c1(3)] by (auto simp: cursor_same_def)
  have pk: "p \<in> ckeys c" using cpos_mem [OF inv p(1)] .
  note seek1 = seek_for_prev_mixed_law [OF c1(2) c1', unfolded view]
  consider (seek) "over \<or> cpos c1 = None \<and> cur_prefix_seek c1"
    | (last) "\<not> over" "cpos c1 = None" "\<not> cur_prefix_seek c1"
    | (near) q where "\<not> over" "cpos c1 = Some q" by (cases over; cases "cpos c1") auto
  then have "found c1 (near_seek_forward ops k c) ?last"
  proof cases
    case seek
    with c1(1) valid_law [OF c1(2)] have "near_seek_forward ops k c = cursor_seek_for_prev ops k c1"
      by (auto simp: near_seek_forward_def)
    with seek1 show ?thesis by (simp only:)
  next
    case last
    obtain c2 where c2: "cursor_seek_to_last ops c1 = (Inr (cpos c2 \<noteq> None), c2)" "cinv c2" "csim c1 c2"
      "cpos c2 = last_key (view (cur_iter c)) (Unbounded, Unbounded)"
      using seek_to_last_law [OF c1(2) last(3)] view by auto
    have "last_key (view (cur_iter c)) (Unbounded, Unbounded) \<noteq> None"
      unfolding last_key_None using pk by auto
    with c2(4) obtain x where x: "cpos c2 = Some x" by auto
    with c2(4) have "x \<in> ckeys c" "\<forall>y \<in> ckeys c. y \<le> x"
      using last_key_Some [OF inv_view [OF inv], of "(Unbounded, Unbounded)" x] by auto
    with last stop have "?last = Some x"
      by (intro last_key_eq [OF inv]) (auto simp: less_imp_le stopped_ahead_def)
    moreover have "near_seek_forward ops k c = (Inr True, c2)"
      using c1(1) last valid_law [OF c1(2)] c2(1) x by (simp add: near_seek_forward_def)
    ultimately show ?thesis using c2(2,3) x by auto
  next
    case near
    with stop have q: "k \<le> q" "\<forall>x \<in> ckeys c. x < q \<longrightarrow> x < k" by (auto simp: stopped_ahead_def)
    have step: "near_seek_forward ops k c =
        (if k < q then st_bind (cursor_prev ops c1) (\<lambda>_ c. finish_seek_for_prev ops k c)
         else finish_seek_for_prev ops k c1)"
      using c1(1) near valid_law [OF c1(2)] key_law [OF c1(2)] by (simp add: near_seek_forward_def)
    show ?thesis
    proof (cases "k < q")
      case False
      with q have "q = k" by simp
      then have "?last = Some q"
        using cpos_mem [OF c1(2) near(2)] by (intro last_key_eq [OF inv]) (auto simp: view)
      with finish_seek_for_prev_law [OF c1(2) near(2)] step False show ?thesis by simp
    next
      case True
      obtain c2 where c2: "cursor_prev ops c1 = (Inr (cpos c2 \<noteq> None), c2)" "cinv c2" "csim c1 c2"
        "cpos c2 = last_key (view (cur_iter c)) (Unbounded, Excluded q)"
        using prev_law [OF c1(2) near(2)] view by auto
      have "last_key (view (cur_iter c)) (Unbounded, Excluded q) \<noteq> None"
        unfolding last_key_None using pk p(2) True by (metis in_bounds_simps(4) order_less_trans)
      with c2(4) obtain x where x: "cpos c2 = Some x" by auto
      with c2(4) have "x \<in> ckeys c" "x < q" "\<forall>y \<in> ckeys c. y < q \<longrightarrow> y \<le> x"
        using last_key_Some [OF inv_view [OF inv], of "(Unbounded, Excluded q)" x] by auto
      with q True have "?last = Some x"
        by (intro last_key_eq [OF inv]) (auto simp: less_imp_le)
      with found_trans [OF c2(3) finish_seek_for_prev_law [OF c2(2) x]] step True c2(1) show ?thesis by simp
    qed
  qed
  then show ?thesis by (rule found_trans [OF c1(3)])
qed

theorem near_seek_for_prev_law:
  assumes inv: "cinv c" and mode: "cur_scan_mode c \<noteq> Forward" and bwd: "bwd (cur_iter c) k"
  shows "found c (near_seek_for_prev ops k c)
    (seek_for_prev_target (cur_scan_mode c) (cpos c) (view (cur_iter c)) k)"
proof (cases "cpos c")
  case None
  then have "near_seek_for_prev ops k c = cursor_seek_for_prev ops k c"
    using mode valid_law [OF inv] by (simp add: near_seek_for_prev_def)
  with seek_for_prev_law [OF inv mode bwd] show ?thesis by (simp only:)
next
  case (Some p)
  let ?last = "last_key (view (cur_iter c)) (Unbounded, Included k)"
  have step: "near_seek_for_prev ops k c =
      (if p = k \<or> cur_scan_mode c = Backward \<and> p < k then (Inr True, c)
       else if before_min_key c k then validate_then_false ops k c
       else if p < k then near_seek_forward ops k c
       else st_bind (near_loop (prev_while_greater ops k) 0 c) (\<lambda>over c.
         if over then cursor_seek_for_prev ops k c else finish_seek_for_prev ops k c))"
    using mode valid_law [OF inv] key_law [OF inv Some] Some by (simp add: near_seek_for_prev_def)
  have pk: "p \<in> ckeys c" using cpos_mem [OF inv Some] .
  consider (stay) "p = k \<or> cur_scan_mode c = Backward \<and> p < k"
    | (beyond) "\<not> (p = k \<or> cur_scan_mode c = Backward \<and> p < k)" "before_min_key c k"
    | (past) "cur_scan_mode c = Mixed" "\<not> before_min_key c k" "p < k"
    | (behind) "\<not> before_min_key c k" "k < p"
    using mode linorder_less_linear [of p k] scan_mode.exhaust [of "cur_scan_mode c"] by blast
  then show ?thesis
  proof cases
    case stay
    have "seek_for_prev_target (cur_scan_mode c) (cpos c) (view (cur_iter c)) k = Some p"
    proof (cases "cur_scan_mode c = Backward")
      case False
      with stay have "p = k" by simp
      with last_key_eq [OF inv pk] Some False show ?thesis by (simp add: seek_for_prev_target_def)
    qed (use stay Some in \<open>auto simp: seek_for_prev_target_def\<close>)
    with stay step inv Some sim_refl show ?thesis by auto
  next
    case beyond
    with validate_law [OF inv] before_min_key_law [OF inv beyond(2)] step show ?thesis by simp
  next
    case past
    then have "near_seek_for_prev ops k c = near_seek_forward ops k c"
      "seek_for_prev_target (cur_scan_mode c) (cpos c) (view (cur_iter c)) k = ?last"
      using step Some by (auto simp: seek_for_prev_target_def)
    with near_seek_forward_law [OF inv past(1) bwd Some past(3)] show ?thesis by (simp only:)
  next
    case behind
    have target: "seek_for_prev_target (cur_scan_mode c) (cpos c) (view (cur_iter c)) k = ?last"
      using Some behind by (auto simp: seek_for_prev_target_def dest: leD)
    obtain over c1 where c1: "near_loop (prev_while_greater ops k) 0 c = (Inr over, c1)" "cinv c1" "csim c c1"
      and stop: "stopped_back over k (cpos c1) (ckeys c)"
      using near_prev_law [OF inv Some behind(2)] by blast
    have view: "view (cur_iter c1) = view (cur_iter c)"
      using c1(3) unfolding cursor_same_def by (metis same_view)
    have c1': "cur_scan_mode c1 \<noteq> Forward" "cur_scan_mode c1 = cur_scan_mode c" "bwd (cur_iter c1) k"
      using c1(3) mode bwd sim_bwd [OF c1(3)] by (auto simp: cursor_same_def)
    have "found c1 (near_seek_for_prev ops k c) ?last"
    proof (cases over)
      case True
      with step behind c1(1) have "near_seek_for_prev ops k c = cursor_seek_for_prev ops k c1" by auto
      moreover have "seek_for_prev_target (cur_scan_mode c1) (cpos c1) (view (cur_iter c1)) k = ?last"
        using stop True by (auto simp: seek_for_prev_target_def stopped_back_def view split: option.splits)
      ultimately show ?thesis using seek_for_prev_law [OF c1(2) c1'(1,3)] by simp
    next
      case False
      have "cpos c1 = ?last"
      proof (cases "cpos c1")
        case None
        with stop have "\<forall>x \<in> ckeys c. \<not> x \<le> k" by (auto simp: stopped_back_def not_le)
        then have "?last = None" unfolding last_key_None by simp
        with None show ?thesis by simp
      next
        case (Some q)
        with stop False have "q \<le> k" "\<forall>y \<in> ckeys c. y \<le> k \<longrightarrow> y \<le> q"
          by (auto simp: stopped_back_def)
        with Some last_key_eq [OF inv] cpos_mem [OF c1(2) Some] show ?thesis by (simp add: view)
      qed
      moreover have "\<forall>x \<in> ckeys c1. k < x" if "?last = None"
        using that unfolding last_key_None view by (simp add: not_le)
      ultimately have "found c1 (finish_seek_for_prev ops k c1) ?last"
        by (intro finish_seek_for_prev_law [OF c1(2)])
      with step behind c1(1) False show ?thesis by auto
    qed
    then show ?thesis unfolding target by (rule found_trans [OF c1(3)])
  qed
qed

end

section \<open>Properties of cursors\<close>

text \<open>C34: On the engine's iterators a cursor that steps from its position gives the same answer as
  one that seeks, and both stand on the first key that is not less than the target (a forward
  cursor that is already past the target stays); the invariant on the remembered ends is kept.\<close>

theorem near_seek_is_seek:
  assumes "cursor_inv bi_ok bi_view c" "cur_scan_mode c \<noteq> Backward" "bi_fwd (cur_iter c) k"
    and "t = seek_target (cur_scan_mode c) (bi_pos (cur_iter c)) (bi_view (cur_iter c)) k"
  shows "\<exists>c1 c2. near_seek btree_ops k c = (Inr (t \<noteq> None), c1) \<and>
    cursor_seek btree_ops k c = (Inr (t \<noteq> None), c2) \<and>
    (t \<noteq> None \<longrightarrow> bi_pos (cur_iter c1) = t \<and> bi_pos (cur_iter c2) = t) \<and>
    cursor_inv bi_ok bi_view c1 \<and> bi_view (cur_iter c1) = bi_view (cur_iter c)"
proof -
  obtain c1 where c1: "near_seek btree_ops k c = (Inr (t \<noteq> None), c1)" "cursor_inv bi_ok bi_view c1"
    "cursor_same bi_same c c1" "t \<noteq> None \<longrightarrow> bi_pos (cur_iter c1) = t"
    using btree_iterator.near_seek_law [OF assms(1-3), folded assms(4)] by blast
  obtain c2 where c2: "cursor_seek btree_ops k c = (Inr (t \<noteq> None), c2)"
    "t \<noteq> None \<longrightarrow> bi_pos (cur_iter c2) = t"
    using btree_iterator.seek_law [OF assms(1-3), folded assms(4)] by blast
  have "bi_view (cur_iter c1) = bi_view (cur_iter c)"
    using c1(3) by (simp add: cursor_same_def bi_same_def bi_view_def)
  with c1 c2 show ?thesis by blast
qed

definition sample_cursor :: "btree_iter cursor" where
  "sample_cursor =
     Cursor_new (BTreeEngineIterator_new [([1], [10]), ([3], [30]), ([7], [70])] None None) Mixed False"

lemma sample_cursor_inv: "cursor_inv bi_ok bi_view sample_cursor"
  by (simp add: cursor_inv_def sample_cursor_def Cursor_new_def BTreeEngineIterator_new_def bi_ok_def)

theorem near_seek_is_seek_witness:
  "\<exists>c1 c2. near_seek btree_ops [2] sample_cursor = (Inr True, c1) \<and>
    cursor_seek btree_ops [2] sample_cursor = (Inr True, c2) \<and>
    bi_pos (cur_iter c1) = Some [3] \<and> bi_pos (cur_iter c2) = Some [3]"
proof -
  have "Some [3] = seek_target (cur_scan_mode sample_cursor) (bi_pos (cur_iter sample_cursor))
      (bi_view (cur_iter sample_cursor)) [2]"
    by (simp add: sample_cursor_def Cursor_new_def BTreeEngineIterator_new_def seek_target_def
        bi_pos_def bi_view_def first_key_def range_first_def in_bounds_def)
  from near_seek_is_seek [OF sample_cursor_inv _ _ this] show ?thesis
    by (force simp: sample_cursor_def Cursor_new_def BTreeEngineIterator_new_def bi_fwd_def)
qed



end
