(* ===== verification/Mvcc_Reader.thy ===== *)
theory Mvcc_Reader
  imports Mvcc_Store Txn_Ext Cursor
begin

text \<open>
  Reading the versions of a key, \<^verbatim>\<open>src/storage/mvcc/mod.rs\<close>,
  \<^verbatim>\<open>src/storage/mvcc/reader/mod.rs\<close> and \<^verbatim>\<open>src/storage/mvcc/reader/reader.rs\<close>: the errors of
  the MVCC layer, the snapshot a reader works on, and the point reads of \<^verbatim>\<open>MvccReader\<close> and
  \<^verbatim>\<open>SnapshotReader\<close>.  Here a seek is the first entry of the ordered map at or after a key; the
  theory \<open>Mvcc_Cursor_Reader\<close> has the same reads over cursors and shows that they agree.
  The specification is the map from commit timestamps to records of one user key
  (\<open>versions\<close> of \<open>Mvcc_Store\<close>).
\<close>

section \<open>Errors\<close>

datatype pessimistic_lock_not_found_reason =
    LockTsMismatch | LockMissingAmendFail | LockForUpdateTsMismatch | NonLockKeyConflict

text \<open>The debugging information some errors carry (\<^verbatim>\<open>mvcc_info\<close>) is not modelled.\<close>

datatype mvcc_error =
    MKv kv_error
  | MIo
  | MCodec codec_error
  | KeyIsLocked lock_info
  | BadFormat txn_types_error
  | Committed ts ts bytes
  | PessimisticLockRolledBack ts bytes
  | TxnLockNotFound ts ts bytes
  | TxnNotFound ts bytes
  | LockTypeNotMatch ts bytes bool
  | WriteConflict ts ts ts bytes bytes write_conflict_reason
  | AlreadyExist bytes ts
  | DefaultNotFound bytes
  | CommitTsExpired ts ts bytes ts
  | PessimisticLockNotFound ts bytes pessimistic_lock_not_found_reason
  | CommitTsTooLarge ts ts ts
  | AssertionFailed ts bytes assertion ts ts
  | LockIfExistsFailed ts bytes
  | PrimaryMismatch lock_info
  | GenerationOutOfOrder u64 key lock
  | InvalidMaxTsUpdate ts ts
  | MOther
  | MPanic \<comment> \<open>a \<^verbatim>\<open>panic!\<close> or failed assertion\<close>

text \<open>The conversions of the \<^verbatim>\<open>?\<close> operator.\<close>

fun from_codec_error :: "codec_error \<Rightarrow> mvcc_error" where
  "from_codec_error Panic = MPanic"
| "from_codec_error e = MCodec e"

fun from_txn_types_error :: "txn_types_error \<Rightarrow> mvcc_error" where
  "from_txn_types_error TIo = MIo"
| "from_txn_types_error (TCodec e) = MCodec e"
| "from_txn_types_error BadFormatLock = BadFormat BadFormatLock"
| "from_txn_types_error BadFormatWrite = BadFormat BadFormatWrite"
| "from_txn_types_error (TKeyIsLocked info) = KeyIsLocked info"
| "from_txn_types_error (TWriteConflict a b c k p r) = WriteConflict a b c k p r"
| "from_txn_types_error TPanic = MPanic"

fun from_kv_error :: "kv_error \<Rightarrow> mvcc_error" where
  "from_kv_error KvPanic = MPanic"
| "from_kv_error e = MKv e"

abbreviation try_codec :: "codec_error + 'a \<Rightarrow> ('a \<Rightarrow> mvcc_error + 'b) \<Rightarrow> mvcc_error + 'b" where
  "try_codec r f \<equiv> res_bind (res_map_err from_codec_error r) f"

abbreviation try_types :: "txn_types_error + 'a \<Rightarrow> ('a \<Rightarrow> mvcc_error + 'b) \<Rightarrow> mvcc_error + 'b" where
  "try_types r f \<equiv> res_bind (res_map_err from_txn_types_error r) f"

text \<open>\<^verbatim>\<open>unwrap\<close> of an option, and the assertions of \<^verbatim>\<open>TimeStamp::next\<close> and \<^verbatim>\<open>prev\<close>.\<close>

fun unwrap :: "'a option \<Rightarrow> mvcc_error + 'a" where
  "unwrap None = Inl MPanic"
| "unwrap (Some x) = Inr x"

section \<open>Snapshots and readers\<close>

text \<open>
  A snapshot is the engine with the lock table of the region peer, if there is one.  Of the
  reader's fields the cursors, bounds and cache options are in \<open>Mvcc_Cursor_Reader\<close>.  Two
  fields stand for the environment: the process wide flag that turns a missing value into a
  panic, and the number of \<^verbatim>\<open>next\<close> calls that the statistics count while a reader looks for the
  last change of a key before a timestamp.
\<close>

record snapshot =
  snap_engine :: engine
  snap_txn_ext :: "peer_pessimistic_locks option"

record mvcc_reader =
  rd_snapshot :: snapshot
  rd_term :: u64
  rd_version :: u64
  rd_allow_in_flashback :: bool
  rd_panic_when_unexpected :: bool
  rd_next_count :: "key \<Rightarrow> ts \<Rightarrow> u64"

abbreviation rd_engine :: "mvcc_reader \<Rightarrow> engine" where
  "rd_engine r \<equiv> snap_engine (rd_snapshot r)"

definition MvccReader_new :: "snapshot \<Rightarrow> bool \<Rightarrow> (key \<Rightarrow> ts \<Rightarrow> u64) \<Rightarrow> mvcc_reader" where
  "MvccReader_new s p n =
     \<lparr> rd_snapshot = s, rd_term = 0, rd_version = 0, rd_allow_in_flashback = False,
       rd_panic_when_unexpected = p, rd_next_count = n \<rparr>"

definition default_not_found_error :: "mvcc_reader \<Rightarrow> bytes \<Rightarrow> mvcc_error" where
  "default_not_found_error r k = (if rd_panic_when_unexpected r then MPanic else DefaultNotFound k)"

definition get_value :: "mvcc_reader \<Rightarrow> key \<Rightarrow> ts \<Rightarrow> mvcc_error + value_bytes option" where
  "get_value r k start_ts = Inr (get_cf (rd_engine r) CF_DEFAULT (append_ts k start_ts))"

definition load_data :: "mvcc_reader \<Rightarrow> key \<Rightarrow> write_record \<Rightarrow> mvcc_error + value_bytes" where
  "load_data r k w =
     (if write_type w \<noteq> WTPut then Inl MPanic
      else
        (case write_short_value w of
           Some val \<Rightarrow> Inr val
         | None \<Rightarrow>
             res_bind (get_value r k (write_start_ts w)) (\<lambda>res.
               case res of
                 Some val \<Rightarrow> Inr val
               | None \<Rightarrow> Inl (default_not_found_error r (append_ts k (write_start_ts w))))))"

definition check_term_version_status :: "mvcc_reader \<Rightarrow> peer_pessimistic_locks \<Rightarrow> mvcc_error + unit" where
  "check_term_version_status r locks =
     (if rd_term r \<noteq> 0 \<and> pp_term locks \<noteq> rd_term r then Inl (MKv (KvRequest StaleCommand))
      else if rd_version r \<noteq> 0 \<and> pp_version locks \<noteq> rd_version r then Inl (MKv (KvRequest EpochNotMatch))
      else if pp_status locks = IsInFlashback \<and> \<not> rd_allow_in_flashback r
      then Inl (MKv (KvRequest FlashbackInProgress))
      else Inr ())"

definition load_in_memory_pessimistic_lock :: "mvcc_reader \<Rightarrow> key \<Rightarrow> mvcc_error + lock option" where
  "load_in_memory_pessimistic_lock r k =
     (case snap_txn_ext (rd_snapshot r) of
        Some locks \<Rightarrow>
          res_bind (check_term_version_status r locks) (\<lambda>_.
            Inr (map_option (\<lambda>v. PessimisticLock_to_lock (fst v)) (pp_get locks k)))
      | None \<Rightarrow> Inr None)"

definition load_lock :: "mvcc_reader \<Rightarrow> key \<Rightarrow> mvcc_error + lock option" where
  "load_lock r k =
     res_bind (load_in_memory_pessimistic_lock r k) (\<lambda>mem.
       case mem of
         Some l \<Rightarrow> Inr (Some l)
       | None \<Rightarrow>
           (case get_cf (rd_engine r) CF_LOCK k of
              Some v \<Rightarrow> try_types (Lock_parse v) (\<lambda>l. Inr (Some l))
            | None \<Rightarrow> Inr None))"

section \<open>Seeking a write record\<close>

definition seek_write :: "mvcc_reader \<Rightarrow> key \<Rightarrow> ts \<Rightarrow> mvcc_error + (ts \<times> write_record) option" where
  "seek_write r k t =
     (case first_ge (eng_write (rd_engine r)) (append_ts k t) of
        None \<Rightarrow> Inr None
      | Some (write_key, v) \<Rightarrow>
          try_codec (decode_ts_from write_key) (\<lambda>commit_ts.
            if \<not> is_user_key_eq write_key k then Inr None
            else try_types (Write_parse v) (\<lambda>w. Inr (Some (commit_ts, w)))))"

lemma first_ge_le: "first_ge m k = Some (k', v) \<Longrightarrow> k \<le> k'"
  by (auto simp: first_ge_def range_first_def find_split in_bounds_def)

lemma seek_write_le:
  assumes "seek_write r k t = Inr (Some (c, w))"
  shows "c \<le> t"
proof -
  from assms obtain wk v where "first_ge (eng_write (rd_engine r)) (append_ts k t) = Some (wk, v)"
    and "decode_ts_from wk = Inr c" "is_user_key_eq wk k"
    by (auto simp: seek_write_def split: option.splits if_splits)
  moreover from this(3) obtain c' where "wk = append_ts k c'" by (auto simp: is_user_key_eq_iff)
  ultimately show ?thesis using first_ge_le by (fastforce simp: codec_simps)
qed

lemma ts_prev_less: "ts_prev c = Some t' \<Longrightarrow> c \<le> t \<Longrightarrow> unat t' < unat t"
  by (simp add: ts_prev_eq word_le_nat_alt)

lemma ts_prev_le: "ts_prev c = Some c' \<Longrightarrow> s < c \<Longrightarrow> s \<le> c'"
  by (simp add: ts_prev_eq word_le_nat_alt word_less_nat_alt)

lemma ts_prev_less_imp_le: "ts_prev c = Some c' \<Longrightarrow> c' \<le> c"
  by (simp add: ts_prev_eq word_le_nat_alt)

section \<open>The latest version of a key\<close>

fun check_fence_limit :: "ts option \<Rightarrow> write_record \<Rightarrow> bool" where
  "check_fence_limit None w \<longleftrightarrow> True"
| "check_fence_limit (Some limit) w \<longleftrightarrow> check_gc_fence_as_latest_version w limit"

text \<open>
  The record that a last change points to is a \<^verbatim>\<open>Put\<close> or a \<^verbatim>\<open>Delete\<close>, so the iteration that
  handles it returns.
\<close>

definition follow_last_change ::
    "mvcc_reader \<Rightarrow> key \<Rightarrow> ts \<Rightarrow> ts option \<Rightarrow> mvcc_error + (write_record \<times> ts) option" where
  "follow_last_change r k lc_ts gc_fence_limit =
     (case get_cf (rd_engine r) CF_WRITE (append_ts k lc_ts) of
        None \<Rightarrow> Inr None
      | Some v \<Rightarrow>
          try_types (Write_parse v) (\<lambda>w.
            if \<not> (write_type w = WTPut \<or> write_type w = WTDelete) then Inl MPanic
            else if \<not> check_fence_limit gc_fence_limit w then Inr None
            else if write_type w = WTPut then Inr (Some (w, lc_ts))
            else Inr None))"

function get_write_with_commit_ts ::
    "mvcc_reader \<Rightarrow> key \<Rightarrow> ts \<Rightarrow> ts option \<Rightarrow> mvcc_error + (write_record \<times> ts) option" where
  "get_write_with_commit_ts r k t gc_fence_limit =
     (case seek_write r k t of
        Inl e \<Rightarrow> Inl e
      | Inr None \<Rightarrow> Inr None
      | Inr (Some (commit_ts, w)) \<Rightarrow>
          if \<not> check_fence_limit gc_fence_limit w then Inr None
          else if write_type w = WTPut then Inr (Some (w, commit_ts))
          else if write_type w = WTDelete then Inr None
          else if write_last_change w = LCNotExist then Inr None
          else if (case write_last_change w of LCExist _ n \<Rightarrow> SEEK_BOUND \<le> unat n | _ \<Rightarrow> False)
          then follow_last_change r k (last_change_ts (write_last_change w)) gc_fence_limit
          else if is_zero t then Inr None
          else
            (case ts_prev commit_ts of
               None \<Rightarrow> Inl MPanic
             | Some t' \<Rightarrow> get_write_with_commit_ts r k t' gc_fence_limit))"
  by pat_completeness auto
termination
  by (relation "measure (\<lambda>(r, k, t, l). unat t)") (auto dest!: seek_write_le intro: ts_prev_less)

declare get_write_with_commit_ts.simps [simp del]

definition get_write :: "mvcc_reader \<Rightarrow> key \<Rightarrow> ts \<Rightarrow> ts option \<Rightarrow> mvcc_error + write_record option" where
  "get_write r k t gc_fence_limit =
     res_bind (get_write_with_commit_ts r k t gc_fence_limit) (\<lambda>res. Inr (map_option fst res))"

definition reader_get :: "mvcc_reader \<Rightarrow> key \<Rightarrow> ts \<Rightarrow> ts option \<Rightarrow> mvcc_error + value_bytes option" where
  "reader_get r k t gc_fence_limit =
     res_bind (get_write r k t gc_fence_limit) (\<lambda>res.
       case res of
         Some w \<Rightarrow> res_bind (load_data r k w) (\<lambda>v. Inr (Some v))
       | None \<Rightarrow> Inr None)"

section \<open>The commit record of a transaction\<close>

record overlapped_write =
  ow_write :: "write_record"
  ow_gc_fence :: ts

datatype txn_commit_record =
    RecordNone "overlapped_write option"
  | SingleRecord ts "write_record"
  | OverlappedRollback ts

fun record_exist :: "txn_commit_record \<Rightarrow> bool" where
  "record_exist (RecordNone ow) \<longleftrightarrow> False"
| "record_exist (SingleRecord c w) \<longleftrightarrow> True"
| "record_exist (OverlappedRollback c) \<longleftrightarrow> True"

fun record_info :: "txn_commit_record \<Rightarrow> (ts \<times> write_type) option" where
  "record_info (RecordNone ow) = None"
| "record_info (SingleRecord c w) = Some (c, write_type w)"
| "record_info (OverlappedRollback c) = Some (c, WTRollback)"

fun unwrap_single_record :: "txn_commit_record \<Rightarrow> mvcc_error + ts \<times> write_type" where
  "unwrap_single_record (SingleRecord c w) = Inr (c, write_type w)"
| "unwrap_single_record _ = Inl MPanic"

fun unwrap_overlapped_rollback :: "txn_commit_record \<Rightarrow> mvcc_error + ts" where
  "unwrap_overlapped_rollback (OverlappedRollback c) = Inr c"
| "unwrap_overlapped_rollback _ = Inl MPanic"

fun unwrap_none :: "txn_commit_record \<Rightarrow> mvcc_error + overlapped_write option" where
  "unwrap_none (RecordNone ow) = Inr ow"
| "unwrap_none _ = Inl MPanic"

function commit_record_loop ::
    "mvcc_reader \<Rightarrow> key \<Rightarrow> ts \<Rightarrow> ts \<Rightarrow> ts \<Rightarrow> mvcc_error + txn_commit_record" where
  "commit_record_loop r k start_ts seek_ts gc_fence_ts =
     (case seek_write r k seek_ts of
        Inl e \<Rightarrow> Inl e
      | Inr None \<Rightarrow> Inr (RecordNone None)
      | Inr (Some (commit_ts, w)) \<Rightarrow>
          if write_start_ts w = start_ts then Inr (SingleRecord commit_ts w)
          else if commit_ts = start_ts then
            (if has_overlapped_rollback w then Inr (OverlappedRollback commit_ts)
             else Inr (RecordNone (Some \<lparr> ow_write = w, ow_gc_fence = gc_fence_ts \<rparr>)))
          else if commit_ts < start_ts then Inr (RecordNone None)
          else
            (case ts_prev commit_ts of
               None \<Rightarrow> Inl MPanic
             | Some t' \<Rightarrow>
                 commit_record_loop r k start_ts t'
                   (if write_type w = WTPut \<or> write_type w = WTDelete then commit_ts else gc_fence_ts)))"
  by pat_completeness auto
termination
  by (relation "measure (\<lambda>(r, k, s, t, f). unat t)") (auto dest!: seek_write_le intro: ts_prev_less)

declare commit_record_loop.simps [simp del]

definition get_txn_commit_record :: "mvcc_reader \<Rightarrow> key \<Rightarrow> ts \<Rightarrow> mvcc_error + txn_commit_record" where
  "get_txn_commit_record r k start_ts = commit_record_loop r k start_ts ts_max 0"

section \<open>The old value of a key\<close>

fun old_value_of_put :: "write_record \<Rightarrow> old_value" where
  "old_value_of_put w =
     (case write_short_value w of Some v \<Rightarrow> OldValue v | None \<Rightarrow> OldValueTimeStamp (write_start_ts w))"

definition get_old_value ::
    "mvcc_reader \<Rightarrow> key \<Rightarrow> ts \<Rightarrow> bool \<Rightarrow> write_record option \<Rightarrow> mvcc_error + old_value" where
  "get_old_value r k start_ts prev_write_loaded prev_write =
     (let search = res_bind (get_write r k start_ts (Some start_ts)) (\<lambda>res.
            case res of Some w \<Rightarrow> Inr (old_value_of_put w) | None \<Rightarrow> Inr OldValueNone) in
      if prev_write_loaded \<and> prev_write = None then Inr OldValueNone
      else
        (case prev_write of
           Some w \<Rightarrow>
             if \<not> check_gc_fence_as_latest_version w start_ts then Inr OldValueNone
             else
               (case write_type w of
                  WTPut \<Rightarrow> Inr (old_value_of_put w)
                | WTDelete \<Rightarrow> Inr OldValueNone
                | WTRollback \<Rightarrow> search
                | WTLock \<Rightarrow> search)
         | None \<Rightarrow> search))"

section \<open>Snapshot readers\<close>

record snapshot_reader =
  sr_reader :: mvcc_reader
  sr_start_ts :: ts

definition SnapshotReader_new :: "ts \<Rightarrow> snapshot \<Rightarrow> bool \<Rightarrow> (key \<Rightarrow> ts \<Rightarrow> u64) \<Rightarrow> snapshot_reader" where
  "SnapshotReader_new start_ts s p n = \<lparr> sr_reader = MvccReader_new s p n, sr_start_ts = start_ts \<rparr>"

definition sr_get_txn_commit_record :: "snapshot_reader \<Rightarrow> key \<Rightarrow> mvcc_error + txn_commit_record" where
  "sr_get_txn_commit_record sr k = get_txn_commit_record (sr_reader sr) k (sr_start_ts sr)"

definition sr_load_lock :: "snapshot_reader \<Rightarrow> key \<Rightarrow> mvcc_error + lock option" where
  "sr_load_lock sr k = load_lock (sr_reader sr) k"

definition sr_key_exist :: "snapshot_reader \<Rightarrow> key \<Rightarrow> ts \<Rightarrow> mvcc_error + bool" where
  "sr_key_exist sr k t =
     res_bind (get_write (sr_reader sr) k t (Some (sr_start_ts sr))) (\<lambda>res. Inr (res \<noteq> None))"

definition sr_get :: "snapshot_reader \<Rightarrow> key \<Rightarrow> ts \<Rightarrow> mvcc_error + value_bytes option" where
  "sr_get sr k t = reader_get (sr_reader sr) k t (Some (sr_start_ts sr))"

definition sr_get_write :: "snapshot_reader \<Rightarrow> key \<Rightarrow> ts \<Rightarrow> mvcc_error + write_record option" where
  "sr_get_write sr k t = get_write (sr_reader sr) k t (Some (sr_start_ts sr))"

definition sr_get_write_with_commit_ts ::
    "snapshot_reader \<Rightarrow> key \<Rightarrow> ts \<Rightarrow> mvcc_error + (write_record \<times> ts) option" where
  "sr_get_write_with_commit_ts sr k t =
     get_write_with_commit_ts (sr_reader sr) k t (Some (sr_start_ts sr))"

definition sr_seek_write :: "snapshot_reader \<Rightarrow> key \<Rightarrow> ts \<Rightarrow> mvcc_error + (ts \<times> write_record) option" where
  "sr_seek_write sr k t = seek_write (sr_reader sr) k t"

definition sr_load_data :: "snapshot_reader \<Rightarrow> key \<Rightarrow> write_record \<Rightarrow> mvcc_error + value_bytes" where
  "sr_load_data sr k w = load_data (sr_reader sr) k w"

definition sr_get_old_value ::
    "snapshot_reader \<Rightarrow> key \<Rightarrow> ts \<Rightarrow> bool \<Rightarrow> write_record option \<Rightarrow> mvcc_error + old_value" where
  "sr_get_old_value sr k t prev_write_loaded prev_write =
     get_old_value (sr_reader sr) k t prev_write_loaded prev_write"

lemmas snapshot_reader_defs =
  sr_get_txn_commit_record_def sr_load_lock_def sr_key_exist_def sr_get_def sr_get_write_def
  sr_get_write_with_commit_ts_def sr_seek_write_def sr_load_data_def sr_get_old_value_def

section \<open>Correctness of the point reads\<close>

lemma seek_write_eq:
  assumes "wf_engine (rd_engine r)"
  shows "seek_write r (Key_from_raw u) t = Inr (latest (versions (rd_engine r) u) t)"
proof -
  let ?e = "rd_engine r" and ?k = "append_ts (Key_from_raw u)"
  let ?m = "eng_write ?e"
  have tree: "tree_inv ?m" using assms by (simp add: wf_engine_def)
  have get: "tree_get ?m x = get_cf ?e CF_WRITE x" for x by (simp add: get_cf_def)
  have keys: "\<exists>u s. x = append_ts (Key_from_raw u) s" if "tree_get ?m x \<noteq> None" for x
    using that wf_engine_write [OF assms, of x] unfolding get by blast
  have ver: "versions ?e u s = None \<longleftrightarrow> tree_get ?m (?k s) = None"
    "versions ?e u s = Some w \<Longrightarrow> tree_get ?m (?k s) = Some (Write_to_bytes w) \<and> wf_write w" for s w
    using versions_cases [OF assms, of u s] unfolding get by auto
  note seek = btree.seek_version [of ?m, OF tree keys] btree.seek_version_none [of ?m, OF tree keys]
  show ?thesis
  proof (cases "latest (versions ?e u) t")
    case (Some p)
    obtain c w where p: "p = (c, w)" by (cases p)
    with Some have c: "c \<le> t" "versions ?e u c = Some w"
      "\<And>c'. c < c' \<Longrightarrow> c' \<le> t \<Longrightarrow> versions ?e u c' = None" by (simp_all add: latest_Some)
    then have "first_ge ?m (?k t) = Some (?k c, Write_to_bytes w)"
      by (intro seek(1) [THEN iffD2]) (use ver(2) [OF c(2)] in \<open>simp_all add: ver(1)\<close>)
    with ver(2) [OF c(2)] Some p show ?thesis
      by (simp add: seek_write_def decode_ts_append_ts Write_parse_to_bytes is_user_key_eq_iff)
  next
    case None
    then have "\<not> (\<exists>c \<le> t. tree_get ?m (?k c) \<noteq> None)" by (simp add: latest_None ver(1))
    then have no: "first_ge ?m (?k t) \<noteq> Some (?k c, v)" for c v
      using seek(2) [THEN iffD1] by metis
    show ?thesis
    proof (cases "first_ge ?m (?k t)")
      case (Some q)
      obtain wk v where q: "q = (wk, v)" by (cases q)
      then have "tree_get ?m wk \<noteq> None" using Some first_ge_Some [OF tree] by simp
      then obtain x s where "wk = append_ts (Key_from_raw x) s" using keys by blast
      with Some q no None show ?thesis
        by (simp add: seek_write_def decode_ts_append_ts is_user_key_eq_iff) auto
    qed (simp add: seek_write_def None)
  qed
qed

lemma load_lock_eq:
  assumes "wf_engine (rd_engine r)" "snap_txn_ext (rd_snapshot r) = None"
  shows "load_lock r (Key_from_raw u) = Inr (lock_of (rd_engine r) u)"
  using lock_of_cases [OF assms(1), of u] assms(2)
  by (auto simp: load_lock_def load_in_memory_pessimistic_lock_def Lock_parse_to_bytes)

section \<open>The visible version\<close>

definition is_data :: "write_record \<Rightarrow> bool" where
  "is_data w \<longleftrightarrow> write_type w = WTPut \<or> write_type w = WTDelete"

definition data :: "(ts \<Rightarrow> write_record option) \<Rightarrow> ts \<Rightarrow> write_record option" where
  "data vs c = (case vs c of None \<Rightarrow> None | Some w \<Rightarrow> if is_data w then Some w else None)"

text \<open>The newest \<^verbatim>\<open>Put\<close> or \<^verbatim>\<open>Delete\<close> decides what a read at \<open>t\<close> sees.\<close>

definition visible :: "(ts \<Rightarrow> write_record option) \<Rightarrow> ts option \<Rightarrow> ts \<Rightarrow> (write_record \<times> ts) option" where
  "visible vs gc_fence_limit t =
     (case latest (data vs) t of
        None \<Rightarrow> None
      | Some (c, w) \<Rightarrow>
          if write_type w = WTPut \<and> check_fence_limit gc_fence_limit w then Some (w, c) else None)"

text \<open>
  What the pointers to the last change promise: a \<^verbatim>\<open>Lock\<close> or \<^verbatim>\<open>Rollback\<close> record that says
  that the key does not exist is above no visible \<^verbatim>\<open>Put\<close>, and one that names a timestamp
  names the newest data record below it, or one that has been collected, in which case nothing
  is visible.
\<close>

definition lc_ok :: "(ts \<Rightarrow> write_record option) \<Rightarrow> bool" where
  "lc_ok vs \<longleftrightarrow>
     (\<forall>c w. vs c = Some w \<longrightarrow> \<not> is_data w \<longrightarrow>
        (case write_last_change w of
           LCUnknown \<Rightarrow> True
         | LCNotExist \<Rightarrow> visible vs None c = None
         | LCExist lc n \<Rightarrow>
             (case vs lc of
                None \<Rightarrow> visible vs None c = None
              | Some w' \<Rightarrow> latest (data vs) c = Some (lc, w'))))"

text \<open>The records between the newest data record and \<open>t\<close> do not trip over their GC fence.\<close>

definition fences_clear :: "(ts \<Rightarrow> write_record option) \<Rightarrow> ts option \<Rightarrow> ts \<Rightarrow> bool" where
  "fences_clear vs gc_fence_limit t \<longleftrightarrow>
     (\<forall>c w. c \<le> t \<longrightarrow> vs c = Some w \<longrightarrow> \<not> is_data w \<longrightarrow>
        latest (data vs) c = latest (data vs) t \<longrightarrow> check_fence_limit gc_fence_limit w)"

lemma fences_clear_None [simp]: "fences_clear vs None t"
  by (simp add: fences_clear_def)

lemma data_None: "vs c = None \<Longrightarrow> data vs c = None"
  by (simp add: data_def)

lemma data_Some: "data vs c = Some w \<longleftrightarrow> vs c = Some w \<and> is_data w"
  by (auto simp: data_def split: option.splits if_splits)

lemma visible_None_limit: "visible vs None t = None \<Longrightarrow> visible vs l t = None"
  by (auto simp: visible_def split: option.splits prod.splits if_splits)

lemma visible_eq: "latest (data vs) t = latest (data vs) t' \<Longrightarrow> visible vs l t = visible vs l t'"
  by (simp add: visible_def)

lemma fences_clearD:
  "fences_clear vs l t \<Longrightarrow> c \<le> t \<Longrightarrow> vs c = Some w \<Longrightarrow> \<not> is_data w \<Longrightarrow>
   latest (data vs) c = latest (data vs) t \<Longrightarrow> check_fence_limit l w"
  unfolding fences_clear_def by blast

lemma fences_clear_mono:
  assumes "fences_clear vs l t" "t' \<le> t" "latest (data vs) t' = latest (data vs) t"
  shows "fences_clear vs l t'"
  unfolding fences_clear_def
proof (intro allI impI)
  fix c w
  assume c: "c \<le> t'" "vs c = Some w" "\<not> is_data w" "latest (data vs) c = latest (data vs) t'"
  show "check_fence_limit l w"
    by (rule fences_clearD [OF assms(1) order_trans [OF c(1) assms(2)] c(2,3)])
      (simp only: c(4) assms(3))
qed

lemma latest_data_at:
  assumes "latest vs t = Some (c, w)"
  shows "latest (data vs) t = latest (data vs) c"
  using assms by (intro latest_skip) (simp_all add: latest_Some data_None)

lemma latest_data_self:
  assumes "vs c = Some w" "is_data w"
  shows "latest (data vs) c = Some (c, w)"
  unfolding latest_Some data_Some using assms by (auto dest: leD)

lemma lc_ok_at:
  assumes "lc_ok vs" "vs c = Some w" "\<not> is_data w"
  shows "case write_last_change w of LCUnknown \<Rightarrow> True
    | LCNotExist \<Rightarrow> visible vs None c = None
    | LCExist lc n \<Rightarrow>
        (case vs lc of None \<Rightarrow> visible vs None c = None | Some w' \<Rightarrow> latest (data vs) c = Some (lc, w'))"
  by (rule assms(1) [unfolded lc_ok_def, THEN spec, THEN spec, THEN mp, THEN mp, OF assms(2,3)])

lemma follow_last_change_eq:
  assumes wf: "wf_engine (rd_engine r)" and vs: "vs = versions (rd_engine r) u"
    and lc: "lc_ok vs" "vs c = Some w" "\<not> is_data w" "write_last_change w = LCExist lc n"
  shows "follow_last_change r (Key_from_raw u) lc l = Inr (visible vs l c)"
proof -
  have lc': "case vs lc of None \<Rightarrow> visible vs None c = None | Some w' \<Rightarrow> latest (data vs) c = Some (lc, w')"
    using lc_ok_at [OF lc(1-3)] by (simp add: lc(4))
  from versions_cases [OF wf, of u lc] show ?thesis
  proof
    assume "get_cf (rd_engine r) CF_WRITE (append_ts (Key_from_raw u) lc) = None \<and>
      versions (rd_engine r) u lc = None"
    with lc' vs show ?thesis by (simp add: follow_last_change_def visible_None_limit)
  next
    assume "\<exists>w. get_cf (rd_engine r) CF_WRITE (append_ts (Key_from_raw u) lc) = Some (Write_to_bytes w) \<and>
      wf_write w \<and> versions (rd_engine r) u lc = Some w"
    then obtain w' where w': "get_cf (rd_engine r) CF_WRITE (append_ts (Key_from_raw u) lc) = Some (Write_to_bytes w')"
      "wf_write w'" "versions (rd_engine r) u lc = Some w'" by blast
    with lc' vs have last: "latest (data vs) c = Some (lc, w')" by simp
    then have "is_data w'" by (simp add: latest_Some data_Some)
    with w' last show ?thesis
      by (simp add: follow_last_change_def Write_parse_to_bytes visible_def is_data_def)
  qed
qed

lemma get_write_with_commit_ts_eq:
  assumes "wf_engine (rd_engine r)" "vs = versions (rd_engine r) u" "lc_ok vs" "vs 0 = None"
    and "fences_clear vs l t"
  shows "get_write_with_commit_ts r (Key_from_raw u) t l = Inr (visible vs l t)"
  using assms
proof (induction r "Key_from_raw u" t l rule: get_write_with_commit_ts.induct)
  case (1 r t l)
  note seek = seek_write_eq [OF "1.prems"(1), of u t, folded "1.prems"(2)]
  show ?case
  proof (cases "latest vs t")
    case None
    then have "latest (data vs) t = None" by (simp add: latest_None data_None)
    then show ?thesis
      by (subst get_write_with_commit_ts.simps) (simp add: seek None visible_def)
  next
    case (Some p)
    obtain c w where p: "p = (c, w)" by (cases p)
    then have c: "latest vs t = Some (c, w)" "c \<le> t" "vs c = Some w"
      using Some by (simp_all add: latest_Some)
    note at = latest_data_at [OF c(1)]
    show ?thesis
    proof (cases "is_data w")
      case True
      then show ?thesis
        by (subst get_write_with_commit_ts.simps)
          (auto simp: seek c(1) visible_def at latest_data_self [of vs, OF c(3) True] is_data_def)
    next
      case False
      then have fence: "check_fence_limit l w"
        by (rule fences_clearD [OF "1.prems"(5) c(2,3)]) (rule at [symmetric])
      have type: "write_type w \<noteq> WTPut" "write_type w \<noteq> WTDelete"
        using False by (auto simp: is_data_def)
      have vis: "visible vs l t = visible vs l c" by (rule visible_eq [OF at])
      have "t \<noteq> 0" using c(2,3) "1.prems"(4) by auto
      then have nz: "\<not> is_zero t" by (simp add: is_zero_def)
      have "c \<noteq> 0" using c(3) "1.prems"(4) by auto
      then obtain c' where c': "ts_prev c = Some c'" by (auto simp: ts_prev_def word_gt_0)
      have prev: "latest (data vs) c = latest (data vs) c'"
        using c(3) False by (intro latest_prev [OF _ c']) (simp add: data_def)
      have "c' \<le> c" using c' by (simp add: ts_prev_eq word_le_nat_alt)
      then have clear: "fences_clear vs l c'"
        using c(2) by (intro fences_clear_mono [OF "1.prems"(5)]) (simp_all only: at prev order_trans)
      show ?thesis
      proof (cases "write_last_change w")
        case LCNotExist
        then have "visible vs l c = None"
          using lc_ok_at [OF "1.prems"(3) c(3) False] by (simp add: visible_None_limit)
        with LCNotExist show ?thesis
          by (subst get_write_with_commit_ts.simps) (simp add: seek c(1) fence type vis)
      next
        case (LCExist lc n)
        note jump = follow_last_change_eq [OF "1.prems"(1-3) c(3) False LCExist]
        show ?thesis
        proof (cases "SEEK_BOUND \<le> unat n")
          case True
          then show ?thesis
            by (subst get_write_with_commit_ts.simps) (simp add: seek c(1) fence type vis LCExist jump)
        next
          case far: False
          have "get_write_with_commit_ts r (Key_from_raw u) c' l = Inr (visible vs l c')"
            by (rule "1.hyps" [of "Some (c, w)" "(c, w)" c w])
              (use seek c fence type LCExist far nz c' clear "1.prems" in simp_all)
          with far show ?thesis
            by (subst get_write_with_commit_ts.simps)
              (simp add: seek c(1) fence type vis LCExist nz c' visible_eq [OF prev])
        qed
      next
        case LCUnknown
        have "get_write_with_commit_ts r (Key_from_raw u) c' l = Inr (visible vs l c')"
          by (rule "1.hyps" [of "Some (c, w)" "(c, w)" c w])
            (use seek c fence type LCUnknown nz c' clear "1.prems" in simp_all)
        then show ?thesis
          by (subst get_write_with_commit_ts.simps)
            (simp add: seek c(1) fence type vis LCUnknown nz c' visible_eq [OF prev])
      qed
    qed
  qed
qed

section \<open>The commit record of a transaction, specified\<close>

definition own :: "(ts \<Rightarrow> write_record option) \<Rightarrow> ts \<Rightarrow> ts \<Rightarrow> write_record option" where
  "own vs s c = (case vs c of None \<Rightarrow> None | Some w \<Rightarrow> if write_start_ts w = s then Some w else None)"

text \<open>The first data record after a timestamp, 0 if there is none.\<close>

definition next_data :: "(ts \<Rightarrow> write_record option) \<Rightarrow> ts \<Rightarrow> ts" where
  "next_data vs t = (let S = {c. t < c \<and> data vs c \<noteq> None} in if S = {} then 0 else Min S)"

definition commit_record :: "(ts \<Rightarrow> write_record option) \<Rightarrow> ts \<Rightarrow> txn_commit_record" where
  "commit_record vs s =
     (case latest (own vs s) ts_max of
        Some (c, w) \<Rightarrow> SingleRecord c w
      | None \<Rightarrow>
          (case vs s of
             None \<Rightarrow> RecordNone None
           | Some w \<Rightarrow>
               if has_overlapped_rollback w then OverlappedRollback s
               else RecordNone (Some \<lparr> ow_write = w, ow_gc_fence = next_data vs s \<rparr>)))"

text \<open>No transaction commits or rolls back below its start.\<close>

definition starts_ok :: "(ts \<Rightarrow> write_record option) \<Rightarrow> bool" where
  "starts_ok vs \<longleftrightarrow> (\<forall>c w. vs c = Some w \<longrightarrow> write_start_ts w \<le> c)"

lemma starts_okD: "starts_ok vs \<Longrightarrow> vs c = Some w \<Longrightarrow> write_start_ts w \<le> c"
  unfolding starts_ok_def by blast

lemma own_Some: "own vs s c = Some w \<longleftrightarrow> vs c = Some w \<and> write_start_ts w = s"
  by (auto simp: own_def split: option.splits if_splits)

lemma own_None: "own vs s c = None \<longleftrightarrow> (\<forall>w. vs c = Some w \<longrightarrow> write_start_ts w \<noteq> s)"
  by (auto simp: own_def split: option.splits)

lemma le_ts_max [simp]: "(t :: ts) \<le> ts_max"
  by (simp add: ts_max_def)

lemma next_data_cong:
  "(\<And>c. t < c \<and> data vs c \<noteq> None \<longleftrightarrow> t' < c \<and> data vs c \<noteq> None) \<Longrightarrow> next_data vs t = next_data vs t'"
  unfolding next_data_def by simp

lemma next_data_skip:
  assumes "t' \<le> t" "\<And>c. t' < c \<Longrightarrow> c \<le> t \<Longrightarrow> data vs c = None"
  shows "next_data vs t' = next_data vs t"
proof (rule next_data_cong)
  fix c
  show "t' < c \<and> data vs c \<noteq> None \<longleftrightarrow> t < c \<and> data vs c \<noteq> None"
    using assms(1) assms(2) [of c] by (cases "c \<le> t") (auto simp: not_le dest: le_less_trans)
qed

lemma ts_prev_above: "ts_prev c = Some t' \<Longrightarrow> t' < x \<longleftrightarrow> c \<le> x"
  by (simp add: ts_prev_eq word_le_nat_alt word_less_nat_alt Suc_le_eq)

lemma next_data_at:
  assumes "data vs c = Some w" "ts_prev c = Some t'"
  shows "next_data vs t' = c"
proof -
  have "Min {x. t' < x \<and> data vs x \<noteq> None} = c"
    by (rule Min_eqI) (use assms in \<open>auto simp: ts_prev_above\<close>)
  with assms show ?thesis by (auto simp: next_data_def ts_prev_above)
qed

lemma commit_record_single:
  assumes "vs c = Some w" "write_start_ts w = s" "\<And>c'. c < c' \<Longrightarrow> own vs s c' = None"
  shows "commit_record vs s = SingleRecord c w"
proof -
  have "latest (own vs s) ts_max = Some (c, w)"
    unfolding latest_Some own_Some using assms by simp
  then show ?thesis by (simp add: commit_record_def)
qed

lemma commit_record_other:
  assumes "starts_ok vs" "\<And>c. s \<le> c \<Longrightarrow> own vs s c = None"
  shows "commit_record vs s =
    (case vs s of
       None \<Rightarrow> RecordNone None
     | Some w \<Rightarrow>
         if has_overlapped_rollback w then OverlappedRollback s
         else RecordNone (Some \<lparr> ow_write = w, ow_gc_fence = next_data vs s \<rparr>))"
proof -
  have "own vs s c = None" for c
  proof (cases "s \<le> c")
    case False
    then show ?thesis unfolding own_None using starts_okD [OF assms(1)] by auto
  qed (rule assms(2))
  then have "latest (own vs s) ts_max = None" by (simp add: latest_None)
  then show ?thesis by (simp add: commit_record_def)
qed

lemma commit_record_loop_eq:
  assumes "wf_engine (rd_engine r)" "vs = versions (rd_engine r) u" "starts_ok vs"
    and "s \<le> t" "\<And>c. t < c \<Longrightarrow> own vs s c = None" "f = next_data vs t"
  shows "commit_record_loop r (Key_from_raw u) s t f = Inr (commit_record vs s)"
  using assms
proof (induction r "Key_from_raw u" s t f rule: commit_record_loop.induct)
  case (1 r s t f)
  note seek = seek_write_eq [OF "1.prems"(1), of u t, folded "1.prems"(2)]
  show ?case
  proof (cases "latest vs t")
    case None
    then have none: "vs c = None" if "c \<le> t" for c using that by (simp add: latest_None)
    have "own vs s c = None" for c
      using none "1.prems"(5) [of c] by (cases "c \<le> t") (simp_all add: own_def not_le)
    then have "commit_record vs s = RecordNone None"
      using commit_record_other [OF "1.prems"(3), of s] none [OF "1.prems"(4)] by simp
    then show ?thesis by (subst commit_record_loop.simps) (simp add: seek None)
  next
    case (Some p)
    obtain c w where p: "p = (c, w)" by (cases p)
    then have c: "latest vs t = Some (c, w)" "c \<le> t" "vs c = Some w"
      "\<And>c'. c < c' \<Longrightarrow> c' \<le> t \<Longrightarrow> vs c' = None"
      using Some by (simp_all add: latest_Some)
    have above: "own vs s c' = None" if "c < c'" for c'
      using c(4) [OF that] "1.prems"(5) [of c'] by (cases "c' \<le> t") (simp_all add: own_def not_le)
    have fence: "next_data vs c = f"
      unfolding "1.prems"(6) by (rule next_data_skip [OF c(2)]) (simp add: c(4) data_None)
    show ?thesis
    proof (cases "write_start_ts w = s")
      case True
      then show ?thesis
        by (subst commit_record_loop.simps)
          (simp add: seek c(1) commit_record_single [of vs, OF c(3) True above])
    next
      case False
      then have own: "own vs s c' = None" if "c \<le> c'" for c'
        using that above [of c'] c(3) by (cases "c = c'") (auto simp: own_def)
      consider "c = s" | "c < s" | "s < c" by fastforce
      then show ?thesis
      proof cases
        case 1
        then show ?thesis
          using commit_record_other [OF "1.prems"(3), of s] own c(3) fence False
          by (subst commit_record_loop.simps) (simp add: seek c(1))
      next
        case 2
        then have "vs s = None" by (rule c(4) [OF _ "1.prems"(4)])
        with 2 show ?thesis
          using commit_record_other [OF "1.prems"(3), of s] own False
          by (subst commit_record_loop.simps) (simp add: seek c(1))
      next
        case 3
        then have "c \<noteq> 0" by auto
        then obtain c' where c': "ts_prev c = Some c'" by (auto simp: ts_prev_def word_gt_0)
        let ?f = "if write_type w = WTPut \<or> write_type w = WTDelete then c else f"
        have "?f = next_data vs c'"
        proof (cases "is_data w")
          case True
          then show ?thesis
            using next_data_at [OF _ c', of vs w] c(3) by (simp add: data_Some is_data_def)
        next
          case nodata: False
          have "next_data vs c' = next_data vs c"
            by (rule next_data_skip)
              (use c' nodata c(3) in \<open>auto simp: ts_prev_above ts_prev_less_imp_le data_def\<close>)
          with nodata fence show ?thesis by (simp add: is_data_def)
        qed
        then have "commit_record_loop r (Key_from_raw u) s c' ?f = Inr (commit_record vs s)"
          using seek c(1) False 3 c' own "1.prems"(1-3)
          by (intro "1.hyps" [of "Some (c, w)" "(c, w)" c w]) (auto simp: ts_prev_above ts_prev_le)
        moreover have "\<not> c < s" "c \<noteq> s" using 3 by auto
        ultimately show ?thesis
          using False c' by (subst commit_record_loop.simps) (simp add: seek c(1))
      qed
    qed
  qed
qed

lemma get_txn_commit_record_eq:
  assumes "wf_engine (rd_engine r)" "starts_ok (versions (rd_engine r) u)"
  shows "get_txn_commit_record r (Key_from_raw u) s = Inr (commit_record (versions (rd_engine r) u) s)"
proof -
  have no: "\<not> ts_max < c" for c unfolding not_less by (rule le_ts_max)
  show ?thesis
    unfolding get_txn_commit_record_def
    by (rule commit_record_loop_eq [OF assms(1) refl assms(2) le_ts_max]) (simp_all add: no next_data_def)
qed

section \<open>Reading a value\<close>

text \<open>Every \<^verbatim>\<open>Put\<close> without a short value has its value in the default family.\<close>

definition values_ok :: "engine \<Rightarrow> bytes \<Rightarrow> bool" where
  "values_ok e u \<longleftrightarrow>
     (\<forall>c w. versions e u c = Some w \<longrightarrow> write_type w = WTPut \<longrightarrow> write_short_value w = None \<longrightarrow>
        value_of e u (write_start_ts w) \<noteq> None)"

definition read_value :: "engine \<Rightarrow> bytes \<Rightarrow> ts option \<Rightarrow> ts \<Rightarrow> value_bytes option" where
  "read_value e u gc_fence_limit t =
     (case visible (versions e u) gc_fence_limit t of
        None \<Rightarrow> None
      | Some (w, c) \<Rightarrow>
          (case write_short_value w of Some v \<Rightarrow> Some v | None \<Rightarrow> value_of e u (write_start_ts w)))"

text \<open>The versions of a key that readers rely on.\<close>

definition wf_versions :: "(ts \<Rightarrow> write_record option) \<Rightarrow> bool" where
  "wf_versions vs \<longleftrightarrow> lc_ok vs \<and> vs 0 = None"

lemma visible_Some:
  "visible vs l t = Some (w, c) \<Longrightarrow> vs c = Some w \<and> write_type w = WTPut \<and> c \<le> t"
  by (auto simp: visible_def latest_Some data_Some split: option.splits prod.splits if_splits)

lemma values_okD:
  "values_ok e u \<Longrightarrow> versions e u c = Some w \<Longrightarrow> write_type w = WTPut \<Longrightarrow> write_short_value w = None \<Longrightarrow>
   \<exists>v. value_of e u (write_start_ts w) = Some v"
  unfolding values_ok_def by blast

lemma load_data_eq:
  assumes "values_ok (rd_engine r) u" "versions (rd_engine r) u c = Some w" "write_type w = WTPut"
  shows "\<exists>v. load_data r (Key_from_raw u) w = Inr v \<and>
    (case write_short_value w of Some v \<Rightarrow> Some v | None \<Rightarrow> value_of (rd_engine r) u (write_start_ts w)) = Some v"
proof (cases "write_short_value w")
  case None
  from values_okD [OF assms None] obtain v where v: "value_of (rd_engine r) u (write_start_ts w) = Some v" ..
  with None assms(3) show ?thesis by (simp add: load_data_def get_value_def value_of_def)
qed (simp add: load_data_def assms(3))

lemma reader_get_eq:
  assumes "wf_engine (rd_engine r)" "wf_versions (versions (rd_engine r) u)" "values_ok (rd_engine r) u"
    and "fences_clear (versions (rd_engine r) u) l t"
  shows "reader_get r (Key_from_raw u) t l = Inr (read_value (rd_engine r) u l t)"
proof -
  let ?vs = "versions (rd_engine r) u"
  have get: "get_write r (Key_from_raw u) t l = Inr (map_option fst (visible ?vs l t))"
    using get_write_with_commit_ts_eq [OF assms(1) refl _ _ assms(4)] assms(2)
    by (simp add: get_write_def wf_versions_def)
  show ?thesis
  proof (cases "visible ?vs l t")
    case (Some p)
    obtain w c where p: "p = (w, c)" by (cases p)
    with Some visible_Some [of ?vs l t w c] have "?vs c = Some w" "write_type w = WTPut" by auto
    from load_data_eq [OF assms(3) this] Some p show ?thesis
      by (auto simp: reader_get_def get read_value_def)
  qed (simp add: reader_get_def get read_value_def)
qed

section \<open>Properties of the point reads\<close>

definition sample_store :: engine where
  "sample_store =
     map_cf_tree (tree_insert (append_ts (Key_from_raw [107]) 20)
         (Write_to_bytes ((Write_new WTLock 15 None)\<lparr>write_last_change := LCExist 10 9\<rparr>))) CF_WRITE
       (map_cf_tree (tree_insert (append_ts (Key_from_raw [107]) 10)
         (Write_to_bytes (Write_new WTPut 5 (Some [42])))) CF_WRITE engine_new)"

definition sample_reader :: mvcc_reader where
  "sample_reader = MvccReader_new \<lparr> snap_engine = sample_store, snap_txn_ext = None \<rparr> False (\<lambda>_ _. 0)"

lemma wf_sample_writes:
  "wf_write (Write_new WTPut 5 (Some [42]))"
  "wf_write ((Write_new WTLock 15 None)\<lparr>write_last_change := LCExist 10 9\<rparr>)"
  by (simp_all add: wf_write_def Write_new_def is_short_value_def SHORT_VALUE_MAX_LEN_def)

lemma sample_reader_engine: "rd_engine sample_reader = sample_store"
  by (simp add: sample_reader_def MvccReader_new_def)

lemma wf_sample_store: "wf_engine sample_store"
  by (simp add: sample_store_def wf_sample_writes)

lemma versions_sample_store:
  "versions sample_store u t =
     (if u = [107] \<and> t = 20 then Some ((Write_new WTLock 15 None)\<lparr>write_last_change := LCExist 10 9\<rparr>)
      else if u = [107] \<and> t = 10 then Some (Write_new WTPut 5 (Some [42]))
      else None)"
  by (simp add: sample_store_def store_simps wf_sample_writes)

text \<open>C22: \<^verbatim>\<open>seek_write\<close> returns the newest record of the key at or below the timestamp, and nothing
  only when there is none; records of other keys and newer records never interfere.\<close>

theorem seek_write_correct:
  assumes "wf_engine (rd_engine r)"
  shows "(seek_write r (Key_from_raw u) t = Inr (Some (c, w)) \<longleftrightarrow>
      c \<le> t \<and> versions (rd_engine r) u c = Some w \<and>
      (\<forall>c'. c < c' \<longrightarrow> c' \<le> t \<longrightarrow> versions (rd_engine r) u c' = None)) \<and>
    (seek_write r (Key_from_raw u) t = Inr None \<longleftrightarrow> (\<forall>c \<le> t. versions (rd_engine r) u c = None))"
  unfolding seek_write_eq [OF assms] by (simp add: latest_Some latest_None)

theorem seek_write_correct_witness:
  "seek_write sample_reader (Key_from_raw [107]) 15 = Inr (Some (10, Write_new WTPut 5 (Some [42]))) \<and>
   seek_write sample_reader (Key_from_raw [107]) 9 = Inr None"
proof -
  have wf: "wf_engine (rd_engine sample_reader)" by (simp add: sample_reader_engine wf_sample_store)
  have "(10 :: ts) \<le> 15 \<and> versions (rd_engine sample_reader) [107] 10 = Some (Write_new WTPut 5 (Some [42])) \<and>
      (\<forall>c'. 10 < c' \<longrightarrow> c' \<le> 15 \<longrightarrow> versions (rd_engine sample_reader) [107] c' = None)"
    by (auto simp: sample_reader_engine versions_sample_store)
  moreover have "\<forall>c \<le> (9 :: ts). versions (rd_engine sample_reader) [107] c = None"
    by (auto simp: sample_reader_engine versions_sample_store)
  ultimately show ?thesis
    using seek_write_correct [OF wf, THEN conjunct1, THEN iffD2]
      seek_write_correct [OF wf, THEN conjunct2, THEN iffD2] by blast
qed

text \<open>C15: A snapshot read at a timestamp returns the value of the newest \<^verbatim>\<open>Put\<close> at or below it
  unless a newer \<^verbatim>\<open>Delete\<close> hides it or its GC fence marks it as collected; \<^verbatim>\<open>Lock\<close> and
  \<^verbatim>\<open>Rollback\<close> records do not change the result, whether they are stepped over or their pointer to
  the last change is followed.\<close>

theorem reader_get_correct:
  assumes "wf_engine (rd_engine r)" "wf_versions (versions (rd_engine r) u)" "values_ok (rd_engine r) u"
    and "fences_clear (versions (rd_engine r) u) gc_fence_limit t"
  shows "reader_get r (Key_from_raw u) t gc_fence_limit = Inr (read_value (rd_engine r) u gc_fence_limit t)"
  using assms by (rule reader_get_eq)

lemma latest_data_sample:
  "10 \<le> t \<Longrightarrow>
   latest (data (versions sample_store [107])) t = Some (10, Write_new WTPut 5 (Some [42]))"
  unfolding latest_Some data_Some
  by (auto simp: versions_sample_store data_def is_data_def Write_new_def)

lemma wf_versions_sample: "wf_versions (versions sample_store [107])"
proof -
  have "lc_ok (versions sample_store [107])"
    unfolding lc_ok_def
  proof (intro allI impI)
    fix c w
    assume w: "versions sample_store [107] c = Some w" "\<not> is_data w"
    then have "c = 20" "write_last_change w = LCExist 10 9"
      by (auto simp: versions_sample_store is_data_def Write_new_def split: if_splits)
    then show "case write_last_change w of LCUnknown \<Rightarrow> True
        | LCExist lc n \<Rightarrow>
            (case versions sample_store [107] lc of
               None \<Rightarrow> visible (versions sample_store [107]) None c = None
             | Some w' \<Rightarrow> latest (data (versions sample_store [107])) c = Some (lc, w'))
        | LCNotExist \<Rightarrow> visible (versions sample_store [107]) None c = None"
      using latest_data_sample [of 20] by (simp add: versions_sample_store)
  qed
  then show ?thesis by (simp add: wf_versions_def versions_sample_store)
qed

theorem reader_get_correct_witness:
  "reader_get sample_reader (Key_from_raw [107]) 30 None = Inr (Some [42])"
proof -
  have "values_ok sample_store [107]"
    by (auto simp: values_ok_def versions_sample_store Write_new_def split: if_splits)
  then have "reader_get sample_reader (Key_from_raw [107]) 30 None =
      Inr (read_value (rd_engine sample_reader) [107] None 30)"
    by (intro reader_get_correct) (simp_all add: sample_reader_engine wf_sample_store wf_versions_sample)
  also have "read_value (rd_engine sample_reader) [107] None 30 = Some [42]"
    by (simp add: sample_reader_engine read_value_def visible_def latest_data_sample [of 30] Write_new_def)
  finally show ?thesis .
qed

text \<open>C17: \<^verbatim>\<open>get_txn_commit_record\<close> finds the record of the transaction wherever it is, else the
  rollback recorded on another transaction's record at the same timestamp, else that record with
  the first data record above it as GC fence.\<close>

theorem get_txn_commit_record_correct:
  assumes "wf_engine (rd_engine r)" "starts_ok (versions (rd_engine r) u)"
  shows "get_txn_commit_record r (Key_from_raw u) s = Inr (commit_record (versions (rd_engine r) u) s)"
  using assms by (rule get_txn_commit_record_eq)

theorem get_txn_commit_record_correct_witness:
  "get_txn_commit_record sample_reader (Key_from_raw [107]) 5 =
     Inr (SingleRecord 10 (Write_new WTPut 5 (Some [42])))"
proof -
  have "starts_ok (versions sample_store [107])"
    unfolding starts_ok_def by (auto simp: versions_sample_store Write_new_def split: if_splits)
  moreover have "commit_record (versions sample_store [107]) 5 = SingleRecord 10 (Write_new WTPut 5 (Some [42]))"
    by (rule commit_record_single) (auto simp: versions_sample_store own_def Write_new_def)
  ultimately show ?thesis
    using get_txn_commit_record_correct [of sample_reader "[107]" 5]
    by (simp add: sample_reader_engine wf_sample_store)
qed

end
