(* ===== verification/Mvcc_Cursor_Reader.thy ===== *)
theory Mvcc_Cursor_Reader
  imports Mvcc_Reader
begin

text \<open>
  The point reads of \<^verbatim>\<open>MvccReader\<close> as the source has them, over cursors that are created on
  demand and kept between calls (\<^verbatim>\<open>src/storage/mvcc/reader/reader.rs\<close>), and the proof that
  they return what the reads of \<open>Mvcc_Reader\<close> return, whatever was read before.  The iterator
  options for the block cache, the timestamp hint and the key only scan are not modelled.
\<close>

section \<open>Readers with cursors\<close>

record cursor_reader =
  cr_reader :: mvcc_reader
  cr_data_cursor :: "btree_iter cursor option"
  cr_lock_cursor :: "btree_iter cursor option"
  cr_write_cursor :: "btree_iter cursor option"
  cr_lower_bound :: "key option"
  cr_upper_bound :: "key option"
  cr_scan_mode :: "scan_mode option"
  cr_current_key :: "key option"

definition cursor_reader_new :: "mvcc_reader \<Rightarrow> scan_mode option \<Rightarrow> cursor_reader" where
  "cursor_reader_new r mode =
     \<lparr> cr_reader = r, cr_data_cursor = None, cr_lock_cursor = None, cr_write_cursor = None,
       cr_lower_bound = None, cr_upper_bound = None, cr_scan_mode = mode, cr_current_key = None \<rparr>"

definition get_scan_mode :: "cursor_reader \<Rightarrow> bool \<Rightarrow> scan_mode" where
  "get_scan_mode cr allow_backward =
     (case cr_scan_mode cr of
        Some Forward \<Rightarrow> Forward
      | Some Backward \<Rightarrow> if allow_backward then Backward else Mixed
      | _ \<Rightarrow> Mixed)"

definition set_range :: "key option \<Rightarrow> key option \<Rightarrow> cursor_reader \<Rightarrow> cursor_reader" where
  "set_range lower upper cr = cr\<lparr>cr_lower_bound := lower, cr_upper_bound := upper\<rparr>"

text \<open>\<^verbatim>\<open>CursorBuilder::build\<close> on a snapshot of the in memory engine.\<close>

definition build_cursor :: "cursor_reader \<Rightarrow> cf \<Rightarrow> bool \<Rightarrow> btree_iter cursor" where
  "build_cursor cr cf prefix_seek =
     Cursor_new
       (BTreeEngineIterator_new (get_cf_tree (rd_engine (cr_reader cr)) cf)
         (cr_lower_bound cr) (cr_upper_bound cr))
       (get_scan_mode cr True) prefix_seek"

definition create_data_cursor :: "cursor_reader \<Rightarrow> cursor_reader" where
  "create_data_cursor cr =
     (if cr_data_cursor cr = None then cr\<lparr>cr_data_cursor := Some (build_cursor cr CF_DEFAULT False)\<rparr>
      else cr)"

definition create_write_cursor :: "cursor_reader \<Rightarrow> cursor_reader" where
  "create_write_cursor cr =
     (if cr_write_cursor cr = None
      then cr\<lparr>cr_write_cursor := Some (build_cursor cr CF_WRITE (cr_scan_mode cr = None))\<rparr>
      else cr)"

definition create_lock_cursor_if_not_exist :: "cursor_reader \<Rightarrow> cursor_reader" where
  "create_lock_cursor_if_not_exist cr =
     (if cr_lock_cursor cr = None then cr\<lparr>cr_lock_cursor := Some (build_cursor cr CF_LOCK False)\<rparr>
      else cr)"

definition kv_try ::
    "kv_error + 'a \<Rightarrow> 's \<Rightarrow> ('a \<Rightarrow> (mvcc_error + 'b) \<times> 's) \<Rightarrow> (mvcc_error + 'b) \<times> 's" where
  "kv_try x s f = (case x of Inl e \<Rightarrow> (Inl (from_kv_error e), s) | Inr y \<Rightarrow> f y)"

definition cr_seek_write ::
    "key \<Rightarrow> ts \<Rightarrow> cursor_reader \<Rightarrow> (mvcc_error + (ts \<times> write_record) option) \<times> cursor_reader" where
  "cr_seek_write k t cr0 =
     (let cr1 = (if cr_scan_mode cr0 = None \<and> cr_current_key cr0 \<noteq> Some k
            then cr0\<lparr>cr_current_key := Some k, cr_write_cursor := None\<rparr> else cr0);
          cr2 = create_write_cursor cr1;
          (res, cursor) = near_seek btree_ops (append_ts k t) (the (cr_write_cursor cr2));
          cr = cr2\<lparr>cr_write_cursor := Some cursor\<rparr> in
      kv_try res cr (\<lambda>found.
        if \<not> found then (Inr None, cr)
        else
          kv_try (cursor_key btree_ops cursor) cr (\<lambda>write_key.
            (try_codec (decode_ts_from write_key) (\<lambda>commit_ts.
               if \<not> is_user_key_eq write_key k then Inr None
               else
                 res_bind (res_map_err from_kv_error (cursor_value btree_ops cursor)) (\<lambda>v.
                   try_types (Write_parse v) (\<lambda>w. Inr (Some (commit_ts, w))))), cr))))"

definition cr_get_value ::
    "key \<Rightarrow> ts \<Rightarrow> cursor_reader \<Rightarrow> (mvcc_error + value_bytes option) \<times> cursor_reader" where
  "cr_get_value k start_ts cr0 =
     (let cr = (if cr_scan_mode cr0 \<noteq> None then create_data_cursor cr0 else cr0);
          k' = append_ts k start_ts in
      case cr_data_cursor cr of
        Some cursor \<Rightarrow>
          (case cursor_get btree_ops k' cursor of
             (res, cursor') \<Rightarrow> (res_map_err from_kv_error res, cr\<lparr>cr_data_cursor := Some cursor'\<rparr>))
      | None \<Rightarrow> (Inr (get_cf (rd_engine (cr_reader cr)) CF_DEFAULT k'), cr))"

definition cr_load_lock ::
    "key \<Rightarrow> cursor_reader \<Rightarrow> (mvcc_error + lock option) \<times> cursor_reader" where
  "cr_load_lock k cr0 =
     (case load_in_memory_pessimistic_lock (cr_reader cr0) k of
        Inl e \<Rightarrow> (Inl e, cr0)
      | Inr (Some l) \<Rightarrow> (Inr (Some l), cr0)
      | Inr None \<Rightarrow>
          (let cr = (if cr_scan_mode cr0 \<noteq> None then create_lock_cursor_if_not_exist cr0 else cr0);
               parse = (\<lambda>x. case x of
                   Some v \<Rightarrow> try_types (Lock_parse v) (\<lambda>l. Inr (Some l)) | None \<Rightarrow> Inr None) in
           case cr_lock_cursor cr of
             Some cursor \<Rightarrow>
               (case cursor_get btree_ops k cursor of
                  (res, cursor') \<Rightarrow>
                    (res_bind (res_map_err from_kv_error res) parse,
                     cr\<lparr>cr_lock_cursor := Some cursor'\<rparr>))
           | None \<Rightarrow> (parse (get_cf (rd_engine (cr_reader cr)) CF_LOCK k), cr)))"

section \<open>What a cursor that moves both ways reads\<close>

lemma first_key_first_ge: "first_key m (Included k, Unbounded) = map_option fst (first_ge m k)"
  by (simp add: first_key_def first_ge_def)

context kv_iterator
begin

lemma near_seek_entry:
  assumes "cinv c" "cur_scan_mode c = Mixed" "fwd (cur_iter c) k"
  shows "\<exists>c'. near_seek ops k c = (Inr (first_ge (view (cur_iter c)) k \<noteq> None), c') \<and> cinv c' \<and> csim c c' \<and>
    (\<forall>k' v. first_ge (view (cur_iter c)) k = Some (k', v) \<longrightarrow>
      cursor_key ops c' = Inr k' \<and> cursor_value ops c' = Inr v)"
proof -
  let ?m = "view (cur_iter c)"
  have inv: "tree_inv ?m" using assms(1) by (auto simp: cursor_inv_def intro: view_inv)
  have target: "seek_target (cur_scan_mode c) (cpos c) ?m k = map_option fst (first_ge ?m k)"
    by (simp add: seek_target_def assms(2) first_key_first_ge split: option.splits)
  obtain c' where c': "near_seek ops k c = (Inr (map_option fst (first_ge ?m k) \<noteq> None), c')"
    "cinv c'" "csim c c'" "map_option fst (first_ge ?m k) \<noteq> None \<longrightarrow> cpos c' = map_option fst (first_ge ?m k)"
    using near_seek_law [OF assms(1) _ assms(3)] assms(2) unfolding target by auto
  have "cursor_key ops c' = Inr k' \<and> cursor_value ops c' = Inr v" if entry: "first_ge ?m k = Some (k', v)" for k' v
  proof -
    have pos: "cpos c' = Some k'" using c'(4) entry by simp
    have "view (cur_iter c') = ?m" using c'(3) unfolding cursor_same_def by (metis same_view)
    moreover have "ok (cur_iter c')" using c'(2) by (simp add: cursor_inv_def)
    ultimately show ?thesis
      using key [OF _ pos] val [OF _ pos] entry first_ge_Some [OF inv]
      by (simp add: cursor_key_def cursor_value_def)
  qed
  with c' show ?thesis by (intro exI [of _ c']) simp
qed

lemma cursor_get_law:
  assumes "cinv c" "cur_scan_mode c = Mixed" "fwd (cur_iter c) k"
  shows "\<exists>c'. cursor_get ops k c = (Inr (tree_get (view (cur_iter c)) k), c') \<and> cinv c' \<and> csim c c'"
proof -
  let ?m = "view (cur_iter c)"
  have inv: "tree_inv ?m" using assms(1) by (auto simp: cursor_inv_def intro: view_inv)
  obtain c' where c': "near_seek ops k c = (Inr (first_ge ?m k \<noteq> None), c')" "cinv c'" "csim c c'"
    and at: "\<And>k' v. first_ge ?m k = Some (k', v) \<Longrightarrow> cursor_key ops c' = Inr k' \<and> cursor_value ops c' = Inr v"
    using near_seek_entry [OF assms] by blast
  have "cursor_get ops k c = (Inr (tree_get ?m k), c')"
  proof (cases "first_ge ?m k")
    case None
    then have "tree_get ?m k = None" using first_ge_None [OF inv, of k] by auto
    with None c'(1) assms(2) show ?thesis by (simp add: cursor_get_def)
  next
    case (Some p)
    obtain k' v where p: "p = (k', v)" by (cases p)
    have "tree_get ?m k = (if k' = k then Some v else None)"
      using Some p first_ge_Some [OF inv, of k k' v] by (auto simp: order_antisym)
    with Some p c'(1) at [of k' v] assms(2) show ?thesis by (simp add: cursor_get_def)
  qed
  with c' show ?thesis by blast
qed

end

section \<open>The reads with and without cursors agree\<close>

text \<open>A cursor over a whole column family of the reader's snapshot.\<close>

definition whole_cursor :: "mvcc_reader \<Rightarrow> cf \<Rightarrow> btree_iter cursor \<Rightarrow> bool" where
  "whole_cursor r cf c \<longleftrightarrow>
     cursor_inv bi_ok bi_view c \<and> cur_scan_mode c = Mixed \<and>
     bi_tree (cur_iter c) = get_cf_tree (rd_engine r) cf \<and>
     bi_bounds (cur_iter c) = (Unbounded, Unbounded)"

definition cr_ok :: "cursor_reader \<Rightarrow> bool" where
  "cr_ok cr \<longleftrightarrow>
     wf_engine (rd_engine (cr_reader cr)) \<and> cr_lower_bound cr = None \<and> cr_upper_bound cr = None \<and>
     get_scan_mode cr True = Mixed \<and>
     pred_option (whole_cursor (cr_reader cr) CF_DEFAULT) (cr_data_cursor cr) \<and>
     pred_option (whole_cursor (cr_reader cr) CF_LOCK) (cr_lock_cursor cr) \<and>
     pred_option (whole_cursor (cr_reader cr) CF_WRITE) (cr_write_cursor cr)"

lemma whole_cursor_view:
  "whole_cursor r cf c \<Longrightarrow> bi_view (cur_iter c) = get_cf_tree (rd_engine r) cf"
  by (simp add: whole_cursor_def bi_view_def in_bounds_def)

lemma whole_cursor_fwd: "whole_cursor r cf c \<Longrightarrow> bi_fwd (cur_iter c) k"
  by (simp add: whole_cursor_def bi_fwd_def)

lemma whole_cursor_same:
  "whole_cursor r cf c \<Longrightarrow> cursor_inv bi_ok bi_view c' \<Longrightarrow> cursor_same bi_same c c' \<Longrightarrow> whole_cursor r cf c'"
  by (simp add: whole_cursor_def cursor_same_def bi_same_def)

lemma whole_cursor_build:
  assumes "cr_ok cr"
  shows "whole_cursor (cr_reader cr) cf (build_cursor cr cf prefix_seek)"
  using assms wf_engine_tree [of "rd_engine (cr_reader cr)" cf]
  by (simp add: cr_ok_def whole_cursor_def build_cursor_def Cursor_new_def BTreeEngineIterator_new_def
      cursor_inv_def bi_ok_def)

lemma get_scan_mode_cong: "cr_scan_mode cr' = cr_scan_mode cr \<Longrightarrow> get_scan_mode cr' b = get_scan_mode cr b"
  by (simp add: get_scan_mode_def)

lemma cr_ok_update:
  "cr_ok cr \<Longrightarrow> pred_option (whole_cursor (cr_reader cr) CF_WRITE) c \<Longrightarrow> cr_ok (cr\<lparr>cr_write_cursor := c\<rparr>)"
  "cr_ok cr \<Longrightarrow> pred_option (whole_cursor (cr_reader cr) CF_LOCK) c \<Longrightarrow> cr_ok (cr\<lparr>cr_lock_cursor := c\<rparr>)"
  "cr_ok cr \<Longrightarrow> pred_option (whole_cursor (cr_reader cr) CF_DEFAULT) c \<Longrightarrow> cr_ok (cr\<lparr>cr_data_cursor := c\<rparr>)"
  "cr_ok cr \<Longrightarrow> cr_ok (cr\<lparr>cr_current_key := k\<rparr>)"
  by (simp_all add: cr_ok_def get_scan_mode_cong [of "cr\<lparr>cr_write_cursor := c\<rparr>" cr]
      get_scan_mode_cong [of "cr\<lparr>cr_lock_cursor := c\<rparr>" cr]
      get_scan_mode_cong [of "cr\<lparr>cr_data_cursor := c\<rparr>" cr]
      get_scan_mode_cong [of "cr\<lparr>cr_current_key := k\<rparr>" cr])

lemma create_write_cursor_ok:
  assumes "cr_ok cr"
  shows "\<exists>c. cr_write_cursor (create_write_cursor cr) = Some c \<and> whole_cursor (cr_reader cr) CF_WRITE c \<and>
    cr_ok (create_write_cursor cr) \<and> cr_reader (create_write_cursor cr) = cr_reader cr"
  using assms cr_ok_update(1) [OF assms] whole_cursor_build [OF assms]
  by (cases "cr_write_cursor cr") (simp_all add: create_write_cursor_def cr_ok_def)

lemma create_lock_cursor_ok:
  assumes "cr_ok cr"
  shows "\<exists>c. cr_lock_cursor (create_lock_cursor_if_not_exist cr) = Some c \<and>
    whole_cursor (cr_reader cr) CF_LOCK c \<and>
    cr_ok (create_lock_cursor_if_not_exist cr) \<and> cr_reader (create_lock_cursor_if_not_exist cr) = cr_reader cr"
  using assms cr_ok_update(2) [OF assms] whole_cursor_build [OF assms]
  by (cases "cr_lock_cursor cr") (simp_all add: create_lock_cursor_if_not_exist_def cr_ok_def)

lemma create_data_cursor_ok:
  assumes "cr_ok cr"
  shows "\<exists>c. cr_data_cursor (create_data_cursor cr) = Some c \<and> whole_cursor (cr_reader cr) CF_DEFAULT c \<and>
    cr_ok (create_data_cursor cr) \<and> cr_reader (create_data_cursor cr) = cr_reader cr"
  using assms cr_ok_update(3) [OF assms] whole_cursor_build [OF assms]
  by (cases "cr_data_cursor cr") (simp_all add: create_data_cursor_def cr_ok_def)

lemma whole_cursor_get:
  assumes "whole_cursor r cf c"
  shows "\<exists>c'. cursor_get btree_ops k c = (Inr (get_cf (rd_engine r) cf k), c') \<and> whole_cursor r cf c'"
proof -
  have "cursor_inv bi_ok bi_view c" "cur_scan_mode c = Mixed" using assms by (simp_all add: whole_cursor_def)
  from btree_iterator.cursor_get_law [OF this whole_cursor_fwd [OF assms]] whole_cursor_same [OF assms]
  show ?thesis unfolding whole_cursor_view [OF assms] get_cf_def by blast
qed

lemma cr_seek_write_eq:
  assumes "cr_ok cr"
  shows "\<exists>cr'. cr_seek_write k t cr = (seek_write (cr_reader cr) k t, cr') \<and> cr_ok cr' \<and>
    cr_reader cr' = cr_reader cr"
proof -
  define cr1 where "cr1 = (if cr_scan_mode cr = None \<and> cr_current_key cr \<noteq> Some k
    then cr\<lparr>cr_current_key := Some k, cr_write_cursor := None\<rparr> else cr)"
  have cr1: "cr_ok cr1" "cr_reader cr1 = cr_reader cr"
    using assms by (simp_all add: cr1_def cr_ok_update)
  obtain c where c: "cr_write_cursor (create_write_cursor cr1) = Some c"
    "whole_cursor (cr_reader cr1) CF_WRITE c" "cr_ok (create_write_cursor cr1)"
    "cr_reader (create_write_cursor cr1) = cr_reader cr1"
    using create_write_cursor_ok [OF cr1(1)] by blast
  let ?m = "eng_write (rd_engine (cr_reader cr))"
  have view: "bi_view (cur_iter c) = ?m"
    using whole_cursor_view [OF c(2)] by (simp add: cr1(2))
  have inv: "cursor_inv bi_ok bi_view c" "cur_scan_mode c = Mixed"
    using c(2) by (simp_all add: whole_cursor_def)
  obtain c' where c': "near_seek btree_ops (append_ts k t) c = (Inr (first_ge ?m (append_ts k t) \<noteq> None), c')"
    "cursor_inv bi_ok bi_view c'" "cursor_same bi_same c c'"
    and at: "\<And>k' v. first_ge ?m (append_ts k t) = Some (k', v) \<Longrightarrow>
      cursor_key btree_ops c' = Inr k' \<and> cursor_value btree_ops c' = Inr v"
    using btree_iterator.near_seek_entry [OF inv whole_cursor_fwd [OF c(2)], of "append_ts k t"]
    unfolding view by blast
  define cr' where "cr' = (create_write_cursor cr1)\<lparr>cr_write_cursor := Some c'\<rparr>"
  have "cr_ok cr'" "cr_reader cr' = cr_reader cr"
    using cr_ok_update(1) [OF c(3)] whole_cursor_same [OF c(2) c'(2,3)] c(4) cr1(2)
    by (simp_all add: cr'_def)
  moreover have "cr_seek_write k t cr = (seek_write (cr_reader cr) k t, cr')"
  proof (cases "first_ge ?m (append_ts k t)")
    case None
    with c(1) c'(1) show ?thesis
      by (simp add: cr_seek_write_def cr1_def [symmetric] cr'_def kv_try_def seek_write_def)
  next
    case (Some p)
    obtain k' v where p: "p = (k', v)" by (cases p)
    with Some c(1) c'(1) at [of k' v] show ?thesis
      by (simp add: cr_seek_write_def cr1_def [symmetric] cr'_def kv_try_def seek_write_def cong: if_cong)
  qed
  ultimately show ?thesis by blast
qed

lemma cr_get_value_eq:
  assumes "cr_ok cr"
  shows "\<exists>cr'. cr_get_value k t cr = (get_value (cr_reader cr) k t, cr') \<and> cr_ok cr' \<and>
    cr_reader cr' = cr_reader cr"
proof -
  define cr1 where "cr1 = (if cr_scan_mode cr \<noteq> None then create_data_cursor cr else cr)"
  have cr1: "cr_ok cr1" "cr_reader cr1 = cr_reader cr"
    using assms create_data_cursor_ok [OF assms] by (auto simp: cr1_def)
  show ?thesis
  proof (cases "cr_data_cursor cr1")
    case None
    with cr1 show ?thesis
      unfolding cr_get_value_def Let_def cr1_def [symmetric] by (simp add: get_value_def)
  next
    case (Some c)
    then have c: "whole_cursor (cr_reader cr1) CF_DEFAULT c" using cr1(1) by (simp add: cr_ok_def)
    from whole_cursor_get [OF this, of "append_ts k t"] obtain c' where
      c': "cursor_get btree_ops (append_ts k t) c = (Inr (get_cf (rd_engine (cr_reader cr1)) CF_DEFAULT (append_ts k t)), c')"
      "whole_cursor (cr_reader cr1) CF_DEFAULT c'" by blast
    with Some cr1 cr_ok_update(3) [OF cr1(1), of "Some c'"] show ?thesis
      unfolding cr_get_value_def Let_def cr1_def [symmetric] by (simp add: get_value_def)
  qed
qed

lemma cr_load_lock_eq:
  assumes "cr_ok cr"
  shows "\<exists>cr'. cr_load_lock k cr = (load_lock (cr_reader cr) k, cr') \<and> cr_ok cr' \<and>
    cr_reader cr' = cr_reader cr"
proof -
  define cr1 where "cr1 = (if cr_scan_mode cr \<noteq> None then create_lock_cursor_if_not_exist cr else cr)"
  have cr1: "cr_ok cr1" "cr_reader cr1 = cr_reader cr"
    using assms create_lock_cursor_ok [OF assms] by (auto simp: cr1_def)
  consider e where "load_in_memory_pessimistic_lock (cr_reader cr) k = Inl e"
    | l where "load_in_memory_pessimistic_lock (cr_reader cr) k = Inr (Some l)"
    | (none) "load_in_memory_pessimistic_lock (cr_reader cr) k = Inr None"
    by (metis sum.exhaust option.exhaust)
  then show ?thesis
  proof cases
    case none
    show ?thesis
    proof (cases "cr_lock_cursor cr1")
      case None
      with none cr1 show ?thesis
        unfolding cr_load_lock_def Let_def cr1_def [symmetric] by (simp add: load_lock_def)
    next
      case (Some c)
      then have c: "whole_cursor (cr_reader cr1) CF_LOCK c" using cr1(1) by (simp add: cr_ok_def)
      from whole_cursor_get [OF this, of k] obtain c' where
        c': "cursor_get btree_ops k c = (Inr (get_cf (rd_engine (cr_reader cr1)) CF_LOCK k), c')"
        "whole_cursor (cr_reader cr1) CF_LOCK c'" by blast
      with none Some cr1 cr_ok_update(2) [OF cr1(1), of "Some c'"] show ?thesis
        unfolding cr_load_lock_def Let_def cr1_def [symmetric] by (simp add: load_lock_def)
    qed
  qed (use assms in \<open>simp_all add: cr_load_lock_def load_lock_def\<close>)
qed

section \<open>Refinement\<close>

text \<open>C19: For a reader without bounds in the mixed scan mode, as \<^verbatim>\<open>SnapshotReader\<close> uses it, the reads
  over cursors that are kept and repositioned between calls return exactly what a direct look into
  the snapshot returns, after any sequence of earlier reads: they keep the reader in a state in
  which this holds again.\<close>

theorem cursor_reads_refine:
  assumes "cr_ok cr"
  shows "(\<exists>cr'. cr_seek_write k t cr = (seek_write (cr_reader cr) k t, cr') \<and> cr_ok cr' \<and>
      cr_reader cr' = cr_reader cr) \<and>
    (\<exists>cr'. cr_get_value k t cr = (get_value (cr_reader cr) k t, cr') \<and> cr_ok cr' \<and>
      cr_reader cr' = cr_reader cr) \<and>
    (\<exists>cr'. cr_load_lock k cr = (load_lock (cr_reader cr) k, cr') \<and> cr_ok cr' \<and>
      cr_reader cr' = cr_reader cr)"
  using cr_seek_write_eq [OF assms] cr_get_value_eq [OF assms] cr_load_lock_eq [OF assms] by blast

theorem cursor_reads_refine_witness:
  "fst (cr_seek_write (Key_from_raw [107]) 15 (cursor_reader_new sample_reader None)) =
     seek_write sample_reader (Key_from_raw [107]) 15"
proof -
  have "cr_ok (cursor_reader_new sample_reader None)"
    by (simp add: cr_ok_def cursor_reader_new_def get_scan_mode_def sample_reader_engine wf_sample_store)
  from cursor_reads_refine [OF this, of "Key_from_raw [107]" 15] show ?thesis
    by (auto simp: cursor_reader_new_def)
qed

end
