(* ===== verification/Concurrency_Manager.thy ===== *)
theory Concurrency_Manager
  imports Mvcc_Reader
begin

text \<open>
  The concurrency manager, \<^verbatim>\<open>components/concurrency_manager/src\<close>: the greatest read timestamp
  with its limit, and the table of memory locks that async commit and one phase commit use.
  Every method runs as one atomic step here.  The clock and the answer of the timestamp oracle
  are arguments.  An entry of the table is a key whose guard is alive; dropping the guard
  removes it.  The lemmas show that the greatest timestamp and its limit never decrease, when
  an update is refused, and what the checks of the memory locks report.
\<close>

section \<open>State\<close>

datatype action_on_invalid_max_ts = ActionPanic | ActionError | ActionLog

record concurrency_manager =
  cm_max_ts :: ts
  cm_lock_table :: "(key, lock option) tree"
  cm_limit :: ts
  cm_limit_update_time :: u64 \<comment> \<open>milliseconds\<close>
  cm_limit_valid_duration :: u64
  cm_action :: action_on_invalid_max_ts
  cm_max_ts_drift_allowance_ms :: u64

definition new_with_config :: "ts \<Rightarrow> u64 \<Rightarrow> action_on_invalid_max_ts \<Rightarrow> u64 \<Rightarrow> u64 \<Rightarrow> concurrency_manager" where
  "new_with_config latest_ts limit_valid_duration action drift now =
     \<lparr> cm_max_ts = latest_ts, cm_lock_table = [], cm_limit = 0, cm_limit_update_time = now,
       cm_limit_valid_duration = limit_valid_duration, cm_action = action,
       cm_max_ts_drift_allowance_ms = drift \<rparr>"

section \<open>The greatest timestamp\<close>

definition set_max_ts_limit :: "u64 \<Rightarrow> ts \<Rightarrow> concurrency_manager \<Rightarrow> concurrency_manager" where
  "set_max_ts_limit now ts_from_tso cm =
     (if is_max ts_from_tso then cm
      else
        (let limit = compose (physical ts_from_tso + cm_max_ts_drift_allowance_ms cm) (logical ts_from_tso) in
         if limit \<le> cm_limit cm then cm
         else cm\<lparr>cm_limit := limit, cm_limit_update_time := now\<rparr>))"

definition report_error :: "ts \<Rightarrow> bool \<Rightarrow> concurrency_manager \<Rightarrow> mvcc_error + unit" where
  "report_error new_ts tso_confirmed cm =
     (case cm_action cm of
        ActionPanic \<Rightarrow> if tso_confirmed then Inl MPanic else Inr ()
      | ActionError \<Rightarrow> if tso_confirmed then Inl (InvalidMaxTsUpdate new_ts (cm_limit cm)) else Inr ()
      | ActionLog \<Rightarrow> Inr ())"

text \<open>\<open>tso\<close> is the timestamp of the oracle; \<open>None\<close> when there is none, it fails or it times out.\<close>

definition double_check ::
    "u64 \<Rightarrow> ts option \<Rightarrow> ts \<Rightarrow> concurrency_manager \<Rightarrow> (mvcc_error + unit) \<times> concurrency_manager" where
  "double_check now tso new_ts cm0 =
     (let cm = (case tso of Some t \<Rightarrow> set_max_ts_limit now t cm0 | None \<Rightarrow> cm0) in
      if cm_limit cm < new_ts then (report_error new_ts (tso \<noteq> None) cm, cm) else (Inr (), cm))"

definition saturating_sub :: "u64 \<Rightarrow> u64 \<Rightarrow> u64" where
  "saturating_sub a b = (if b \<le> a then a - b else 0)"

definition update_max_ts ::
    "u64 \<Rightarrow> ts option \<Rightarrow> ts \<Rightarrow> concurrency_manager \<Rightarrow> (mvcc_error + unit) \<times> concurrency_manager" where
  "update_max_ts now tso new_ts cm =
     (if is_max new_ts then (Inr (), cm)
      else
        st_bind
          (if \<not> is_zero (cm_limit cm) \<and> cm_limit cm < new_ts then
             (let elapsed = saturating_sub now (cm_limit_update_time cm) in
              if elapsed < cm_limit_valid_duration cm then double_check now tso new_ts cm
              else
                (let approximate_limit = compose (physical (cm_limit cm) + elapsed) (logical (cm_limit cm)) in
                 if approximate_limit < new_ts then double_check now tso new_ts cm else (Inr (), cm)))
           else (Inr (), cm))
          (\<lambda>_ cm. (Inr (), cm\<lparr>cm_max_ts := max (cm_max_ts cm) new_ts\<rparr>)))"

section \<open>The memory locks\<close>

text \<open>
  Acquiring and dropping the guard of a key, with the lock that the guard's owner stores.  No
  other guard of the key is alive: the latches of the scheduler see to that.
\<close>

definition lock_key :: "key \<Rightarrow> concurrency_manager \<Rightarrow> concurrency_manager" where
  "lock_key k cm = cm\<lparr>cm_lock_table := tree_insert k None (cm_lock_table cm)\<rparr>"

definition guard_set_lock :: "key \<Rightarrow> lock \<Rightarrow> concurrency_manager \<Rightarrow> concurrency_manager" where
  "guard_set_lock k l cm = cm\<lparr>cm_lock_table := tree_insert k (Some l) (cm_lock_table cm)\<rparr>"

definition drop_guard :: "key \<Rightarrow> concurrency_manager \<Rightarrow> concurrency_manager" where
  "drop_guard k cm = cm\<lparr>cm_lock_table := tree_remove k (cm_lock_table cm)\<rparr>"

definition check_key :: "concurrency_manager \<Rightarrow> key \<Rightarrow> (lock \<Rightarrow> 'e + unit) \<Rightarrow> 'e + unit" where
  "check_key cm k check_fn =
     (case tree_get (cm_lock_table cm) k of
        Some (Some l) \<Rightarrow> check_fn l
      | _ \<Rightarrow> Inr ())"

fun find_first :: "('k \<times> 'h \<Rightarrow> 't option) \<Rightarrow> ('k \<times> 'h) list \<Rightarrow> 't option" where
  "find_first pred [] = None"
| "find_first pred (e # es) = (case pred e of None \<Rightarrow> find_first pred es | Some x \<Rightarrow> Some x)"

definition check_range ::
    "concurrency_manager \<Rightarrow> key option \<Rightarrow> key option \<Rightarrow> (key \<Rightarrow> lock \<Rightarrow> 'e + unit) \<Rightarrow> 'e + unit" where
  "check_range cm start end check_fn =
     (case find_first
         (\<lambda>(k, h). case h of
            Some l \<Rightarrow> (case check_fn k l of Inl e \<Rightarrow> Some e | Inr _ \<Rightarrow> None)
          | None \<Rightarrow> None)
         (filter (\<lambda>p. in_bounds (key_range start end) (fst p)) (cm_lock_table cm)) of
        Some e \<Rightarrow> Inl e
      | None \<Rightarrow> Inr ())"

definition read_key_check :: "concurrency_manager \<Rightarrow> key \<Rightarrow> (lock \<Rightarrow> 'e + unit) \<Rightarrow> 'e + unit" where
  "read_key_check cm k check_fn = check_key cm k check_fn"

definition read_range_check ::
    "concurrency_manager \<Rightarrow> key option \<Rightarrow> key option \<Rightarrow> (key \<Rightarrow> lock \<Rightarrow> 'e + unit) \<Rightarrow> 'e + unit" where
  "read_range_check cm start end check_fn = check_range cm start end check_fn"

fun min_lock_step :: "ts option \<Rightarrow> key \<times> lock option \<Rightarrow> ts option" where
  "min_lock_step m (k, None) = m"
| "min_lock_step m (k, Some l) =
     (if (case m of Some t \<Rightarrow> lock_ts l < t | None \<Rightarrow> True) then Some (lock_ts l) else m)"

definition global_min_lock_ts :: "concurrency_manager \<Rightarrow> ts option" where
  "global_min_lock_ts cm = foldl min_lock_step None (cm_lock_table cm)"

fun min_lock_kv_step :: "(ts \<times> key) option \<Rightarrow> key \<times> lock option \<Rightarrow> (ts \<times> key) option" where
  "min_lock_kv_step m (k, None) = m"
| "min_lock_kv_step m (k, Some l) =
     (if (case m of Some (t, _) \<Rightarrow> lock_ts l < t | None \<Rightarrow> True) then Some (lock_ts l, k) else m)"

definition global_min_lock :: "concurrency_manager \<Rightarrow> (ts \<times> key) option" where
  "global_min_lock cm = foldl min_lock_kv_step None (cm_lock_table cm)"

definition set_action_on_invalid_max_ts_update ::
    "action_on_invalid_max_ts \<Rightarrow> concurrency_manager \<Rightarrow> concurrency_manager" where
  "set_action_on_invalid_max_ts_update action cm = cm\<lparr>cm_action := action\<rparr>"

definition set_max_ts_drift_allowance :: "u64 \<Rightarrow> concurrency_manager \<Rightarrow> concurrency_manager" where
  "set_max_ts_drift_allowance allowance cm = cm\<lparr>cm_max_ts_drift_allowance_ms := allowance\<rparr>"

section \<open>Laws\<close>

lemma set_max_ts_limit_mono:
  "cm_limit cm \<le> cm_limit (set_max_ts_limit now t cm)"
  "cm_max_ts (set_max_ts_limit now t cm) = cm_max_ts cm"
  by (auto simp: set_max_ts_limit_def Let_def)

lemma double_check_mono:
  "double_check now tso new_ts cm = (r, cm') \<Longrightarrow>
     cm_limit cm \<le> cm_limit cm' \<and> cm_max_ts cm' = cm_max_ts cm \<and>
     (\<forall>e. r = Inl e \<longrightarrow> cm_limit cm' < new_ts \<and> tso \<noteq> None)"
  using set_max_ts_limit_mono [where cm = cm and now = now]
  by (auto simp: double_check_def Let_def report_error_def
      split: option.splits if_splits action_on_invalid_max_ts.splits)

lemma update_max_ts_cases:
  assumes "update_max_ts now tso new_ts cm = (r, cm')"
  shows "(is_max new_ts \<and> r = Inr () \<and> cm' = cm) \<or>
    (r = Inr () \<and> cm_limit cm \<le> cm_limit cm' \<and> cm_max_ts cm' = max (cm_max_ts cm) new_ts) \<or>
    (\<exists>e. r = Inl e \<and> cm_limit cm \<le> cm_limit cm' \<and> cm_max_ts cm' = cm_max_ts cm \<and>
      cm_limit cm' < new_ts \<and> tso \<noteq> None)"
proof (cases "is_max new_ts")
  case False
  let ?m = "if \<not> is_zero (cm_limit cm) \<and> cm_limit cm < new_ts then
      (let elapsed = saturating_sub now (cm_limit_update_time cm) in
       if elapsed < cm_limit_valid_duration cm then double_check now tso new_ts cm
       else
         (let approximate_limit = compose (physical (cm_limit cm) + elapsed) (logical (cm_limit cm)) in
          if approximate_limit < new_ts then double_check now tso new_ts cm else (Inr (), cm)))
    else (Inr (), cm)"
  obtain r1 cm1 where m: "?m = (r1, cm1)" by (cases ?m)
  then have "(r1, cm1) = (Inr (), cm) \<or> double_check now tso new_ts cm = (r1, cm1)"
    by (auto simp: Let_def split: if_splits)
  then have cm1: "cm_limit cm \<le> cm_limit cm1 \<and> cm_max_ts cm1 = cm_max_ts cm \<and>
      (\<forall>e. r1 = Inl e \<longrightarrow> cm_limit cm1 < new_ts \<and> tso \<noteq> None)"
    using double_check_mono [of now tso new_ts cm r1 cm1] by auto
  have "(r, cm') = st_bind (r1, cm1) (\<lambda>_ cm. (Inr (), cm\<lparr>cm_max_ts := max (cm_max_ts cm) new_ts\<rparr>))"
    using assms False m unfolding update_max_ts_def by simp
  with cm1 show ?thesis by (cases r1) auto
qed (use assms in \<open>simp add: update_max_ts_def\<close>)

lemma find_first_Some:
  "find_first pred es = Some x \<Longrightarrow> \<exists>e \<in> set es. pred e = Some x"
  by (induction es) (auto split: option.splits)

lemma find_first_None: "find_first pred es = None \<longleftrightarrow> (\<forall>e \<in> set es. pred e = None)"
  by (induction es) (auto split: option.splits)

lemma check_range_Inr:
  assumes "tree_inv (cm_lock_table cm)"
  shows "check_range cm start end f = Inr () \<longleftrightarrow>
    (\<forall>k l. tree_get (cm_lock_table cm) k = Some (Some l) \<longrightarrow> in_bounds (key_range start end) k \<longrightarrow>
      f k l = Inr ())"
proof -
  let ?es = "filter (\<lambda>p. in_bounds (key_range start end) (fst p)) (cm_lock_table cm)"
  let ?pred = "\<lambda>(k, h). case h of
      Some l \<Rightarrow> (case f k l of Inl e \<Rightarrow> Some e | Inr _ \<Rightarrow> None) | None \<Rightarrow> None"
  have "check_range cm start end f = Inr () \<longleftrightarrow> find_first ?pred ?es = None"
    by (simp add: check_range_def split: option.splits)
  also have "\<dots> \<longleftrightarrow> (\<forall>k l. (k, Some l) \<in> set ?es \<longrightarrow> f k l = Inr ())"
    unfolding find_first_None by (auto split: option.splits sum.splits) (metis old.unit.exhaust sum.exhaust)+
  finally show ?thesis using assms by (auto simp: tree_get_Some)
qed

lemma global_min_lock_ts_fold:
  "foldl min_lock_step m es = Some t \<longleftrightarrow>
     (m = Some t \<or> (\<exists>k l. (k, Some l) \<in> set es \<and> lock_ts l = t)) \<and>
     (\<forall>k l. (k, Some l) \<in> set es \<longrightarrow> t \<le> lock_ts l) \<and> (\<forall>t'. m = Some t' \<longrightarrow> t \<le> t')"
proof (induction es arbitrary: m)
  case (Cons e es)
  obtain k h where e: "e = (k, h)" by (cases e)
  show ?case
  proof (cases h)
    case None
    then show ?thesis by (simp add: e Cons.IH)
  next
    case (Some l)
    show ?thesis
    proof (cases "case m of Some t \<Rightarrow> lock_ts l < t | None \<Rightarrow> True")
      case True
      then have "foldl min_lock_step m (e # es) = foldl min_lock_step (Some (lock_ts l)) es"
        by (simp add: e Some)
      then show ?thesis
        using True Cons.IH [of "Some (lock_ts l)"] by (cases m) (auto simp: e Some, metis leD)
    next
      case False
      then obtain t' where t': "m = Some t'" "t' \<le> lock_ts l" by (cases m) (auto simp: not_less)
      then have "foldl min_lock_step m (e # es) = foldl min_lock_step m es"
        by (simp add: e Some leD)
      then show ?thesis
        using t' Cons.IH [of m] by (auto simp: e Some)
    qed
  qed
qed auto

end
