(* ===== verification/Mvcc_Txn.thy ===== *)
theory Mvcc_Txn
  imports Concurrency_Manager
begin

text \<open>
  The buffer of modifications an action fills, \<^verbatim>\<open>src/storage/mvcc/txn.rs\<close>.  An action takes the
  buffer and returns its result with the buffer, since the code keeps what was pushed before an
  error.  The second part says what a batch that touches a single user key does to the engine:
  the engine stays well formed and no other key changes.
\<close>

section \<open>Released locks and the buffer\<close>

definition MAX_TXN_WRITE_SIZE :: nat where "MAX_TXN_WRITE_SIZE = 32 * 1024"

record gc_info =
  found_versions :: nat
  deleted_versions :: nat
  is_completed :: bool

record released_lock =
  rl_start_ts :: ts
  rl_commit_ts :: ts
  rl_key :: key
  rl_pessimistic :: bool

definition ReleasedLock_new :: "ts \<Rightarrow> ts \<Rightarrow> key \<Rightarrow> bool \<Rightarrow> released_lock" where
  "ReleasedLock_new start_ts commit_ts k pessimistic =
     \<lparr> rl_start_ts = start_ts, rl_commit_ts = commit_ts, rl_key = k, rl_pessimistic = pessimistic \<rparr>"

text \<open>The guards are the keys whose entry in the lock table lives as long as the buffer.\<close>

record mvcc_txn =
  txn_start_ts :: ts
  txn_write_size :: nat
  txn_modifies :: "modify list"
  txn_locks_for_1pc :: "(key \<times> lock \<times> bool) list"
  txn_new_locks :: "lock_info list"
  txn_cm :: concurrency_manager
  txn_guards :: "key list"

type_synonym 'a action = "mvcc_txn \<Rightarrow> (mvcc_error + 'a) \<times> mvcc_txn"

definition MvccTxn_new :: "ts \<Rightarrow> concurrency_manager \<Rightarrow> mvcc_txn" where
  "MvccTxn_new start_ts cm =
     \<lparr> txn_start_ts = start_ts, txn_write_size = 0, txn_modifies = [], txn_locks_for_1pc = [],
       txn_new_locks = [], txn_cm = cm, txn_guards = [] \<rparr>"

definition into_modifies :: "mvcc_txn \<Rightarrow> mvcc_error + modify list" where
  "into_modifies txn = (if txn_locks_for_1pc txn = [] then Inr (txn_modifies txn) else Inl MPanic)"

definition take_guards :: "mvcc_txn \<Rightarrow> key list \<times> mvcc_txn" where
  "take_guards txn = (txn_guards txn, txn\<lparr>txn_guards := []\<rparr>)"

definition take_new_locks :: "mvcc_txn \<Rightarrow> lock_info list \<times> mvcc_txn" where
  "take_new_locks txn = (txn_new_locks txn, txn\<lparr>txn_new_locks := []\<rparr>)"

definition txn_is_empty :: "mvcc_txn \<Rightarrow> bool" where
  "txn_is_empty txn \<longleftrightarrow> txn_modifies txn = [] \<and> txn_locks_for_1pc txn = []"

text \<open>Pushing a modification and counting its size, which every \<^verbatim>\<open>Put\<close> and \<^verbatim>\<open>Delete\<close> has.\<close>

definition push_modify :: "modify \<Rightarrow> mvcc_txn \<Rightarrow> mvcc_txn" where
  "push_modify m txn =
     txn\<lparr>txn_write_size := txn_write_size txn + (case modify_size m of Some n \<Rightarrow> n | None \<Rightarrow> 0),
         txn_modifies := txn_modifies txn @ [m]\<rparr>"

definition push_new_lock :: "key \<Rightarrow> lock \<Rightarrow> bool \<Rightarrow> unit action" where
  "push_new_lock k l is_new txn =
     (if is_new then
        (case Key_to_raw k of
           Inl _ \<Rightarrow> (Inl MPanic, txn)
         | Inr raw \<Rightarrow> (Inr (), txn\<lparr>txn_new_locks := txn_new_locks txn @ [into_lock_info l raw]\<rparr>))
      else (Inr (), txn))"

definition put_lock :: "key \<Rightarrow> lock \<Rightarrow> bool \<Rightarrow> unit action" where
  "put_lock k l is_new txn =
     st_bind (push_new_lock k l is_new txn) (\<lambda>_ txn.
       (Inr (), push_modify (ModPut CF_LOCK k (Lock_to_bytes l)) txn))"

definition put_locks_for_1pc :: "key \<Rightarrow> lock \<Rightarrow> bool \<Rightarrow> mvcc_txn \<Rightarrow> mvcc_txn" where
  "put_locks_for_1pc k l remove_pessimistic_lock txn =
     txn\<lparr>txn_locks_for_1pc := txn_locks_for_1pc txn @ [(k, l, remove_pessimistic_lock)]\<rparr>"

text \<open>A pessimistic lock does not count for the size of the writes.\<close>

definition put_pessimistic_lock :: "key \<Rightarrow> pessimistic_lock \<Rightarrow> bool \<Rightarrow> unit action" where
  "put_pessimistic_lock k l is_new txn =
     st_bind (push_new_lock k (PessimisticLock_to_lock l) is_new txn) (\<lambda>_ txn.
       (Inr (), txn\<lparr>txn_modifies := txn_modifies txn @ [ModPessimisticLock k l]\<rparr>))"

definition unlock_key :: "key \<Rightarrow> bool \<Rightarrow> ts \<Rightarrow> mvcc_txn \<Rightarrow> released_lock option \<times> mvcc_txn" where
  "unlock_key k pessimistic commit_ts txn =
     (Some (ReleasedLock_new (txn_start_ts txn) commit_ts k pessimistic),
      push_modify (ModDelete CF_LOCK k) txn)"

definition put_value :: "key \<Rightarrow> ts \<Rightarrow> value_bytes \<Rightarrow> mvcc_txn \<Rightarrow> mvcc_txn" where
  "put_value k t v = push_modify (ModPut CF_DEFAULT (append_ts k t) v)"

definition delete_value :: "key \<Rightarrow> ts \<Rightarrow> mvcc_txn \<Rightarrow> mvcc_txn" where
  "delete_value k t = push_modify (ModDelete CF_DEFAULT (append_ts k t))"

definition put_write :: "key \<Rightarrow> ts \<Rightarrow> value_bytes \<Rightarrow> mvcc_txn \<Rightarrow> mvcc_txn" where
  "put_write k t v = push_modify (ModPut CF_WRITE (append_ts k t) v)"

definition delete_write :: "key \<Rightarrow> ts \<Rightarrow> mvcc_txn \<Rightarrow> mvcc_txn" where
  "delete_write k t = push_modify (ModDelete CF_WRITE (append_ts k t))"

definition mark_rollback_on_mismatching_lock :: "key \<Rightarrow> lock \<Rightarrow> bool \<Rightarrow> unit action" where
  "mark_rollback_on_mismatching_lock k l protected txn =
     (if lock_ts l = txn_start_ts txn then (Inl MPanic, txn)
      else if \<not> protected then (Inr (), txn)
      else if txn_start_ts txn < lock_min_commit_ts l then (Inr (), txn)
      else if \<not> lock_use_async_commit l then (Inr (), txn)
      else put_lock k (l\<lparr>lock_rollback_ts := lock_rollback_ts l @ [txn_start_ts txn]\<rparr>) False txn)"

text \<open>Clearing the guards drops them, which takes their keys out of the lock table.\<close>

definition clear :: "mvcc_txn \<Rightarrow> mvcc_txn" where
  "clear txn =
     txn\<lparr>txn_write_size := 0, txn_modifies := [], txn_new_locks := [], txn_locks_for_1pc := [],
         txn_guards := [], txn_cm := fold drop_guard (txn_guards txn) (txn_cm txn)\<rparr>"

section \<open>Rules\<close>

named_theorems txn_simps \<open>what an operation pushes into the buffer\<close>

lemma push_modify_fields [simp]:
  "txn_modifies (push_modify m txn) = txn_modifies txn @ [m]"
  "txn_start_ts (push_modify m txn) = txn_start_ts txn"
  "txn_cm (push_modify m txn) = txn_cm txn"
  "txn_guards (push_modify m txn) = txn_guards txn"
  "txn_locks_for_1pc (push_modify m txn) = txn_locks_for_1pc txn"
  "txn_new_locks (push_modify m txn) = txn_new_locks txn"
  by (simp_all add: push_modify_def)

lemma MvccTxn_new_fields [simp]:
  "txn_modifies (MvccTxn_new s cm) = []"
  "txn_start_ts (MvccTxn_new s cm) = s"
  "txn_cm (MvccTxn_new s cm) = cm"
  "txn_locks_for_1pc (MvccTxn_new s cm) = []"
  "txn_guards (MvccTxn_new s cm) = []"
  by (simp_all add: MvccTxn_new_def)

lemmas push_defs [txn_simps] =
  unlock_key_def put_value_def delete_value_def put_write_def delete_write_def

lemma st_bind_Pair [simp]: "st_bind (r, s) f = (case r of Inl e \<Rightarrow> (Inl e, s) | Inr x \<Rightarrow> f x s)"
  by (cases r) simp_all

lemma key_raw [simp]:
  "Key_to_raw (Key_from_raw u) = Inr u"
  "Key_into_raw (Key_from_raw u) = Inr u"
  by (simp_all add: to_raw_from_raw into_raw_eq_to_raw)

lemma put_lock_old [txn_simps]:
  "put_lock k l False txn = (Inr (), push_modify (ModPut CF_LOCK k (Lock_to_bytes l)) txn)"
  by (simp add: put_lock_def push_new_lock_def)

lemma put_lock_pushes:
  "fst (put_lock (Key_from_raw u) l is_new txn) = Inr () \<and>
   txn_modifies (snd (put_lock (Key_from_raw u) l is_new txn)) =
     txn_modifies txn @ [ModPut CF_LOCK (Key_from_raw u) (Lock_to_bytes l)]"
  by (simp add: put_lock_def push_new_lock_def)

section \<open>Batches that touch one key\<close>

text \<open>
  What the engine stores of one user key, and the operations on it that the modifications of an
  action stand for.
\<close>

record key_state =
  ks_versions :: "ts \<Rightarrow> write_record option"
  ks_lock :: "lock option"
  ks_values :: "ts \<Rightarrow> value_bytes option"

definition key_state_of :: "engine \<Rightarrow> bytes \<Rightarrow> key_state" where
  "key_state_of e u = \<lparr> ks_versions = versions e u, ks_lock = lock_of e u, ks_values = value_of e u \<rparr>"

datatype key_op =
    PutWrite ts "write_record"
  | DelWrite ts
  | PutLock lock
  | PutPessimisticLock pessimistic_lock
  | DelLock
  | PutValue ts value_bytes
  | DelValue ts

fun modify_of :: "bytes \<Rightarrow> key_op \<Rightarrow> modify" where
  "modify_of u (PutWrite t w) = ModPut CF_WRITE (append_ts (Key_from_raw u) t) (Write_to_bytes w)"
| "modify_of u (DelWrite t) = ModDelete CF_WRITE (append_ts (Key_from_raw u) t)"
| "modify_of u (PutLock l) = ModPut CF_LOCK (Key_from_raw u) (Lock_to_bytes l)"
| "modify_of u (PutPessimisticLock p) = ModPessimisticLock (Key_from_raw u) p"
| "modify_of u DelLock = ModDelete CF_LOCK (Key_from_raw u)"
| "modify_of u (PutValue t v) = ModPut CF_DEFAULT (append_ts (Key_from_raw u) t) v"
| "modify_of u (DelValue t) = ModDelete CF_DEFAULT (append_ts (Key_from_raw u) t)"

fun apply_op :: "key_state \<Rightarrow> key_op \<Rightarrow> key_state" where
  "apply_op ks (PutWrite t w) = ks\<lparr>ks_versions := (ks_versions ks)(t := Some w)\<rparr>"
| "apply_op ks (DelWrite t) = ks\<lparr>ks_versions := (ks_versions ks)(t := None)\<rparr>"
| "apply_op ks (PutLock l) = ks\<lparr>ks_lock := Some l\<rparr>"
| "apply_op ks (PutPessimisticLock p) = ks\<lparr>ks_lock := Some (PessimisticLock_to_lock p)\<rparr>"
| "apply_op ks DelLock = ks\<lparr>ks_lock := None\<rparr>"
| "apply_op ks (PutValue t v) = ks\<lparr>ks_values := (ks_values ks)(t := Some v)\<rparr>"
| "apply_op ks (DelValue t) = ks\<lparr>ks_values := (ks_values ks)(t := None)\<rparr>"

fun wf_op :: "key_op \<Rightarrow> bool" where
  "wf_op (PutWrite t w) \<longleftrightarrow> wf_write w"
| "wf_op (PutLock l) \<longleftrightarrow> wf_lock l"
| "wf_op (PutPessimisticLock p) \<longleftrightarrow> wf_lock (PessimisticLock_to_lock p)"
| "wf_op _ \<longleftrightarrow> True"

lemma key_state_of_sel [simp]:
  "ks_versions (key_state_of e u) = versions e u"
  "ks_lock (key_state_of e u) = lock_of e u"
  "ks_values (key_state_of e u) = value_of e u"
  by (simp_all add: key_state_of_def)

lemma write_modifies_append:
  "write_modifies e (ms @ ns) = res_bind (write_modifies e ms) (\<lambda>e. write_modifies e ns)"
  by (induction e ms rule: write_modifies.induct) simp_all

lemma modify_of_step:
  assumes "wf_engine e" "wf_op op"
  obtains e' where "write_modifies e (modify_of u op # ms) = write_modifies e' ms" "wf_engine e'"
    "key_state_of e' u = apply_op (key_state_of e u) op"
    "\<And>u'. u' \<noteq> u \<Longrightarrow> key_state_of e' u' = key_state_of e u'"
proof -
  have "\<exists>e'. write_modifies e (modify_of u op # ms) = write_modifies e' ms \<and> wf_engine e' \<and>
      key_state_of e' u = apply_op (key_state_of e u) op \<and>
      (\<forall>u'. u' \<noteq> u \<longrightarrow> key_state_of e' u' = key_state_of e u')"
    by (insert assms, cases op; simp only: modify_of.simps write_modifies.simps;
        intro exI, rule conjI, rule refl)
      (simp_all add: key_state_of_def store_simps fun_eq_iff)
  then show ?thesis using that by blast
qed

text \<open>A batch on one key is a sequence of operations on its state and leaves the other keys alone.\<close>

lemma write_modifies_ops:
  assumes "wf_engine e" "list_all wf_op ops"
  obtains e' where "write_modifies e (map (modify_of u) ops) = Inr e'" "wf_engine e'"
    "key_state_of e' u = foldl apply_op (key_state_of e u) ops"
    "\<And>u'. u' \<noteq> u \<Longrightarrow> key_state_of e' u' = key_state_of e u'"
  using assms
proof (induction ops arbitrary: e thesis)
  case (Cons op ops)
  from Cons.prems(3) have op: "wf_op op" and ops: "list_all wf_op ops" by simp_all
  obtain e1 where e1: "write_modifies e (modify_of u op # map (modify_of u) ops) =
        write_modifies e1 (map (modify_of u) ops)" "wf_engine e1"
      "key_state_of e1 u = apply_op (key_state_of e u) op"
      "\<And>u'. u' \<noteq> u \<Longrightarrow> key_state_of e1 u' = key_state_of e u'"
    using modify_of_step [OF Cons.prems(2) op] by metis
  obtain e' where "write_modifies e1 (map (modify_of u) ops) = Inr e'" "wf_engine e'"
      "key_state_of e' u = foldl apply_op (key_state_of e1 u) ops"
      "\<And>u'. u' \<noteq> u \<Longrightarrow> key_state_of e' u' = key_state_of e1 u'"
    using Cons.IH [OF _ e1(2) ops] by metis
  with e1 Cons.prems(1) show ?case by simp
qed simp

section \<open>Running an action\<close>

text \<open>
  An action runs on a snapshot with an empty buffer; when it succeeds its batch is written, when
  it fails nothing is.
\<close>

definition run_action ::
    "snapshot_reader \<Rightarrow> concurrency_manager \<Rightarrow> (snapshot_reader \<Rightarrow> 'a action) \<Rightarrow> mvcc_error + 'a \<times> engine" where
  "run_action sr cm act =
     (case act sr (MvccTxn_new (sr_start_ts sr) cm) of
        (Inl err, txn) \<Rightarrow> Inl err
      | (Inr x, txn) \<Rightarrow>
          res_bind (into_modifies txn) (\<lambda>ms.
          res_bind (res_map_err from_kv_error (write_modifies (rd_engine (sr_reader sr)) ms)) (\<lambda>e.
            Inr (x, e))))"

abbreviation sr_engine :: "snapshot_reader \<Rightarrow> engine" where
  "sr_engine sr \<equiv> rd_engine (sr_reader sr)"

text \<open>
  The contract of an action on one key: on a well formed engine that meets its precondition it
  only pushes well formed operations on that key.
\<close>

definition pushes :: "bytes \<Rightarrow> mvcc_txn \<Rightarrow> key_op list \<Rightarrow> mvcc_txn \<Rightarrow> bool" where
  "pushes u txn ops txn' \<longleftrightarrow>
     txn_modifies txn' = txn_modifies txn @ map (modify_of u) ops \<and>
     txn_start_ts txn' = txn_start_ts txn \<and> txn_locks_for_1pc txn' = txn_locks_for_1pc txn \<and>
     list_all wf_op ops"

lemma pushes_refl [simp]: "pushes u txn [] txn"
  by (simp add: pushes_def)

lemma pushes_trans: "pushes u txn ops txn' \<Longrightarrow> pushes u txn' ops' txn'' \<Longrightarrow> pushes u txn (ops @ ops') txn''"
  by (auto simp: pushes_def)

lemma pushes_modify:
  "pushes u txn ops txn' \<Longrightarrow> wf_op op \<Longrightarrow> pushes u txn (ops @ [op]) (push_modify (modify_of u op) txn')"
  by (auto simp: pushes_def)

lemma run_action_ops:
  assumes "wf_engine (sr_engine sr)"
    and "act sr (MvccTxn_new (sr_start_ts sr) cm) = (Inr x, txn')"
    and "pushes u (MvccTxn_new (sr_start_ts sr) cm) ops txn'"
  obtains e' where "run_action sr cm act = Inr (x, e')" "wf_engine e'"
    "key_state_of e' u = foldl apply_op (key_state_of (sr_engine sr) u) ops"
    "\<And>u'. u' \<noteq> u \<Longrightarrow> key_state_of e' u' = key_state_of (sr_engine sr) u'"
proof -
  have "list_all wf_op ops" using assms(3) by (simp add: pushes_def)
  from write_modifies_ops [OF assms(1) this] obtain e' where
    e': "write_modifies (sr_engine sr) (map (modify_of u) ops) = Inr e'" "wf_engine e'"
    "key_state_of e' u = foldl apply_op (key_state_of (sr_engine sr) u) ops"
    "\<And>u'. u' \<noteq> u \<Longrightarrow> key_state_of e' u' = key_state_of (sr_engine sr) u'" by metis
  have "run_action sr cm act = Inr (x, e')"
    using assms(2,3) e'(1) by (simp add: run_action_def into_modifies_def pushes_def)
  with e' show ?thesis using that by blast
qed

lemma run_action_success:
  assumes "wf_engine (sr_engine sr)" "run_action sr cm act = Inr (x, e')"
    and "act sr (MvccTxn_new (sr_start_ts sr) cm) = (r, txn')"
    and "pushes u (MvccTxn_new (sr_start_ts sr) cm) ops txn'"
  shows "r = Inr x" "wf_engine e'" "key_state_of e' u = foldl apply_op (key_state_of (sr_engine sr) u) ops"
    "u' \<noteq> u \<Longrightarrow> key_state_of e' u' = key_state_of (sr_engine sr) u'"
proof -
  show r: "r = Inr x" using assms(2,3) by (auto simp: run_action_def split: sum.splits)
  obtain e1 where "run_action sr cm act = Inr (x, e1)" "wf_engine e1"
    "key_state_of e1 u = foldl apply_op (key_state_of (sr_engine sr) u) ops"
    "\<And>u'. u' \<noteq> u \<Longrightarrow> key_state_of e1 u' = key_state_of (sr_engine sr) u'"
    using run_action_ops [where act = act, OF assms(1) assms(3) [unfolded r] assms(4)] by blast
  with assms(2) show "wf_engine e'" "key_state_of e' u = foldl apply_op (key_state_of (sr_engine sr) u) ops"
    "u' \<noteq> u \<Longrightarrow> key_state_of e' u' = key_state_of (sr_engine sr) u'" by auto
qed

lemma run_action_error:
  "act sr (MvccTxn_new (sr_start_ts sr) cm) = (Inl err, txn') \<Longrightarrow> run_action sr cm act = Inl err"
  by (simp add: run_action_def)

locale key_action =
  fixes act :: "snapshot_reader \<Rightarrow> bytes \<Rightarrow> 'a action"
    and ready :: "snapshot_reader \<Rightarrow> bytes \<Rightarrow> bool"
  assumes pushes_ops:
    "wf_engine (sr_engine sr) \<Longrightarrow> ready sr u \<Longrightarrow> txn_start_ts txn = sr_start_ts sr \<Longrightarrow>
     \<exists>ops. pushes u txn ops (snd (act sr u txn))"
begin

lemma run_frame:
  assumes "wf_engine (sr_engine sr)" "ready sr u" "run_action sr cm (\<lambda>sr. act sr u) = Inr (x, e')"
  shows "wf_engine e' \<and> (\<forall>u'. u' \<noteq> u \<longrightarrow> key_state_of e' u' = key_state_of (sr_engine sr) u')"
proof -
  obtain ops where "pushes u (MvccTxn_new (sr_start_ts sr) cm) ops (snd (act sr u (MvccTxn_new (sr_start_ts sr) cm)))"
    using pushes_ops [OF assms(1,2), of "MvccTxn_new (sr_start_ts sr) cm"] by auto
  from run_action_success [OF assms(1,3) surjective_pairing this] show ?thesis by blast
qed

end

end
