(* ===== verification/Txn_Status.thy ===== *)
theory Txn_Status
  imports Mvcc_Txn
begin

text \<open>
  Deciding and cleaning up transactions, \<^verbatim>\<open>src/storage/txn/actions/check_txn_status.rs\<close> and
  \<^verbatim>\<open>src/storage/txn/actions/cleanup.rs\<close>, with the status type of \<^verbatim>\<open>src/storage/types.rs\<close>: the
  check of a primary key with and without its lock, rolling back a lock, collapsing the previous
  rollback and the cleanup of a key.  An expiry test adds 64 bit numbers that wrap.
\<close>

section \<open>The status of a transaction\<close>

datatype txn_status =
    RolledBack
  | TtlExpire
  | LockNotExist
  | Uncommitted lock bool
  | TxnCommitted ts
  | PessimisticRollBack
  | LockNotExistDoNothing

fun is_decided :: "txn_status \<Rightarrow> bool" where
  "is_decided RolledBack \<longleftrightarrow> True"
| "is_decided TtlExpire \<longleftrightarrow> True"
| "is_decided (TxnCommitted c) \<longleftrightarrow> True"
| "is_decided _ \<longleftrightarrow> False"

section \<open>Rollback records\<close>

definition make_rollback :: "ts \<Rightarrow> bool \<Rightarrow> overlapped_write option \<Rightarrow> mvcc_error + write_record option" where
  "make_rollback start_ts protected ow =
     (case ow of
        Some o' \<Rightarrow>
          if \<not> write_start_ts (ow_write o') < start_ts then Inl MPanic
          else if protected then Inr (Some (set_overlapped_rollback True (Some (ow_gc_fence o')) (ow_write o')))
          else Inr None
      | None \<Rightarrow> Inr (Some (new_rollback start_ts protected)))"

definition collapse_prev_rollback :: "snapshot_reader \<Rightarrow> key \<Rightarrow> unit action" where
  "collapse_prev_rollback sr k txn =
     st_bind (sr_seek_write sr k (sr_start_ts sr), txn) (\<lambda>res txn.
       case res of
         Some (commit_ts, w) \<Rightarrow>
           (Inr (), if write_type w = WTRollback \<and> \<not> is_protected w then delete_write k commit_ts txn else txn)
       | None \<Rightarrow> (Inr (), txn))"

datatype missing_lock_action = Rollback | ProtectedRollback | ReturnError

definition action_rollback_protect :: "bool \<Rightarrow> missing_lock_action" where
  "action_rollback_protect protect_rollback = (if protect_rollback then ProtectedRollback else Rollback)"

definition action_rollback :: "bool \<Rightarrow> missing_lock_action" where
  "action_rollback rollback_if_not_exist = (if rollback_if_not_exist then ProtectedRollback else ReturnError)"

fun collapse_rollback :: "missing_lock_action \<Rightarrow> mvcc_error + bool" where
  "collapse_rollback Rollback = Inr True"
| "collapse_rollback ProtectedRollback = Inr False"
| "collapse_rollback ReturnError = Inl MPanic"

definition construct_write ::
    "missing_lock_action \<Rightarrow> ts \<Rightarrow> overlapped_write option \<Rightarrow> mvcc_error + write_record option" where
  "construct_write action t ow =
     res_bind (collapse_rollback action) (\<lambda>collapse. make_rollback t (\<not> collapse) ow)"

definition put_rollback :: "key \<Rightarrow> ts \<Rightarrow> write_record option \<Rightarrow> mvcc_txn \<Rightarrow> mvcc_txn" where
  "put_rollback k t w txn = (case w of Some w \<Rightarrow> put_write k t (Write_to_bytes w) txn | None \<Rightarrow> txn)"

definition rollback_lock :: "snapshot_reader \<Rightarrow> key \<Rightarrow> lock \<Rightarrow> bool \<Rightarrow> bool \<Rightarrow> released_lock option action" where
  "rollback_lock sr k l pessimistic collapse txn =
     st_bind (sr_get_txn_commit_record sr k, txn) (\<lambda>rec txn.
       let unlock = (\<lambda>txn. case unlock_key k pessimistic 0 txn of (rl, txn) \<Rightarrow> (Inr rl, txn)) in
       case rec of
         RecordNone ow \<Rightarrow>
           (let txn = (if lock_short_value l = None \<and> lock_type l = LTPut
                       then delete_value k (lock_ts l) txn else txn);
                protected = Key_is_encoded_from k (lock_primary l) \<or> 0 < lock_generation l in
            st_bind (make_rollback (sr_start_ts sr) protected ow, txn) (\<lambda>w txn.
              let txn = put_rollback k (sr_start_ts sr) w txn in
              st_bind (if collapse then collapse_prev_rollback sr k txn else (Inr (), txn)) (\<lambda>_ txn.
                unlock txn)))
       | SingleRecord commit_ts w \<Rightarrow> if write_type w \<noteq> WTRollback then (Inl MPanic, txn) else unlock txn
       | OverlappedRollback commit_ts \<Rightarrow> unlock txn)"

section \<open>Checking the status\<close>

definition status_of_write :: "ts \<Rightarrow> write_record \<Rightarrow> txn_status" where
  "status_of_write commit_ts w = (if write_type w = WTRollback then RolledBack else TxnCommitted commit_ts)"

definition check_determined_txn_status :: "snapshot_reader \<Rightarrow> key \<Rightarrow> mvcc_error + txn_status option" where
  "check_determined_txn_status sr primary_key =
     res_bind (sr_get_txn_commit_record sr primary_key) (\<lambda>rec.
       case rec of
         SingleRecord commit_ts w \<Rightarrow> Inr (Some (status_of_write commit_ts w))
       | OverlappedRollback commit_ts \<Rightarrow> Inr (Some RolledBack)
       | RecordNone ow \<Rightarrow> Inr None)"

definition check_txn_status_missing_lock ::
    "snapshot_reader \<Rightarrow> key \<Rightarrow> lock option \<Rightarrow> missing_lock_action \<Rightarrow> bool \<Rightarrow> txn_status action" where
  "check_txn_status_missing_lock sr primary_key mismatch_lock action resolving_pessimistic_lock txn =
     st_bind (sr_get_txn_commit_record sr primary_key, txn) (\<lambda>rec txn.
       case rec of
         SingleRecord commit_ts w \<Rightarrow> (Inr (status_of_write commit_ts w), txn)
       | OverlappedRollback commit_ts \<Rightarrow> (Inr RolledBack, txn)
       | RecordNone ow \<Rightarrow>
           if action = ReturnError then
             (try_codec (Key_into_raw primary_key) (\<lambda>raw. Inl (TxnNotFound (sr_start_ts sr) raw)), txn)
           else if resolving_pessimistic_lock then (Inr LockNotExistDoNothing, txn)
           else
             st_bind (collapse_rollback action, txn) (\<lambda>collapse txn.
             st_bind (if collapse then collapse_prev_rollback sr primary_key txn else (Inr (), txn)) (\<lambda>_ txn.
             st_bind
               (case (mismatch_lock, ow) of
                  (Some l, None) \<Rightarrow>
                    mark_rollback_on_mismatching_lock primary_key l (action = ProtectedRollback) txn
                | _ \<Rightarrow> (Inr (), txn)) (\<lambda>_ txn.
             st_bind (construct_write action (sr_start_ts sr) ow, txn) (\<lambda>w txn.
               (Inr LockNotExist, put_rollback primary_key (sr_start_ts sr) w txn))))))"

definition ttl_expired :: "lock \<Rightarrow> ts \<Rightarrow> bool" where
  "ttl_expired l current_ts \<longleftrightarrow> physical (lock_ts l) + lock_ttl l < physical current_ts"

definition check_txn_status_from_pessimistic_primary_lock ::
    "snapshot_reader \<Rightarrow> key \<Rightarrow> lock \<Rightarrow> ts \<Rightarrow> bool \<Rightarrow> (txn_status option \<times> released_lock option) action" where
  "check_txn_status_from_pessimistic_primary_lock sr primary_key l current_ts resolving_pessimistic_lock txn =
     (if \<not> is_pessimistic_lock l then (Inl MPanic, txn)
      else
        st_bind
          (if is_pessimistic_lock_with_conflict l then check_determined_txn_status sr primary_key
           else Inr None, txn) (\<lambda>determined txn.
          case determined of
            Some st \<Rightarrow> (case unlock_key primary_key True 0 txn of (rl, txn) \<Rightarrow> (Inr (Some st, rl), txn))
          | None \<Rightarrow>
              if ttl_expired l current_ts then
                (if resolving_pessimistic_lock then
                   (case unlock_key primary_key True 0 txn of (rl, txn) \<Rightarrow>
                      (Inr (Some PessimisticRollBack, rl), txn))
                 else
                   st_bind (rollback_lock sr primary_key l True True txn) (\<lambda>rl txn.
                     (Inr (Some TtlExpire, rl), txn)))
              else (Inr (None, None), txn)))"

text \<open>The last part of the check, when the transaction is alive: pushing its least commit timestamp.\<close>

definition push_min_commit_ts :: "key \<Rightarrow> lock \<Rightarrow> ts \<Rightarrow> ts \<Rightarrow> lock action" where
  "push_min_commit_ts primary_key l current_ts caller_start_ts txn =
     (if \<not> is_zero (lock_min_commit_ts l) \<and> \<not> is_max caller_start_ts \<and> lock_min_commit_ts l \<le> caller_start_ts
      then
        st_bind (unwrap (ts_next caller_start_ts), txn) (\<lambda>next_ts txn.
          let l = l\<lparr>lock_min_commit_ts := if next_ts < current_ts then current_ts else next_ts\<rparr> in
          st_bind (put_lock primary_key l False txn) (\<lambda>_ txn. (Inr l, txn)))
      else (Inr l, txn))"

definition min_commit_ts_pushed :: "lock \<Rightarrow> ts \<Rightarrow> bool" where
  "min_commit_ts_pushed l caller_start_ts \<longleftrightarrow>
     (\<not> is_zero caller_start_ts \<and> caller_start_ts < lock_min_commit_ts l) \<or> is_max caller_start_ts"

definition check_txn_status_lock_exists ::
    "snapshot_reader \<Rightarrow> key \<Rightarrow> lock \<Rightarrow> ts \<Rightarrow> ts \<Rightarrow> bool \<Rightarrow> bool \<Rightarrow> bool \<Rightarrow> bool \<Rightarrow>
     (txn_status \<times> released_lock option) action" where
  "check_txn_status_lock_exists sr primary_key l current_ts caller_start_ts force_sync_commit
       resolving_pessimistic_lock verify_is_primary rollback_if_not_exist txn =
     (if verify_is_primary \<and> \<not> Key_is_encoded_from primary_key (lock_primary l) then
        (if \<not> resolving_pessimistic_lock \<and> is_pessimistic_lock l then
           st_bind
             (check_txn_status_missing_lock sr primary_key None (action_rollback rollback_if_not_exist)
                resolving_pessimistic_lock txn) (\<lambda>st txn.
             case unlock_key primary_key True 0 txn of (rl, txn) \<Rightarrow> (Inr (st, rl), txn))
         else
           (try_codec (Key_into_raw primary_key) (\<lambda>raw. Inl (PrimaryMismatch (into_lock_info l raw))), txn))
      else if lock_use_async_commit l \<and> \<not> force_sync_commit then (Inr (Uncommitted l False, None), txn)
      else
        (let alive = (\<lambda>txn.
           st_bind (push_min_commit_ts primary_key l current_ts caller_start_ts txn) (\<lambda>l txn.
             (Inr (Uncommitted l (min_commit_ts_pushed l caller_start_ts), None), txn))) in
         if is_pessimistic_lock l then
           st_bind
             (check_txn_status_from_pessimistic_primary_lock sr primary_key l current_ts
                resolving_pessimistic_lock txn) (\<lambda>res txn.
             case res of
               (Some st, Some rl) \<Rightarrow> (Inr (st, Some rl), txn)
             | (None, None) \<Rightarrow> alive txn
             | _ \<Rightarrow> (Inl MPanic, txn))
         else if ttl_expired l current_ts then
           st_bind
             (rollback_lock sr primary_key l (\<not> is_zero (lock_for_update_ts l)) True txn) (\<lambda>rl txn.
             (Inr (TtlExpire, rl), txn))
         else alive txn))"

section \<open>Cleaning up a key\<close>

definition cleanup :: "snapshot_reader \<Rightarrow> key \<Rightarrow> ts \<Rightarrow> bool \<Rightarrow> released_lock option action" where
  "cleanup sr k current_ts protect_rollback txn =
     st_bind (sr_load_lock sr k, txn) (\<lambda>lk txn.
       case (case lk of Some l \<Rightarrow> if lock_ts l = sr_start_ts sr then Some l else None | None \<Rightarrow> None) of
         Some l \<Rightarrow>
           if \<not> is_zero current_ts \<and> physical current_ts \<le> physical (lock_ts l) + lock_ttl l then
             (try_codec (Key_into_raw k) (\<lambda>raw. Inl (KeyIsLocked (into_lock_info l raw))), txn)
           else rollback_lock sr k l (is_pessimistic_txn l) (\<not> protect_rollback) txn
       | None \<Rightarrow>
           st_bind
             (check_txn_status_missing_lock sr k lk (action_rollback_protect protect_rollback) False txn) (\<lambda>st txn.
             case st of
               TxnCommitted commit_ts \<Rightarrow>
                 (try_codec (Key_into_raw k) (\<lambda>raw. Inl (Committed (sr_start_ts sr) commit_ts raw)), txn)
             | RolledBack \<Rightarrow> (Inr None, txn)
             | LockNotExist \<Rightarrow> (Inr None, txn)
             | _ \<Rightarrow> (Inl MPanic, txn)))"

section \<open>What the actions write\<close>

text \<open>
  A record of a transaction stands above its start; a rollback stands at it.  A GC fence comes
  with an overlapped rollback.
\<close>

definition records_ok :: "(ts \<Rightarrow> write_record option) \<Rightarrow> bool" where
  "records_ok vs \<longleftrightarrow>
     (\<forall>c w. vs c = Some w \<longrightarrow>
        (if write_type w = WTRollback then write_start_ts w = c else write_start_ts w < c) \<and>
        (gc_fence w = None \<or> has_overlapped_rollback w))"

definition rollback_record :: "(ts \<Rightarrow> write_record option) \<Rightarrow> ts \<Rightarrow> bool \<Rightarrow> write_record option" where
  "rollback_record vs s protected =
     (case vs s of
        None \<Rightarrow> Some (new_rollback s protected)
      | Some w \<Rightarrow>
          if protected then Some (set_overlapped_rollback True (Some (next_data vs s)) w) else None)"

definition rollback_ops :: "(ts \<Rightarrow> write_record option) \<Rightarrow> ts \<Rightarrow> bool \<Rightarrow> key_op list" where
  "rollback_ops vs s protected =
     (case rollback_record vs s protected of Some w \<Rightarrow> [PutWrite s w] | None \<Rightarrow> [])"

definition collapse_ops :: "(ts \<Rightarrow> write_record option) \<Rightarrow> ts \<Rightarrow> bool \<Rightarrow> key_op list" where
  "collapse_ops vs s collapse =
     (case latest vs s of
        Some (c, w) \<Rightarrow> if collapse \<and> write_type w = WTRollback \<and> \<not> is_protected w then [DelWrite c] else []
      | None \<Rightarrow> [])"

lemma records_okD:
  "records_ok vs \<Longrightarrow> vs c = Some w \<Longrightarrow> write_start_ts w \<le> c"
  "records_ok vs \<Longrightarrow> vs c = Some w \<Longrightarrow> write_type w = WTRollback \<longleftrightarrow> write_start_ts w = c"
  "records_ok vs \<Longrightarrow> vs c = Some w \<Longrightarrow> \<not> has_overlapped_rollback w \<Longrightarrow> gc_fence w = None"
  unfolding records_ok_def by (metis order.strict_implies_order order_refl order.strict_implies_not_eq)+

lemma records_ok_starts: "records_ok vs \<Longrightarrow> starts_ok vs"
  unfolding starts_ok_def using records_okD(1) by blast

lemma commit_record_none:
  "commit_record vs s = RecordNone ow \<longleftrightarrow>
     (\<forall>c. own vs s c = None) \<and> (\<forall>w. vs s = Some w \<longrightarrow> \<not> has_overlapped_rollback w) \<and>
     ow = map_option (\<lambda>w. \<lparr> ow_write = w, ow_gc_fence = next_data vs s \<rparr>) (vs s)"
proof (cases "latest (own vs s) ts_max")
  case None
  then have "\<forall>c. own vs s c = None" by (simp add: latest_None)
  with None show ?thesis by (auto simp: commit_record_def split: option.splits)
next
  case (Some p)
  obtain c w where "p = (c, w)" by (cases p)
  with Some have "own vs s c = Some w" by (simp add: latest_Some)
  with Some show ?thesis by (auto simp: commit_record_def split: prod.splits)
qed

lemma commit_record_noneD:
  assumes "commit_record vs s = RecordNone ow"
  shows "own vs s c = None" "vs c = Some w \<Longrightarrow> write_start_ts w \<noteq> s"
    "vs s = Some w \<Longrightarrow> \<not> has_overlapped_rollback w"
  using assms unfolding commit_record_none own_None by blast+

lemma make_rollback_eq:
  assumes "records_ok vs" "commit_record vs s = RecordNone ow"
  shows "make_rollback s protected ow = Inr (rollback_record vs s protected)"
proof (cases "vs s")
  case None
  with assms(2) show ?thesis by (simp add: commit_record_none make_rollback_def rollback_record_def)
next
  case (Some w)
  have "own vs s s = None" using assms(2) by (simp add: commit_record_none)
  with Some have "write_start_ts w \<noteq> s" by (simp add: own_def split: if_splits)
  with records_okD(1) [OF assms(1) Some] have "write_start_ts w < s" by simp
  with assms(2) Some show ?thesis by (simp add: commit_record_none make_rollback_def rollback_record_def)
qed

lemma wf_version: "wf_engine e \<Longrightarrow> versions e u t = Some w \<Longrightarrow> wf_write w"
  using versions_cases [of e u t] by auto

lemma wf_rollback_ops [simp]: "wf_engine e \<Longrightarrow> list_all wf_op (rollback_ops (versions e u) s protected)"
  using wf_version [of e u s]
  by (auto simp: rollback_ops_def rollback_record_def new_rollback_def Write_new_def wf_write_def
      set_overlapped_rollback_def PROTECTED_ROLLBACK_SHORT_VALUE_def is_short_value_def
      SHORT_VALUE_MAX_LEN_def split: option.splits)

lemma wf_collapse_ops [simp]: "list_all wf_op (collapse_ops vs s collapse)"
  by (auto simp: collapse_ops_def split: option.splits)

lemma put_rollback_pushes:
  assumes "wf_engine e" "pushes u txn ops txn'"
  shows "pushes u txn (ops @ rollback_ops (versions e u) s p)
    (put_rollback (Key_from_raw u) s (rollback_record (versions e u) s p) txn')"
  using wf_rollback_ops [OF assms(1), of u s p] assms(2) pushes_modify [OF assms(2), of "PutWrite s w" for w]
  by (cases "rollback_record (versions e u) s p")
    (simp_all add: put_rollback_def put_write_def rollback_ops_def)

lemma collapse_pushes:
  assumes "wf_engine (sr_engine sr)" "pushes u txn ops txn'"
  obtains txn'' where
    "(if collapse then collapse_prev_rollback sr (Key_from_raw u) txn' else (Inr (), txn')) = (Inr (), txn'')"
    "pushes u txn (ops @ collapse_ops (versions (sr_engine sr) u) (sr_start_ts sr) collapse) txn''"
proof (cases collapse)
  case True
  have "\<exists>txn''. collapse_prev_rollback sr (Key_from_raw u) txn' = (Inr (), txn'') \<and>
      pushes u txn (ops @ collapse_ops (versions (sr_engine sr) u) (sr_start_ts sr) True) txn''"
    using assms(2) pushes_modify [OF assms(2), of "DelWrite _"]
    by (auto simp: collapse_prev_rollback_def sr_seek_write_def seek_write_eq [OF assms(1)]
        collapse_ops_def delete_write_def split: option.splits)
  with True show ?thesis using that by auto
qed (use assms(2) that in \<open>simp add: collapse_ops_def split: option.splits\<close>)

definition rollback_protected :: "bytes \<Rightarrow> lock \<Rightarrow> bool" where
  "rollback_protected u l \<longleftrightarrow> u = lock_primary l \<or> 0 < lock_generation l"

definition rollback_lock_ops :: "(ts \<Rightarrow> write_record option) \<Rightarrow> bytes \<Rightarrow> ts \<Rightarrow> lock \<Rightarrow> bool \<Rightarrow> key_op list" where
  "rollback_lock_ops vs u s l collapse =
     (case commit_record vs s of
        RecordNone _ \<Rightarrow>
          (if lock_short_value l = None \<and> lock_type l = LTPut then [DelValue (lock_ts l)] else []) @
          rollback_ops vs s (rollback_protected u l) @ collapse_ops vs s collapse @ [DelLock]
      | _ \<Rightarrow> [DelLock])"

lemma rollback_lock_eq:
  assumes "wf_engine (sr_engine sr)" "records_ok (versions (sr_engine sr) u)"
    and "\<And>c w. commit_record (versions (sr_engine sr) u) (sr_start_ts sr) = SingleRecord c w \<Longrightarrow>
      write_type w = WTRollback"
  obtains txn' where
    "rollback_lock sr (Key_from_raw u) l p collapse txn =
       (Inr (Some (ReleasedLock_new (txn_start_ts txn) 0 (Key_from_raw u) p)), txn')"
    "pushes u txn (rollback_lock_ops (versions (sr_engine sr) u) u (sr_start_ts sr) l collapse) txn'"
proof -
  let ?vs = "versions (sr_engine sr) u" and ?s = "sr_start_ts sr"
  have rec: "sr_get_txn_commit_record sr (Key_from_raw u) = Inr (commit_record ?vs ?s)"
    by (simp add: sr_get_txn_commit_record_def get_txn_commit_record_eq assms(1) records_ok_starts [OF assms(2)])
  have unlock: "pushes u txn (ops @ [DelLock]) (push_modify (ModDelete CF_LOCK (Key_from_raw u)) txn')"
    if "pushes u txn ops txn'" for ops txn'
    using pushes_modify [OF that, of DelLock] by simp
  show ?thesis
  proof (cases "commit_record ?vs ?s")
    case (RecordNone ow)
    let ?del = "lock_short_value l = None \<and> lock_type l = LTPut"
    let ?ops1 = "if ?del then [DelValue (lock_ts l)] else []"
    let ?txn1 = "if ?del then delete_value (Key_from_raw u) (lock_ts l) txn else txn"
    have "pushes u txn ?ops1 ?txn1"
      using pushes_modify [OF pushes_refl, of "DelValue (lock_ts l)" u txn] by (simp add: delete_value_def)
    note put = put_rollback_pushes [OF assms(1) this, of ?s "rollback_protected u l"]
    from collapse_pushes [OF assms(1) put, of collapse] obtain txn2 where
      col: "(if collapse then collapse_prev_rollback sr (Key_from_raw u)
            (put_rollback (Key_from_raw u) ?s (rollback_record ?vs ?s (rollback_protected u l)) ?txn1)
          else (Inr (), put_rollback (Key_from_raw u) ?s (rollback_record ?vs ?s (rollback_protected u l)) ?txn1)) =
          (Inr (), txn2)"
      and txn2: "pushes u txn ((?ops1 @ rollback_ops ?vs ?s (rollback_protected u l)) @ collapse_ops ?vs ?s collapse) txn2"
      by metis
    have "txn_start_ts txn2 = txn_start_ts txn" using txn2 by (simp add: pushes_def)
    with rec RecordNone col unlock [OF txn2] show ?thesis
      by (intro that [of "push_modify (ModDelete CF_LOCK (Key_from_raw u)) txn2"])
        (simp_all add: rollback_lock_def Let_def make_rollback_eq [OF assms(2) RecordNone]
          rollback_protected_def [symmetric] Key_is_encoded_from_iff unlock_key_def rollback_lock_ops_def
          del: if_split)
  qed (use rec assms(3) unlock [OF pushes_refl] that in
      \<open>simp_all add: rollback_lock_def Let_def unlock_key_def rollback_lock_ops_def\<close>)
qed

section \<open>Versions after a rollback\<close>

definition rolled :: "(ts \<Rightarrow> write_record option) \<Rightarrow> ts \<Rightarrow> bool \<Rightarrow> bool \<Rightarrow> ts \<Rightarrow> write_record option" where
  "rolled vs s protected collapse t =
     (if t = s then (case rollback_record vs s protected of Some w \<Rightarrow> Some w | None \<Rightarrow> vs s)
      else if DelWrite t \<in> set (collapse_ops vs s collapse) then None
      else vs t)"

definition rolled_back :: "(ts \<Rightarrow> write_record option) \<Rightarrow> ts \<Rightarrow> bool" where
  "rolled_back vs s \<longleftrightarrow>
     (case commit_record vs s of
        SingleRecord c w \<Rightarrow> write_type w = WTRollback
      | OverlappedRollback c \<Rightarrow> True
      | RecordNone _ \<Rightarrow> False)"

definition committed_at :: "(ts \<Rightarrow> write_record option) \<Rightarrow> ts \<Rightarrow> ts \<Rightarrow> bool" where
  "committed_at vs s c \<longleftrightarrow>
     (\<exists>w. commit_record vs s = SingleRecord c w \<and> write_type w \<noteq> WTRollback)"

lemma collapse_ops_DelWrite:
  "DelWrite c \<in> set (collapse_ops vs s collapse) \<longleftrightarrow>
     (case latest vs s of
        Some (c', w) \<Rightarrow> c = c' \<and> collapse \<and> write_type w = WTRollback \<and> \<not> is_protected w
      | None \<Rightarrow> False)"
  unfolding collapse_ops_def by (cases "latest vs s") (simp_all add: case_prod_beta)

lemma collapse_below:
  assumes "records_ok vs" "commit_record vs s = RecordNone ow" "DelWrite c \<in> set (collapse_ops vs s collapse)"
  shows "c < s" "\<exists>w. vs c = Some w \<and> write_type w = WTRollback"
proof -
  obtain p where p: "latest vs s = Some p"
    using assms(3) by (cases "latest vs s") (simp_all add: collapse_ops_DelWrite)
  obtain c' w where "p = (c', w)" by (cases p)
  with assms(3) p have w: "latest vs s = Some (c, w)" "write_type w = WTRollback"
    by (simp_all add: collapse_ops_DelWrite)
  then have c: "c \<le> s" "vs c = Some w" by (simp_all add: latest_Some)
  moreover have "c \<noteq> s"
    using assms(2) records_okD(2) [OF assms(1) c(2)] w(2) c(2)
    by (auto simp: commit_record_none own_None)
  ultimately show "c < s" "\<exists>w. vs c = Some w \<and> write_type w = WTRollback" using w(2) by auto
qed

lemma foldl_apply_collapse:
  "foldl apply_op ks (collapse_ops vs s collapse) =
     ks\<lparr>ks_versions := \<lambda>t. if DelWrite t \<in> set (collapse_ops vs s collapse) then None else ks_versions ks t\<rparr>"
proof (cases "latest vs s")
  case (Some p)
  obtain c' w where "p = (c', w)" by (cases p)
  then have "collapse_ops vs s collapse = [] \<or> collapse_ops vs s collapse = [DelWrite c']"
    using Some unfolding collapse_ops_def by simp
  then show ?thesis by (elim disjE ssubst) (simp_all add: fun_upd_def)
qed (simp add: collapse_ops_def)

lemma foldl_apply_rollback:
  "foldl apply_op ks (rollback_ops vs s protected) =
     ks\<lparr>ks_versions := \<lambda>t. if t = s then
       (case rollback_record vs s protected of Some w \<Rightarrow> Some w | None \<Rightarrow> ks_versions ks s)
       else ks_versions ks t\<rparr>"
proof -
  have same: "(\<lambda>t. if t = s then ks_versions ks s else ks_versions ks t) = ks_versions ks" by (rule ext) simp
  show ?thesis
  proof (cases "rollback_record vs s protected")
    case None
    show ?thesis unfolding rollback_ops_def None option.case same by simp
  next
    case (Some w)
    show ?thesis unfolding rollback_ops_def Some option.case by (simp add: fun_upd_def)
  qed
qed

lemma if_commute:
  assumes "\<not> del s"
  shows "(\<lambda>t. if del t then a else if t = s then b else f t) = (\<lambda>t. if t = s then b else if del t then a else f t)"
  using assms by (intro ext) simp

lemma apply_rollback_collapse:
  assumes "records_ok vs" "commit_record vs s = RecordNone ow" "ks_versions ks = vs"
  shows "foldl apply_op ks (rollback_ops vs s protected @ collapse_ops vs s collapse) =
      ks\<lparr>ks_versions := rolled vs s protected collapse\<rparr>"
    "foldl apply_op ks (collapse_ops vs s collapse @ rollback_ops vs s protected) =
      ks\<lparr>ks_versions := rolled vs s protected collapse\<rparr>"
proof -
  let ?del = "\<lambda>t. DelWrite t \<in> set (collapse_ops vs s collapse)"
  let ?roll = "\<lambda>v. case rollback_record vs s protected of Some w \<Rightarrow> Some w | None \<Rightarrow> v"
  have s: "\<not> ?del s" using collapse_below(1) [OF assms(1,2), of s collapse] by blast
  have rolled: "rolled vs s protected collapse =
      (\<lambda>t. if t = s then ?roll (vs s) else if ?del t then None else vs t)"
    by (rule ext) (simp only: rolled_def)
  show "foldl apply_op ks (rollback_ops vs s protected @ collapse_ops vs s collapse) =
      ks\<lparr>ks_versions := rolled vs s protected collapse\<rparr>"
    unfolding rolled
    unfolding if_commute [of ?del, OF s, symmetric]
    unfolding foldl_append
    unfolding foldl_apply_rollback
    unfolding foldl_apply_collapse assms(3) [symmetric]
    by (cases ks) (simp only: key_state.simps)
  show "foldl apply_op ks (collapse_ops vs s collapse @ rollback_ops vs s protected) =
      ks\<lparr>ks_versions := rolled vs s protected collapse\<rparr>"
    unfolding rolled
    unfolding foldl_append
    unfolding foldl_apply_rollback
    unfolding foldl_apply_collapse
    using s unfolding assms(3) [symmetric]
    by (cases ks) (simp only: key_state.simps if_False)
qed

lemma rolled_Some:
  assumes "records_ok vs" "commit_record vs s = RecordNone ow" "rolled vs s p col t = Some w"
  shows "(t = s \<and> vs s = None \<and> w = new_rollback s p) \<or>
    (t = s \<and> p \<and> (\<exists>w0. vs s = Some w0 \<and> w = set_overlapped_rollback True (Some (next_data vs s)) w0)) \<or>
    vs t = Some w"
  using assms(3) by (auto simp: rolled_def rollback_record_def split: if_splits option.splits)

lemma new_rollback_fields [simp]:
  "write_type (new_rollback s p) = WTRollback"
  "write_start_ts (new_rollback s p) = s"
  "write_last_change (new_rollback s p) = LCUnknown"
  "gc_fence (new_rollback s p) = None"
  by (simp_all add: new_rollback_def Write_new_def)

lemma set_overlapped_rollback_fields [simp]:
  "write_type (set_overlapped_rollback b f w) = write_type w"
  "write_start_ts (set_overlapped_rollback b f w) = write_start_ts w"
  "write_short_value (set_overlapped_rollback b f w) = write_short_value w"
  "write_last_change (set_overlapped_rollback b f w) = write_last_change w"
  "has_overlapped_rollback (set_overlapped_rollback b f w) = b"
  "gc_fence (set_overlapped_rollback b f w) = f"
  by (simp_all add: set_overlapped_rollback_def)

lemma records_ok_rolled:
  assumes "records_ok vs" "commit_record vs s = RecordNone ow"
  shows "records_ok (rolled vs s p col)"
  unfolding records_ok_def
proof (intro allI impI)
  fix c w
  assume "rolled vs s p col c = Some w"
  with rolled_Some [OF assms this] assms(1)
  show "(if write_type w = WTRollback then write_start_ts w = c else write_start_ts w < c) \<and>
      (gc_fence w = None \<or> has_overlapped_rollback w)"
    by (elim disjE conjE exE) (simp_all add: records_ok_def)
qed

lemma own_rolled:
  assumes "records_ok vs" "commit_record vs s = RecordNone ow" "own (rolled vs s p col) s c = Some w"
  shows "c = s \<and> vs s = None \<and> w = new_rollback s p"
proof -
  have r: "rolled vs s p col c = Some w" and s: "write_start_ts w = s"
    using assms(3) [unfolded own_Some] by (rule conjunct1, rule conjunct2)
  from rolled_Some [OF assms(1,2) r] show ?thesis
  proof (elim disjE conjE exE)
    fix w0
    assume "vs s = Some w0" "w = set_overlapped_rollback True (Some (next_data vs s)) w0"
    with commit_record_noneD(2) [OF assms(2), of s w0] s show ?thesis by simp
  next
    assume "vs c = Some w"
    then show ?thesis using commit_record_noneD(2) [OF assms(2)] s by blast
  qed (intro conjI)
qed

lemma rolled_back_rolled:
  assumes "records_ok vs" "commit_record vs s = RecordNone ow" "p \<or> vs s = None"
  shows "rolled_back (rolled vs s p col) s"
proof (cases "vs s")
  case None
  have "commit_record (rolled vs s p col) s = SingleRecord s (new_rollback s p)"
  proof (rule commit_record_single)
    show "own (rolled vs s p col) s c' = None" if "s < c'" for c'
      using own_rolled [OF assms(1,2), of p col c'] that by (cases "own (rolled vs s p col) s c'") auto
  qed (simp_all add: rolled_def rollback_record_def None)
  then show ?thesis by (simp add: rolled_back_def)
next
  case (Some w)
  have "own (rolled vs s p col) s c = None" for c
    using own_rolled [OF assms(1,2), of p col c] Some by (cases "own (rolled vs s p col) s c") auto
  then have "latest (own (rolled vs s p col) s) ts_max = None" by (simp add: latest_None)
  with Some assms(3) show ?thesis
    by (simp add: rolled_back_def commit_record_def rolled_def rollback_record_def)
qed

section \<open>Reads after a rollback\<close>

lemma latest_map: "latest (\<lambda>t. map_option (g t) (f t)) t = map_option (\<lambda>(c, w). (c, g c w)) (latest f t)"
proof (cases "latest f t")
  case None
  then have "latest (\<lambda>t. map_option (g t) (f t)) t = None" unfolding latest_None by simp
  with None show ?thesis by simp
next
  case (Some p)
  obtain c w where p: "p = (c, w)" by (cases p)
  have "latest (\<lambda>t. map_option (g t) (f t)) t = Some (c, g c w)"
    using Some unfolding p latest_Some by simp
  with Some p show ?thesis by simp
qed

definition overlap :: "(ts \<Rightarrow> write_record option) \<Rightarrow> ts \<Rightarrow> bool \<Rightarrow> ts \<Rightarrow> write_record \<Rightarrow> write_record" where
  "overlap vs s protected t w =
     (if t = s \<and> protected then set_overlapped_rollback True (Some (next_data vs s)) w else w)"

lemma overlap_fields [simp]:
  "write_type (overlap vs s p t w) = write_type w"
  "write_start_ts (overlap vs s p t w) = write_start_ts w"
  "write_short_value (overlap vs s p t w) = write_short_value w"
  "write_last_change (overlap vs s p t w) = write_last_change w"
  "is_data (overlap vs s p t w) = is_data w"
  by (simp_all add: overlap_def is_data_def)

lemma data_rolled:
  assumes "records_ok vs" "commit_record vs s = RecordNone ow"
  shows "data (rolled vs s p col) t = map_option (overlap vs s p t) (data vs t)"
proof (cases "t = s")
  case True
  then show ?thesis
    by (cases "vs s") (simp_all add: data_def rolled_def rollback_record_def overlap_def is_data_def)
next
  case False
  show ?thesis
  proof (cases "DelWrite t \<in> set (collapse_ops vs s col)")
    case True
    from collapse_below(2) [OF assms True] obtain w where "vs t = Some w" "write_type w = WTRollback" by blast
    with True False show ?thesis by (simp add: data_def rolled_def is_data_def)
  next
    case no: False
    then show ?thesis using False by (cases "vs t") (simp_all add: data_def rolled_def overlap_def)
  qed
qed

lemma latest_data_rolled:
  assumes "records_ok vs" "commit_record vs s = RecordNone ow"
  shows "latest (data (rolled vs s p col)) t =
    map_option (\<lambda>(c, w). (c, overlap vs s p c w)) (latest (data vs) t)"
  unfolding latest_map [symmetric] by (rule latest_eqI) (rule data_rolled [OF assms])

lemma next_data_above:
  assumes "data vs c = Some w" "t < c"
  shows "t < next_data vs t" "next_data vs t \<le> c" "data vs (next_data vs t) \<noteq> None"
proof -
  let ?S = "{c. t < c \<and> data vs c \<noteq> None}"
  have c: "c \<in> ?S" using assms by simp
  then have n: "next_data vs t = Min ?S" unfolding next_data_def Let_def by auto
  have "Min ?S \<in> ?S" using c by (intro Min_in) auto
  then show "t < next_data vs t" "data vs (next_data vs t) \<noteq> None" unfolding n by simp_all
  show "next_data vs t \<le> c" unfolding n using c by (intro Min_le) auto
qed

lemma next_data_none:
  assumes "\<And>c. t < c \<Longrightarrow> data vs c = None"
  shows "next_data vs t = 0"
proof -
  have "{c. t < c \<and> data vs c \<noteq> None} = {}" using assms by auto
  then show ?thesis by (simp add: next_data_def)
qed

lemma next_data_clear:
  assumes "latest (data vs) s = latest (data vs) t" "s \<le> t"
  shows "next_data vs s = 0 \<or> t < next_data vs s"
proof (cases "\<exists>c w. s < c \<and> data vs c = Some w")
  case True
  then obtain c w where "s < c" "data vs c = Some w" by blast
  note n = next_data_above [OF this(2,1)]
  show ?thesis
  proof (rule ccontr)
    assume "\<not> ?thesis"
    then have t: "next_data vs s \<le> t" by (simp add: not_less)
    with n(3) obtain p where p: "latest (data vs) t = Some p"
      by (cases "latest (data vs) t") (auto simp: latest_None)
    obtain c' v where cv: "p = (c', v)" by (cases p)
    with p assms(1) have "latest (data vs) s = Some (c', v)" by simp
    then have "c' \<le> s" unfolding latest_Some by blast
    then have "c' < next_data vs s" using n(1) by (rule le_less_trans)
    moreover have "\<forall>x. c' < x \<longrightarrow> x \<le> t \<longrightarrow> data vs x = None"
      using p unfolding cv latest_Some by (elim conjE)
    ultimately have "data vs (next_data vs s) = None" using t by (metis (no_types))
    with n(3) show False ..
  qed
next
  case False
  have "next_data vs s = 0"
    by (rule next_data_none) (rule ccontr, use False not_None_eq in blast)
  then show ?thesis ..
qed

lemma visible_rolled:
  assumes "records_ok vs" "commit_record vs s = RecordNone ow"
  shows "visible (rolled vs s p col) (Some t) t =
    map_option (\<lambda>(w, c). (overlap vs s p c w, c)) (visible vs (Some t) t)"
proof (cases "latest (data vs) t")
  case (Some q)
  obtain c w where q: "q = (c, w)" by (cases q)
  have fence: "check_fence_limit (Some t) (overlap vs s p c w) = check_fence_limit (Some t) w"
  proof (cases "c = s \<and> p")
    case True
    have c: "c \<le> t" "vs c = Some w" "is_data w"
      using Some unfolding q latest_Some data_Some by simp_all
    have "gc_fence w = None"
      by (rule records_okD(3) [OF assms(1) c(2)]) (use True c(2) commit_record_noneD(3) [OF assms(2)] in simp)
    moreover have "latest (data vs) s = latest (data vs) t"
      using latest_data_self [of vs, OF c(2,3)] Some q True by simp
    then have "next_data vs s = 0 \<or> t < next_data vs s"
      by (rule next_data_clear) (use c(1) True in simp)
    ultimately show ?thesis
      using True by (auto simp: overlap_def check_gc_fence_as_latest_version_def is_zero_def dest: leD)
  qed (auto simp: overlap_def)
  show ?thesis
    unfolding visible_def latest_data_rolled [OF assms] Some q using fence by simp
qed (simp add: visible_def latest_data_rolled [OF assms])

section \<open>Checking a key without its lock\<close>

definition mark_ops :: "(ts \<Rightarrow> write_record option) \<Rightarrow> ts \<Rightarrow> lock option \<Rightarrow> bool \<Rightarrow> key_op list" where
  "mark_ops vs s mismatch_lock protected =
     (case mismatch_lock of
        Some l \<Rightarrow>
          if vs s = None \<and> protected \<and> lock_min_commit_ts l \<le> s \<and> lock_use_async_commit l
          then [PutLock (l\<lparr>lock_rollback_ts := lock_rollback_ts l @ [s]\<rparr>)] else []
      | None \<Rightarrow> [])"

text \<open>A lock that can take one more rollback timestamp.\<close>

definition markable :: "ts \<Rightarrow> lock option \<Rightarrow> bool" where
  "markable s mismatch_lock \<longleftrightarrow>
     (case mismatch_lock of
        Some l \<Rightarrow> lock_ts l \<noteq> s \<and> wf_lock l \<and> Suc (length (lock_rollback_ts l)) < 2 ^ 64
      | None \<Rightarrow> True)"

definition missing_lock_ops ::
    "(ts \<Rightarrow> write_record option) \<Rightarrow> ts \<Rightarrow> lock option \<Rightarrow> bool \<Rightarrow> key_op list" where
  "missing_lock_ops vs s mismatch_lock protected =
     collapse_ops vs s (\<not> protected) @ mark_ops vs s mismatch_lock protected @ rollback_ops vs s protected"

lemma wf_mark: "markable s (Some l) \<Longrightarrow> wf_lock (l\<lparr>lock_rollback_ts := lock_rollback_ts l @ ts\<rparr>) \<longleftrightarrow> length (lock_rollback_ts l @ ts) < 2 ^ 64"
  by (simp add: markable_def wf_lock_def)

lemma mark_pushes:
  assumes "pushes u txn ops txn'" "txn_start_ts txn = s" "markable s mismatch_lock"
  obtains txn'' where
    "(case (mismatch_lock, map_option f (vs s)) of
        (Some l, None) \<Rightarrow> mark_rollback_on_mismatching_lock (Key_from_raw u) l protected txn'
      | _ \<Rightarrow> (Inr (), txn')) = (Inr (), txn'')"
    "pushes u txn (ops @ mark_ops vs s mismatch_lock protected) txn''"
proof -
  have start: "txn_start_ts txn' = s" using assms(1,2) by (simp add: pushes_def)
  consider "mismatch_lock = None" | l where "mismatch_lock = Some l" "vs s \<noteq> None"
    | l where "mismatch_lock = Some l" "vs s = None" by (cases mismatch_lock) auto
  then show ?thesis
  proof cases
    case (3 l)
    let ?l = "l\<lparr>lock_rollback_ts := lock_rollback_ts l @ [s]\<rparr>"
    have "wf_lock ?l" using wf_mark [of s l "[s]"] assms(3) 3 by (simp add: markable_def)
    then have "pushes u txn (ops @ [PutLock ?l]) (push_modify (ModPut CF_LOCK (Key_from_raw u) (Lock_to_bytes ?l)) txn')"
      using pushes_modify [OF assms(1), of "PutLock ?l"] by simp
    with assms 3 start show ?thesis
      by (intro that [of "if protected \<and> lock_min_commit_ts l \<le> s \<and> lock_use_async_commit l
            then push_modify (ModPut CF_LOCK (Key_from_raw u) (Lock_to_bytes ?l)) txn' else txn'"])
        (auto simp: mark_rollback_on_mismatching_lock_def put_lock_old mark_ops_def markable_def not_less)
  qed (use assms(1) in \<open>auto simp: mark_ops_def intro: that split: option.splits\<close>)
qed

lemma collapse_rollback_cases:
  assumes "action \<noteq> ReturnError"
  shows "collapse_rollback action = Inr (action = Rollback)"
    "construct_write action t ow = make_rollback t (action = ProtectedRollback) ow"
    "\<not> (action = ProtectedRollback) \<longleftrightarrow> action = Rollback"
  using assms by (cases action; simp add: construct_write_def)+

lemma missing_lock_eq:
  assumes "wf_engine (sr_engine sr)" "records_ok (versions (sr_engine sr) u)"
    and "txn_start_ts txn = sr_start_ts sr" "markable (sr_start_ts sr) mismatch_lock"
    and "action \<noteq> ReturnError"
    and "commit_record (versions (sr_engine sr) u) (sr_start_ts sr) = RecordNone ow"
  obtains txn' where
    "check_txn_status_missing_lock sr (Key_from_raw u) mismatch_lock action False txn = (Inr LockNotExist, txn')"
    "pushes u txn (missing_lock_ops (versions (sr_engine sr) u) (sr_start_ts sr) mismatch_lock
       (action = ProtectedRollback)) txn'"
proof -
  let ?vs = "versions (sr_engine sr) u" and ?s = "sr_start_ts sr" and ?p = "action = ProtectedRollback"
  let ?f = "\<lambda>w. \<lparr> ow_write = w, ow_gc_fence = next_data ?vs ?s \<rparr>"
  have ow: "ow = map_option ?f (?vs ?s)" using assms(6) unfolding commit_record_none by (elim conjE)
  have rec: "sr_get_txn_commit_record sr (Key_from_raw u) = Inr (RecordNone ow)"
    by (simp add: sr_get_txn_commit_record_def get_txn_commit_record_eq assms(1,6) records_ok_starts [OF assms(2)])
  note act = collapse_rollback_cases [OF assms(5)]
  from collapse_pushes [OF assms(1) pushes_refl, of "action = Rollback" u txn] obtain txn1 where
    1: "(if action = Rollback then collapse_prev_rollback sr (Key_from_raw u) txn else (Inr (), txn)) = (Inr (), txn1)"
      "pushes u txn (collapse_ops ?vs ?s (\<not> ?p)) txn1" unfolding act(3) by auto
  from mark_pushes [OF 1(2) assms(3,4), where f = ?f and vs = ?vs and protected = ?p] obtain txn2 where
    2: "(case (mismatch_lock, ow) of
          (Some l, None) \<Rightarrow> mark_rollback_on_mismatching_lock (Key_from_raw u) l ?p txn1
        | _ \<Rightarrow> (Inr (), txn1)) = (Inr (), txn2)"
      "pushes u txn (collapse_ops ?vs ?s (\<not> ?p) @ mark_ops ?vs ?s mismatch_lock ?p) txn2" unfolding ow by metis
  note 3 = put_rollback_pushes [OF assms(1) 2(2), of ?s ?p]
  have "check_txn_status_missing_lock sr (Key_from_raw u) mismatch_lock action False txn =
      (Inr LockNotExist, put_rollback (Key_from_raw u) ?s (rollback_record ?vs ?s ?p) txn2)"
    unfolding check_txn_status_missing_lock_def rec act(1,2) make_rollback_eq [OF assms(2,6)]
    using assms(5) 1(1) 2(1) by (simp add: make_rollback_eq [OF assms(2,6)])
  with 3 show ?thesis by (intro that) (simp_all add: missing_lock_ops_def)
qed

section \<open>The state of the key afterwards\<close>

lemma apply_rollback_lock_ops:
  assumes "records_ok (ks_versions ks)"
  shows "foldl apply_op ks (rollback_lock_ops (ks_versions ks) u s l collapse) =
    (case commit_record (ks_versions ks) s of
       RecordNone _ \<Rightarrow>
         \<lparr> ks_versions = rolled (ks_versions ks) s (rollback_protected u l) collapse, ks_lock = None,
           ks_values = if lock_short_value l = None \<and> lock_type l = LTPut
             then (ks_values ks)(lock_ts l := None) else ks_values ks \<rparr>
     | _ \<Rightarrow> ks\<lparr>ks_lock := None\<rparr>)"
proof (cases "commit_record (ks_versions ks) s")
  case (RecordNone ow)
  let ?del = "if lock_short_value l = None \<and> lock_type l = LTPut then [DelValue (lock_ts l)] else []"
  let ?ks = "foldl apply_op ks ?del"
  have vs: "ks_versions ?ks = ks_versions ks" by simp
  have "foldl apply_op ks (rollback_lock_ops (ks_versions ks) u s l collapse) =
      apply_op (foldl apply_op ?ks
        (rollback_ops (ks_versions ks) s (rollback_protected u l) @ collapse_ops (ks_versions ks) s collapse)) DelLock"
    unfolding rollback_lock_ops_def RecordNone by simp
  also have "\<dots> = apply_op (?ks\<lparr>ks_versions := rolled (ks_versions ks) s (rollback_protected u l) collapse\<rparr>) DelLock"
    unfolding apply_rollback_collapse(1) [OF assms RecordNone vs] ..
  finally show ?thesis unfolding RecordNone by simp
qed (simp_all add: rollback_lock_ops_def)

lemma mark_ops_state:
  "ks_versions (foldl apply_op ks (mark_ops vs s ml p)) = ks_versions ks"
  "ks_values (foldl apply_op ks (mark_ops vs s ml p)) = ks_values ks"
  by (simp_all add: mark_ops_def split: option.split)

lemma apply_missing_lock_ops:
  assumes "records_ok (ks_versions ks)" "commit_record (ks_versions ks) s = RecordNone ow"
  shows "foldl apply_op ks (missing_lock_ops (ks_versions ks) s ml p) =
    (foldl apply_op ks (mark_ops (ks_versions ks) s ml p))
      \<lparr>ks_versions := rolled (ks_versions ks) s p (\<not> p)\<rparr>"
proof -
  let ?vs = "ks_versions ks"
  have comm: "foldl apply_op (k\<lparr>ks_versions := f\<rparr>) (mark_ops ?vs s ml p) =
      (foldl apply_op k (mark_ops ?vs s ml p))\<lparr>ks_versions := f\<rparr>" for k f
    by (simp add: mark_ops_def split: option.split)
  have "foldl apply_op ks (missing_lock_ops ?vs s ml p) =
      foldl apply_op (foldl apply_op (foldl apply_op ks (mark_ops ?vs s ml p)) (collapse_ops ?vs s (\<not> p)))
        (rollback_ops ?vs s p)"
    unfolding missing_lock_ops_def foldl_append foldl_apply_collapse comm mark_ops_state ..
  also have "\<dots> = (foldl apply_op ks (mark_ops ?vs s ml p))\<lparr>ks_versions := rolled ?vs s p (\<not> p)\<rparr>"
    using apply_rollback_collapse(2) [OF assms mark_ops_state(1)] by (simp only: foldl_append)
  finally show ?thesis .
qed

section \<open>Cleaning up a key, specified\<close>

abbreviation plain_reader :: "snapshot_reader \<Rightarrow> bool" where
  "plain_reader sr \<equiv> snap_txn_ext (rd_snapshot (sr_reader sr)) = None"

text \<open>
  What an action of a transaction with start \<open>s\<close> relies on: the records of the key are in order,
  a lock of the transaction means that it is not committed, and a lock of another one has room
  for a rollback mark.
\<close>

definition key_ready :: "engine \<Rightarrow> bytes \<Rightarrow> ts \<Rightarrow> bool" where
  "key_ready e u s \<longleftrightarrow>
     records_ok (versions e u) \<and>
     (case lock_of e u of
        None \<Rightarrow> True
      | Some l \<Rightarrow>
          if lock_ts l = s then (\<forall>c. \<not> committed_at (versions e u) s c)
          else Suc (length (lock_rollback_ts l)) < 2 ^ 64)"

lemma load_lock_plain:
  "wf_engine (sr_engine sr) \<Longrightarrow> plain_reader sr \<Longrightarrow>
   sr_load_lock sr (Key_from_raw u) = Inr (lock_of (sr_engine sr) u)"
  by (simp add: sr_load_lock_def load_lock_eq)

lemma wf_lock_of: "wf_engine e \<Longrightarrow> lock_of e u = Some l \<Longrightarrow> wf_lock l"
  using lock_of_cases [of e u] by auto

lemma not_committed_single:
  "\<forall>c. \<not> committed_at vs s c \<Longrightarrow> commit_record vs s = SingleRecord c w \<Longrightarrow> write_type w = WTRollback"
  unfolding committed_at_def by blast

lemma cleanup_own:
  assumes "wf_engine (sr_engine sr)" "plain_reader sr" "key_ready (sr_engine sr) u (sr_start_ts sr)"
    and "lock_of (sr_engine sr) u = Some l" "lock_ts l = sr_start_ts sr"
  shows "\<not> is_zero current_ts \<and> physical current_ts \<le> physical (lock_ts l) + lock_ttl l \<Longrightarrow>
      cleanup sr (Key_from_raw u) current_ts protect txn = (Inl (KeyIsLocked (into_lock_info l u)), txn)"
    and "is_zero current_ts \<or> physical (lock_ts l) + lock_ttl l < physical current_ts \<Longrightarrow>
      \<exists>txn'. cleanup sr (Key_from_raw u) current_ts protect txn =
          (Inr (Some (ReleasedLock_new (txn_start_ts txn) 0 (Key_from_raw u) (is_pessimistic_txn l))), txn') \<and>
        pushes u txn (rollback_lock_ops (versions (sr_engine sr) u) u (sr_start_ts sr) l (\<not> protect)) txn'"
proof -
  note load = load_lock_plain [OF assms(1,2), of u]
  show "cleanup sr (Key_from_raw u) current_ts protect txn = (Inl (KeyIsLocked (into_lock_info l u)), txn)"
    if "\<not> is_zero current_ts \<and> physical current_ts \<le> physical (lock_ts l) + lock_ttl l"
    using that assms(4,5) by (simp add: cleanup_def load)
  assume expired: "is_zero current_ts \<or> physical (lock_ts l) + lock_ttl l < physical current_ts"
  have ok: "records_ok (versions (sr_engine sr) u)" "\<forall>c. \<not> committed_at (versions (sr_engine sr) u) (sr_start_ts sr) c"
    using assms(3-5) by (simp_all add: key_ready_def)
  obtain txn' where "rollback_lock sr (Key_from_raw u) l (is_pessimistic_txn l) (\<not> protect) txn =
      (Inr (Some (ReleasedLock_new (txn_start_ts txn) 0 (Key_from_raw u) (is_pessimistic_txn l))), txn')"
    "pushes u txn (rollback_lock_ops (versions (sr_engine sr) u) u (sr_start_ts sr) l (\<not> protect)) txn'"
    by (rule rollback_lock_eq [OF assms(1) ok(1) not_committed_single [OF ok(2)]])
  with expired assms(4,5) show "\<exists>txn'. cleanup sr (Key_from_raw u) current_ts protect txn =
      (Inr (Some (ReleasedLock_new (txn_start_ts txn) 0 (Key_from_raw u) (is_pessimistic_txn l))), txn') \<and>
      pushes u txn (rollback_lock_ops (versions (sr_engine sr) u) u (sr_start_ts sr) l (\<not> protect)) txn'"
    by (auto simp: cleanup_def load)
qed

lemma cleanup_foreign:
  assumes "wf_engine (sr_engine sr)" "plain_reader sr" "key_ready (sr_engine sr) u (sr_start_ts sr)"
    and "txn_start_ts txn = sr_start_ts sr"
    and "\<And>l. lock_of (sr_engine sr) u = Some l \<Longrightarrow> lock_ts l \<noteq> sr_start_ts sr"
  shows "case commit_record (versions (sr_engine sr) u) (sr_start_ts sr) of
      RecordNone ow \<Rightarrow>
        \<exists>txn'. cleanup sr (Key_from_raw u) current_ts protect txn = (Inr None, txn') \<and>
          pushes u txn (missing_lock_ops (versions (sr_engine sr) u) (sr_start_ts sr)
            (lock_of (sr_engine sr) u) protect) txn'
    | SingleRecord c w \<Rightarrow>
        cleanup sr (Key_from_raw u) current_ts protect txn =
          (if write_type w = WTRollback then Inr None else Inl (Committed (sr_start_ts sr) c u), txn)
    | OverlappedRollback c \<Rightarrow> cleanup sr (Key_from_raw u) current_ts protect txn = (Inr None, txn)"
proof -
  let ?e = "sr_engine sr" and ?s = "sr_start_ts sr"
  have ok: "records_ok (versions ?e u)" using assms(3) by (simp add: key_ready_def)
  have mark: "markable ?s (lock_of ?e u)"
    using assms(3,5) wf_lock_of [OF assms(1), of u]
    by (cases "lock_of ?e u") (simp_all add: markable_def key_ready_def)
  have rec: "sr_get_txn_commit_record sr (Key_from_raw u) = Inr (commit_record (versions ?e u) ?s)"
    by (simp add: sr_get_txn_commit_record_def get_txn_commit_record_eq assms(1) records_ok_starts [OF ok])
  have foreign: "(case lock_of ?e u of Some l \<Rightarrow> if lock_ts l = ?s then Some l else None | None \<Rightarrow> None) = None"
    using assms(5) by (cases "lock_of ?e u") simp_all
  note clean = cleanup_def load_lock_plain [OF assms(1,2), of u] foreign
  show ?thesis
  proof (cases "commit_record (versions ?e u) ?s")
    case (RecordNone ow)
    have act: "action_rollback_protect protect \<noteq> ReturnError"
      "(action_rollback_protect protect = ProtectedRollback) = protect"
      by (simp_all add: action_rollback_protect_def)
    from missing_lock_eq [OF assms(1) ok assms(4) mark act(1) RecordNone] obtain txn' where
      "check_txn_status_missing_lock sr (Key_from_raw u) (lock_of ?e u) (action_rollback_protect protect) False txn =
        (Inr LockNotExist, txn')"
      "pushes u txn (missing_lock_ops (versions ?e u) ?s (lock_of ?e u) protect) txn'" unfolding act(2) by metis
    with RecordNone show ?thesis by (simp add: clean)
  qed (simp_all add: clean check_txn_status_missing_lock_def rec status_of_write_def)
qed

interpretation cleanup_action: key_action
  "\<lambda>sr u. cleanup sr (Key_from_raw u) current_ts protect"
  "\<lambda>sr u. plain_reader sr \<and> key_ready (sr_engine sr) u (sr_start_ts sr)" for current_ts protect
proof
  fix sr u and txn :: mvcc_txn
  assume wf: "wf_engine (sr_engine sr)" and ready: "plain_reader sr \<and> key_ready (sr_engine sr) u (sr_start_ts sr)"
    and start: "txn_start_ts txn = sr_start_ts sr"
  note pre = wf ready [THEN conjunct1] ready [THEN conjunct2]
  let ?act = "cleanup sr (Key_from_raw u) current_ts protect txn"
  show "\<exists>ops. pushes u txn ops (snd ?act)"
  proof (cases "\<exists>l. lock_of (sr_engine sr) u = Some l \<and> lock_ts l = sr_start_ts sr")
    case True
    then obtain l where l: "lock_of (sr_engine sr) u = Some l" "lock_ts l = sr_start_ts sr" by blast
    show ?thesis
    proof (cases "\<not> is_zero current_ts \<and> physical current_ts \<le> physical (lock_ts l) + lock_ttl l")
      case True
      then show ?thesis using cleanup_own(1) [OF pre l, of current_ts protect txn] pushes_refl by (metis snd_conv)
    next
      case False
      then show ?thesis
        using cleanup_own(2) [OF pre l, of current_ts protect txn] by (metis not_less snd_conv)
    qed
  next
    case False
    then have "\<And>l. lock_of (sr_engine sr) u = Some l \<Longrightarrow> lock_ts l \<noteq> sr_start_ts sr" by blast
    from cleanup_foreign [OF pre start this, of current_ts protect] show ?thesis
      by (cases "commit_record (versions (sr_engine sr) u) (sr_start_ts sr)")
        (auto intro: exI [of _ "[]"])
  qed
qed

section \<open>What a reader of the key sees\<close>

definition ks_read :: "key_state \<Rightarrow> ts option \<Rightarrow> ts \<Rightarrow> value_bytes option" where
  "ks_read ks gc_fence_limit t =
     (case visible (ks_versions ks) gc_fence_limit t of
        None \<Rightarrow> None
      | Some (w, c) \<Rightarrow>
          (case write_short_value w of Some v \<Rightarrow> Some v | None \<Rightarrow> ks_values ks (write_start_ts w)))"

lemma read_value_ks: "read_value e u l t = ks_read (key_state_of e u) l t"
  unfolding read_value_def ks_read_def key_state_of_sel ..

lemma ks_read_rolled:
  assumes "records_ok (ks_versions ks)" "commit_record (ks_versions ks) s = RecordNone ow"
    and "ks_versions ks' = rolled (ks_versions ks) s p col" "\<And>x. x \<noteq> s \<Longrightarrow> ks_values ks' x = ks_values ks x"
  shows "ks_read ks' (Some t) t = ks_read ks (Some t) t"
proof (cases "visible (ks_versions ks) (Some t) t")
  case (Some q)
  obtain w c where q: "q = (w, c)" by (cases q)
  with Some visible_Some have "ks_versions ks c = Some w" by blast
  then have "write_start_ts w \<noteq> s" by (rule commit_record_noneD(2) [OF assms(2)])
  with Some q show ?thesis
    by (cases "write_short_value w") (simp_all add: ks_read_def assms(3,4) visible_rolled [OF assms(1,2)])
qed (simp add: ks_read_def assms(3) visible_rolled [OF assms(1,2)])

lemma rolled_not_committed:
  assumes "records_ok vs" "commit_record vs s = RecordNone ow"
  shows "\<not> committed_at (rolled vs s p col) s c"
proof
  assume "committed_at (rolled vs s p col) s c"
  then obtain w where w: "commit_record (rolled vs s p col) s = SingleRecord c w" "write_type w \<noteq> WTRollback"
    unfolding committed_at_def by blast
  from w(1) have "own (rolled vs s p col) s c = Some w"
    unfolding commit_record_def by (auto simp: latest_Some split: option.splits if_splits)
  from own_rolled [OF assms this] w(2) show False by simp
qed

lemma committed_at_not_rolled_back: "committed_at vs s c \<Longrightarrow> \<not> rolled_back vs s"
  unfolding committed_at_def rolled_back_def by auto

text \<open>The ways in which a cleanup succeeds.\<close>

lemma cleanup_success:
  assumes "wf_engine (sr_engine sr)" "plain_reader sr" "key_ready (sr_engine sr) u (sr_start_ts sr)"
    and "run_action sr cm (\<lambda>sr. cleanup sr (Key_from_raw u) current_ts protect) = Inr (rl, e')"
  obtains (own) l where "lock_of (sr_engine sr) u = Some l" "lock_ts l = sr_start_ts sr"
      "key_state_of e' u = foldl apply_op (key_state_of (sr_engine sr) u)
         (rollback_lock_ops (versions (sr_engine sr) u) u (sr_start_ts sr) l (\<not> protect))"
    | (missing) ow where "\<And>l. lock_of (sr_engine sr) u = Some l \<Longrightarrow> lock_ts l \<noteq> sr_start_ts sr"
      "commit_record (versions (sr_engine sr) u) (sr_start_ts sr) = RecordNone ow"
      "key_state_of e' u = foldl apply_op (key_state_of (sr_engine sr) u)
         (missing_lock_ops (versions (sr_engine sr) u) (sr_start_ts sr) (lock_of (sr_engine sr) u) protect)"
    | (already) "\<And>l. lock_of (sr_engine sr) u = Some l \<Longrightarrow> lock_ts l \<noteq> sr_start_ts sr"
      "rolled_back (versions (sr_engine sr) u) (sr_start_ts sr)"
      "key_state_of e' u = key_state_of (sr_engine sr) u"
proof -
  let ?e = "sr_engine sr" and ?s = "sr_start_ts sr" and ?txn = "MvccTxn_new (sr_start_ts sr) cm"
  note run = run_action_success [OF assms(1,4)]
  show ?thesis
  proof (cases "\<exists>l. lock_of ?e u = Some l \<and> lock_ts l = ?s")
    case True
    then obtain l where l: "lock_of ?e u = Some l" "lock_ts l = ?s" by blast
    have "\<not> (\<not> is_zero current_ts \<and> physical current_ts \<le> physical (lock_ts l) + lock_ttl l)"
      using cleanup_own(1) [OF assms(1-3) l, of current_ts protect ?txn] run(1) pushes_refl
      by (metis sum.distinct(1))
    then have "is_zero current_ts \<or> physical (lock_ts l) + lock_ttl l < physical current_ts" by auto
    from cleanup_own(2) [OF assms(1-3) l this, of protect ?txn] obtain r txn' where
      "cleanup sr (Key_from_raw u) current_ts protect ?txn = (r, txn')"
      "pushes u ?txn (rollback_lock_ops (versions ?e u) u ?s l (\<not> protect)) txn'" by blast
    from run(3) [OF this] l show ?thesis by (intro own)
  next
    case False
    then have no: "\<And>l. lock_of ?e u = Some l \<Longrightarrow> lock_ts l \<noteq> ?s" by blast
    note clean = cleanup_foreign [OF assms(1-3) _ no, of ?txn current_ts protect, simplified]
    show ?thesis
    proof (cases "commit_record (versions ?e u) ?s")
      case (RecordNone ow)
      with clean obtain txn' where "cleanup sr (Key_from_raw u) current_ts protect ?txn = (Inr None, txn')"
        "pushes u ?txn (missing_lock_ops (versions ?e u) ?s (lock_of ?e u) protect) txn'" by auto
      from run(3) [OF this] no RecordNone show ?thesis by (intro missing)
    next
      case (SingleRecord c w)
      with clean have act: "cleanup sr (Key_from_raw u) current_ts protect ?txn =
          (if write_type w = WTRollback then Inr None else Inl (Committed ?s c u), ?txn)" by simp
      from run(1) [OF this pushes_refl] have "write_type w = WTRollback" by (simp split: if_splits)
      with SingleRecord run(3) [OF act pushes_refl] no show ?thesis
        by (intro already) (simp_all add: rolled_back_def)
    next
      case (OverlappedRollback c)
      with clean have act: "cleanup sr (Key_from_raw u) current_ts protect ?txn = (Inr None, ?txn)" by simp
      with OverlappedRollback run(3) [OF act pushes_refl] no show ?thesis
        by (intro already) (simp_all add: rolled_back_def)
    qed
  qed
qed

text \<open>Both ways to roll back leave the key in one of two states.\<close>

definition rolls_back :: "key_state \<Rightarrow> ts \<Rightarrow> bool \<Rightarrow> key_state \<Rightarrow> bool" where
  "rolls_back ks s protected ks' \<longleftrightarrow>
     ((\<exists>ow col. commit_record (ks_versions ks) s = RecordNone ow \<and>
        ks_versions ks' = rolled (ks_versions ks) s protected col) \<or>
      (rolled_back (ks_versions ks) s \<and> ks_versions ks' = ks_versions ks)) \<and>
     (\<forall>x. x \<noteq> s \<longrightarrow> ks_values ks' x = ks_values ks x) \<and>
     (rolled_back (ks_versions ks) s \<longrightarrow> ks_values ks' = ks_values ks) \<and>
     (\<forall>l. ks_lock ks' = Some l \<longrightarrow> lock_ts l \<noteq> s)"

lemma rolls_back_lock:
  assumes "records_ok (ks_versions ks)" "\<forall>c. \<not> committed_at (ks_versions ks) s c" "lock_ts l = s"
  shows "rolls_back ks s (rollback_protected u l)
    (foldl apply_op ks (rollback_lock_ops (ks_versions ks) u s l collapse))"
proof (cases "commit_record (ks_versions ks) s")
  case (RecordNone ow)
  then have "\<not> rolled_back (ks_versions ks) s" by (simp add: rolled_back_def)
  with RecordNone show ?thesis
    unfolding rolls_back_def apply_rollback_lock_ops [OF assms(1)] by (auto simp: assms(3))
next
  case (SingleRecord c w)
  with not_committed_single [OF assms(2) this] show ?thesis
    unfolding rolls_back_def apply_rollback_lock_ops [OF assms(1)] by (simp add: rolled_back_def)
next
  case (OverlappedRollback c)
  then show ?thesis
    unfolding rolls_back_def apply_rollback_lock_ops [OF assms(1)] by (simp add: rolled_back_def)
qed

lemma rolls_back_missing:
  assumes "records_ok (ks_versions ks)" "commit_record (ks_versions ks) s = RecordNone ow"
    and "\<And>l. ks_lock ks = Some l \<Longrightarrow> lock_ts l \<noteq> s"
  shows "rolls_back ks s p (foldl apply_op ks (missing_lock_ops (ks_versions ks) s (ks_lock ks) p))"
proof -
  have "lock_ts l \<noteq> s" if "ks_lock (foldl apply_op ks (mark_ops (ks_versions ks) s (ks_lock ks) p)) = Some l" for l
    using that assms(3) by (auto simp: mark_ops_def split: option.splits if_splits)
  moreover have "\<not> rolled_back (ks_versions ks) s" using assms(2) by (simp add: rolled_back_def)
  ultimately show ?thesis
    using assms(2) unfolding rolls_back_def apply_missing_lock_ops [OF assms(1,2)]
    by (auto simp: mark_ops_state)
qed

lemma cleanup_rolls_back:
  assumes "wf_engine (sr_engine sr)" "plain_reader sr" "key_ready (sr_engine sr) u (sr_start_ts sr)"
    and "run_action sr cm (\<lambda>sr. cleanup sr (Key_from_raw u) current_ts protect) = Inr (rl, e')"
  shows "rolls_back (key_state_of (sr_engine sr) u) (sr_start_ts sr)
    (case lock_of (sr_engine sr) u of
       Some l \<Rightarrow> if lock_ts l = sr_start_ts sr then rollback_protected u l else protect
     | None \<Rightarrow> protect) (key_state_of e' u)"
  using assms
proof (cases rule: cleanup_success)
  case (own l)
  have "records_ok (versions (sr_engine sr) u)" "\<forall>c. \<not> committed_at (versions (sr_engine sr) u) (sr_start_ts sr) c"
    using assms(3) own(1,2) by (simp_all add: key_ready_def)
  with own rolls_back_lock [of "key_state_of (sr_engine sr) u" "sr_start_ts sr" l u "\<not> protect"]
  show ?thesis by simp
next
  case (missing ow)
  have "records_ok (versions (sr_engine sr) u)" using assms(3) by (simp add: key_ready_def)
  with missing rolls_back_missing [of "key_state_of (sr_engine sr) u" "sr_start_ts sr" ow protect]
  show ?thesis by (cases "lock_of (sr_engine sr) u") simp_all
next
  case already
  then show ?thesis by (simp add: rolls_back_def)
qed

text \<open>What it means for the transaction, for the records of the key and for its readers.\<close>

lemma rolls_backD:
  assumes "records_ok (ks_versions ks)" "rolls_back ks s p ks'"
  shows "records_ok (ks_versions ks')" "\<not> committed_at (ks_versions ks') s c"
    "p \<or> ks_versions ks s = None \<or> rolled_back (ks_versions ks) s \<Longrightarrow> rolled_back (ks_versions ks') s"
    "ks_read ks' (Some t) t = ks_read ks (Some t) t"
proof -
  consider (rolled) ow col where "commit_record (ks_versions ks) s = RecordNone ow"
      "ks_versions ks' = rolled (ks_versions ks) s p col" "\<And>x. x \<noteq> s \<Longrightarrow> ks_values ks' x = ks_values ks x"
    | (same) "rolled_back (ks_versions ks) s" "ks_versions ks' = ks_versions ks" "ks_values ks' = ks_values ks"
    using assms(2) unfolding rolls_back_def by blast
  note cases = this
  show "records_ok (ks_versions ks')"
    using cases records_ok_rolled [OF assms(1)] assms(1) by cases auto
  show "\<not> committed_at (ks_versions ks') s c"
    using cases rolled_not_committed [OF assms(1)] committed_at_not_rolled_back [of "ks_versions ks" s c]
    by cases auto
  show "rolled_back (ks_versions ks') s" if "p \<or> ks_versions ks s = None \<or> rolled_back (ks_versions ks) s"
    using cases
  proof cases
    case (rolled ow col)
    moreover have "\<not> rolled_back (ks_versions ks) s" using rolled(1) by (simp add: rolled_back_def)
    ultimately show ?thesis using rolled_back_rolled [OF assms(1) rolled(1), of p col] that by simp
  qed simp
  show "ks_read ks' (Some t) t = ks_read ks (Some t) t"
    using cases
  proof cases
    case (rolled ow col)
    then show ?thesis by (intro ks_read_rolled [OF assms(1)])
  next
    case same
    show ?thesis unfolding ks_read_def same(2,3) ..
  qed
qed

definition lock_alive :: "engine \<Rightarrow> bytes \<Rightarrow> ts \<Rightarrow> ts \<Rightarrow> lock \<Rightarrow> bool" where
  "lock_alive e u s current_ts l \<longleftrightarrow>
     lock_of e u = Some l \<and> lock_ts l = s \<and> \<not> is_zero current_ts \<and>
     physical current_ts \<le> physical (lock_ts l) + lock_ttl l"

lemma run_action_pushes:
  assumes "wf_engine (sr_engine sr)" "act sr (MvccTxn_new (sr_start_ts sr) cm) = (Inr x, txn')"
    and "pushes u (MvccTxn_new (sr_start_ts sr) cm) ops txn'"
  shows "\<exists>e'. run_action sr cm act = Inr (x, e')"
  using run_action_ops [where act = act, OF assms] by blast

lemma cleanup_runs:
  assumes "wf_engine (sr_engine sr)" "plain_reader sr" "key_ready (sr_engine sr) u (sr_start_ts sr)"
  shows "lock_alive (sr_engine sr) u (sr_start_ts sr) current_ts l \<Longrightarrow>
      run_action sr cm (\<lambda>sr. cleanup sr (Key_from_raw u) current_ts protect) =
        Inl (KeyIsLocked (into_lock_info l u))"
    and "committed_at (versions (sr_engine sr) u) (sr_start_ts sr) c \<Longrightarrow>
      run_action sr cm (\<lambda>sr. cleanup sr (Key_from_raw u) current_ts protect) =
        Inl (Committed (sr_start_ts sr) c u)"
    and "(\<And>l. \<not> lock_alive (sr_engine sr) u (sr_start_ts sr) current_ts l) \<Longrightarrow>
      (\<And>c. \<not> committed_at (versions (sr_engine sr) u) (sr_start_ts sr) c) \<Longrightarrow>
      \<exists>rl e'. run_action sr cm (\<lambda>sr. cleanup sr (Key_from_raw u) current_ts protect) = Inr (rl, e')"
proof -
  let ?e = "sr_engine sr" and ?s = "sr_start_ts sr" and ?txn = "MvccTxn_new (sr_start_ts sr) cm"
  note error = run_action_error [where act = "\<lambda>sr. cleanup sr (Key_from_raw u) current_ts protect"]
  note ok = run_action_pushes [where act = "\<lambda>sr. cleanup sr (Key_from_raw u) current_ts protect", OF assms(1)]
  show "run_action sr cm (\<lambda>sr. cleanup sr (Key_from_raw u) current_ts protect) =
      Inl (KeyIsLocked (into_lock_info l u))" if "lock_alive ?e u ?s current_ts l"
    using that cleanup_own(1) [OF assms, of l current_ts protect ?txn] unfolding lock_alive_def
    by (elim conjE) (intro error, blast)
  have foreign: "case commit_record (versions ?e u) ?s of
      RecordNone ow \<Rightarrow>
        \<exists>txn'. cleanup sr (Key_from_raw u) current_ts protect ?txn = (Inr None, txn') \<and>
          pushes u ?txn (missing_lock_ops (versions ?e u) ?s (lock_of ?e u) protect) txn'
    | SingleRecord c w \<Rightarrow>
        cleanup sr (Key_from_raw u) current_ts protect ?txn =
          (if write_type w = WTRollback then Inr None else Inl (Committed ?s c u), ?txn)
    | OverlappedRollback c \<Rightarrow> cleanup sr (Key_from_raw u) current_ts protect ?txn = (Inr None, ?txn)"
    if "\<And>l. lock_of ?e u = Some l \<Longrightarrow> lock_ts l \<noteq> ?s"
    using that by (intro cleanup_foreign [OF assms]) simp_all
  show "run_action sr cm (\<lambda>sr. cleanup sr (Key_from_raw u) current_ts protect) = Inl (Committed ?s c u)"
    if c: "committed_at (versions ?e u) ?s c"
  proof -
    obtain w where w: "commit_record (versions ?e u) ?s = SingleRecord c w" "write_type w \<noteq> WTRollback"
      using c unfolding committed_at_def by blast
    have "lock_ts l \<noteq> ?s" if "lock_of ?e u = Some l" for l
      using assms(3) that c by (auto simp: key_ready_def split: if_splits)
    from foreign [OF this] w show ?thesis by (intro error) simp
  qed
  show "\<exists>rl e'. run_action sr cm (\<lambda>sr. cleanup sr (Key_from_raw u) current_ts protect) = Inr (rl, e')"
    if alive: "\<And>l. \<not> lock_alive ?e u ?s current_ts l" and com: "\<And>c. \<not> committed_at (versions ?e u) ?s c"
  proof (cases "\<exists>l. lock_of ?e u = Some l \<and> lock_ts l = ?s")
    case True
    then obtain l where l: "lock_of ?e u = Some l" "lock_ts l = ?s" by blast
    with alive [of l] have "is_zero current_ts \<or> physical (lock_ts l) + lock_ttl l < physical current_ts"
      by (auto simp: lock_alive_def)
    from cleanup_own(2) [OF assms l this, of protect ?txn] ok show ?thesis by blast
  next
    case False
    then have "\<And>l. lock_of ?e u = Some l \<Longrightarrow> lock_ts l \<noteq> ?s" by blast
    note act = foreign [OF this]
    show ?thesis
    proof (cases "commit_record (versions ?e u) ?s")
      case (RecordNone ow)
      with act ok show ?thesis unfolding RecordNone txn_commit_record.case by blast
    next
      case (SingleRecord c w)
      with com [of c] have "write_type w = WTRollback" by (simp add: committed_at_def)
      with act SingleRecord show ?thesis by (intro exI [of _ None] ok [OF _ pushes_refl]) simp
    next
      case (OverlappedRollback c)
      with act show ?thesis by (intro exI [of _ None] ok [OF _ pushes_refl]) simp
    qed
  qed
qed

section \<open>Properties of the cleanup\<close>

text \<open>C14: Cleaning up a key of a transaction.  A lock that has not expired is reported and stays; a
  committed transaction is reported with its commit timestamp.  Otherwise the cleanup succeeds:
  the lock is gone and the transaction is not committed, it is marked as rolled back whenever the
  rollback is protected or no other record stands at its start, the records of the key stay in
  order, no other key changes, and no snapshot read at any timestamp changes its answer.\<close>

theorem cleanup_correct:
  assumes "wf_engine (sr_engine sr)" "plain_reader sr" "key_ready (sr_engine sr) u (sr_start_ts sr)"
  shows "(\<forall>l. lock_alive (sr_engine sr) u (sr_start_ts sr) current_ts l \<longrightarrow>
      run_action sr cm (\<lambda>sr. cleanup sr (Key_from_raw u) current_ts protect) =
        Inl (KeyIsLocked (into_lock_info l u))) \<and>
    (\<forall>c. committed_at (versions (sr_engine sr) u) (sr_start_ts sr) c \<longrightarrow>
      run_action sr cm (\<lambda>sr. cleanup sr (Key_from_raw u) current_ts protect) =
        Inl (Committed (sr_start_ts sr) c u)) \<and>
    ((\<forall>l. \<not> lock_alive (sr_engine sr) u (sr_start_ts sr) current_ts l) \<longrightarrow>
     (\<forall>c. \<not> committed_at (versions (sr_engine sr) u) (sr_start_ts sr) c) \<longrightarrow>
     (\<exists>rl e'. run_action sr cm (\<lambda>sr. cleanup sr (Key_from_raw u) current_ts protect) = Inr (rl, e') \<and>
       wf_engine e' \<and> records_ok (versions e' u) \<and>
       (\<forall>l. lock_of e' u = Some l \<longrightarrow> lock_ts l \<noteq> sr_start_ts sr) \<and>
       (\<forall>c. \<not> committed_at (versions e' u) (sr_start_ts sr) c) \<and>
       (protect \<and> (\<forall>l. lock_of (sr_engine sr) u = Some l \<longrightarrow> lock_ts l \<noteq> sr_start_ts sr \<or> rollback_protected u l)
         \<or> versions (sr_engine sr) u (sr_start_ts sr) = None \<longrightarrow>
        rolled_back (versions e' u) (sr_start_ts sr)) \<and>
       (\<forall>u'. u' \<noteq> u \<longrightarrow> key_state_of e' u' = key_state_of (sr_engine sr) u') \<and>
       (\<forall>u' t. read_value e' u' (Some t) t = read_value (sr_engine sr) u' (Some t) t)))"
proof (intro conjI allI impI)
  show "run_action sr cm (\<lambda>sr. cleanup sr (Key_from_raw u) current_ts protect) = Inl (KeyIsLocked (into_lock_info l u))"
    if "lock_alive (sr_engine sr) u (sr_start_ts sr) current_ts l" for l
    using that by (rule cleanup_runs(1) [OF assms])
  show "run_action sr cm (\<lambda>sr. cleanup sr (Key_from_raw u) current_ts protect) = Inl (Committed (sr_start_ts sr) c u)"
    if "committed_at (versions (sr_engine sr) u) (sr_start_ts sr) c" for c
    using that by (rule cleanup_runs(2) [OF assms])
  assume "\<forall>l. \<not> lock_alive (sr_engine sr) u (sr_start_ts sr) current_ts l"
    and "\<forall>c. \<not> committed_at (versions (sr_engine sr) u) (sr_start_ts sr) c"
  then obtain rl e' where
    run: "run_action sr cm (\<lambda>sr. cleanup sr (Key_from_raw u) current_ts protect) = Inr (rl, e')"
    using cleanup_runs(3) [OF assms, of current_ts cm protect] by blast
  let ?p = "case lock_of (sr_engine sr) u of
      Some l \<Rightarrow> if lock_ts l = sr_start_ts sr then rollback_protected u l else protect | None \<Rightarrow> protect"
  have ok: "records_ok (ks_versions (key_state_of (sr_engine sr) u))"
    using assms(3) by (simp add: key_ready_def)
  note rb = cleanup_rolls_back [OF assms run]
  note frame = cleanup_action.run_frame [OF assms(1) conjI [OF assms(2,3)] run]
  have 1: "wf_engine e'" "\<forall>u'. u' \<noteq> u \<longrightarrow> key_state_of e' u' = key_state_of (sr_engine sr) u'"
    using frame by blast+
  have 2: "records_ok (versions e' u)" "\<forall>c. \<not> committed_at (versions e' u) (sr_start_ts sr) c"
    using rolls_backD(1,2) [OF ok rb] by simp_all
  have 3: "protect \<and> (\<forall>l. lock_of (sr_engine sr) u = Some l \<longrightarrow> lock_ts l \<noteq> sr_start_ts sr \<or> rollback_protected u l)
      \<or> versions (sr_engine sr) u (sr_start_ts sr) = None \<longrightarrow> rolled_back (versions e' u) (sr_start_ts sr)"
    using rolls_backD(3) [OF ok rb] by (auto split: option.splits if_splits)
  have 4: "\<forall>u' t. read_value e' u' (Some t) t = read_value (sr_engine sr) u' (Some t) t"
  proof (intro allI)
    show "read_value e' u' (Some t) t = read_value (sr_engine sr) u' (Some t) t" for u' t
      using rolls_backD(4) [OF ok rb] 1(2) by (cases "u' = u") (simp_all add: read_value_ks)
  qed
  have 5: "\<forall>l. lock_of e' u = Some l \<longrightarrow> lock_ts l \<noteq> sr_start_ts sr"
    using rb by (simp add: rolls_back_def)
  show "\<exists>rl e'. run_action sr cm (\<lambda>sr. cleanup sr (Key_from_raw u) current_ts protect) = Inr (rl, e') \<and>
      wf_engine e' \<and> records_ok (versions e' u) \<and>
      (\<forall>l. lock_of e' u = Some l \<longrightarrow> lock_ts l \<noteq> sr_start_ts sr) \<and>
      (\<forall>c. \<not> committed_at (versions e' u) (sr_start_ts sr) c) \<and>
      (protect \<and> (\<forall>l. lock_of (sr_engine sr) u = Some l \<longrightarrow> lock_ts l \<noteq> sr_start_ts sr \<or> rollback_protected u l)
        \<or> versions (sr_engine sr) u (sr_start_ts sr) = None \<longrightarrow> rolled_back (versions e' u) (sr_start_ts sr)) \<and>
      (\<forall>u'. u' \<noteq> u \<longrightarrow> key_state_of e' u' = key_state_of (sr_engine sr) u') \<and>
      (\<forall>u' t. read_value e' u' (Some t) t = read_value (sr_engine sr) u' (Some t) t)"
    by (intro exI [of _ rl] exI [of _ e'] conjI run 1 2 3 4 5)
qed

definition sample_snapshot :: "ts \<Rightarrow> snapshot_reader" where
  "sample_snapshot s = \<lparr> sr_reader = sample_reader, sr_start_ts = s \<rparr>"

definition sample_cm :: concurrency_manager where
  "sample_cm = new_with_config 1 0 ActionError 0 0"

lemma sample_snapshot_fields [simp]:
  "sr_engine (sample_snapshot s) = sample_store" "sr_start_ts (sample_snapshot s) = s"
  "plain_reader (sample_snapshot s)"
  by (simp_all add: sample_snapshot_def sample_reader_engine) (simp add: sample_reader_def MvccReader_new_def)

lemma records_ok_sample: "records_ok (versions sample_store [107])"
  by (simp add: records_ok_def versions_sample_store Write_new_def)

lemma lock_of_sample: "lock_of sample_store u = None"
  by (simp add: sample_store_def store_simps)

lemma key_ready_sample: "key_ready sample_store [107] s"
  by (simp add: key_ready_def records_ok_sample lock_of_sample)

lemma committed_sample: "committed_at (versions sample_store [107]) 15 20"
proof -
  have "own (versions sample_store [107]) 15 c = None" if "20 < c" for c
    using that by (auto simp: own_def versions_sample_store)
  then show ?thesis
    using commit_record_single [of "versions sample_store [107]" 20 _ 15]
    by (auto simp: committed_at_def versions_sample_store Write_new_def)
qed

lemma undecided_sample: "commit_record (versions sample_store [107]) 30 = RecordNone None"
  by (simp add: commit_record_none own_def versions_sample_store Write_new_def)

lemma read_sample: "read_value sample_store [107] (Some 40) 40 = Some [42]"
  by (simp add: read_value_def visible_def latest_data_sample [of 40] Write_new_def
      check_gc_fence_as_latest_version_def)

theorem cleanup_correct_witness:
  "run_action (sample_snapshot 15) sample_cm (\<lambda>sr. cleanup sr (Key_from_raw [107]) 0 True) =
     Inl (Committed 15 20 [107]) \<and>
   (\<exists>rl e'. run_action (sample_snapshot 30) sample_cm (\<lambda>sr. cleanup sr (Key_from_raw [107]) 0 True) = Inr (rl, e') \<and>
     rolled_back (versions e' [107]) 30 \<and> read_value e' [107] (Some 40) 40 = Some [42])"
proof
  have pre: "wf_engine (sr_engine (sample_snapshot s))" "plain_reader (sample_snapshot s)"
    "key_ready (sr_engine (sample_snapshot s)) [107] (sr_start_ts (sample_snapshot s))" for s
    by (simp_all add: wf_sample_store key_ready_sample)
  show "run_action (sample_snapshot 15) sample_cm (\<lambda>sr. cleanup sr (Key_from_raw [107]) 0 True) =
      Inl (Committed 15 20 [107])"
    using cleanup_correct [OF pre, of 15 0 sample_cm True, THEN conjunct2, THEN conjunct1] committed_sample by simp
  have "\<not> committed_at (versions sample_store [107]) 30 c" for c
    by (simp add: committed_at_def undecided_sample)
  then obtain rl e' where
    "run_action (sample_snapshot 30) sample_cm (\<lambda>sr. cleanup sr (Key_from_raw [107]) 0 True) = Inr (rl, e')"
    "rolled_back (versions e' [107]) 30" "read_value e' [107] (Some 40) 40 = read_value sample_store [107] (Some 40) 40"
    using cleanup_correct [OF pre, of 30 0 sample_cm True, THEN conjunct2, THEN conjunct2]
    by (auto simp: lock_alive_def lock_of_sample)
  then show "\<exists>rl e'. run_action (sample_snapshot 30) sample_cm (\<lambda>sr. cleanup sr (Key_from_raw [107]) 0 True) = Inr (rl, e') \<and>
      rolled_back (versions e' [107]) 30 \<and> read_value e' [107] (Some 40) 40 = Some [42]"
    by (simp add: read_sample)
qed

end
