(* ===== verification/Commit_Action.thy ===== *)
theory Commit_Action
  imports Txn_Status
begin

text \<open>
  Committing a key, \<^verbatim>\<open>src/storage/txn/actions/commit.rs\<close>.  The role of the key and the debugging
  information only reach the log and are not modelled.  The lemmas show when a commit succeeds,
  that it makes exactly the prewritten change visible from its commit timestamp on, that
  repeating it changes nothing, and how it interacts with the push of the least commit timestamp
  and with rollbacks of other transactions.
\<close>

section \<open>The action\<close>

definition commit_write :: "lock \<Rightarrow> write_type \<Rightarrow> ts \<Rightarrow> ts \<Rightarrow> write_record" where
  "commit_write l wt start_ts commit_ts =
     (let w = (Write_new wt start_ts (lock_short_value l))
            \<lparr>write_last_change := lock_last_change l, write_txn_source := lock_txn_source l\<rparr> in
      if commit_ts \<in> set (lock_rollback_ts l) then set_overlapped_rollback True None w else w)"

definition commit :: "snapshot_reader \<Rightarrow> key \<Rightarrow> ts \<Rightarrow> released_lock option action" where
  "commit sr k commit_ts txn =
     st_bind (sr_load_lock sr k, txn) (\<lambda>lk txn.
       case (case lk of Some l \<Rightarrow> if lock_ts l = sr_start_ts sr then Some l else None | None \<Rightarrow> None) of
         Some l \<Rightarrow>
           if commit_ts < lock_min_commit_ts l then
             (try_codec (Key_into_raw k) (\<lambda>raw.
                Inl (CommitTsExpired (sr_start_ts sr) commit_ts raw (lock_min_commit_ts l))), txn)
           else if is_pessimistic_lock l then
             (case unlock_key k (is_pessimistic_txn l) 0 txn of (rl, txn) \<Rightarrow> (Inr rl, txn))
           else
             st_bind (unwrap (WriteType_from_lock_type (lock_type l)), txn) (\<lambda>wt txn.
               let txn = put_write k commit_ts (Write_to_bytes (commit_write l wt (sr_start_ts sr) commit_ts)) txn in
               case unlock_key k (is_pessimistic_txn l) commit_ts txn of (rl, txn) \<Rightarrow> (Inr rl, txn))
       | None \<Rightarrow>
           st_bind (sr_get_txn_commit_record sr k, txn) (\<lambda>rec txn.
             case record_info rec of
               Some (_, wt) \<Rightarrow>
                 if wt = WTRollback then
                   (try_codec (Key_into_raw k) (\<lambda>raw. Inl (TxnLockNotFound (sr_start_ts sr) commit_ts raw)), txn)
                 else (Inr None, txn)
             | None \<Rightarrow>
                 (try_codec (Key_into_raw k) (\<lambda>raw. Inl (TxnLockNotFound (sr_start_ts sr) commit_ts raw)), txn)))"

section \<open>What it writes\<close>

definition commit_ops :: "lock \<Rightarrow> ts \<Rightarrow> ts \<Rightarrow> key_op list" where
  "commit_ops l s commit_ts =
     (case WriteType_from_lock_type (lock_type l) of
        Some wt \<Rightarrow> [PutWrite commit_ts (commit_write l wt s commit_ts), DelLock]
      | None \<Rightarrow> [DelLock])"

lemma pessimistic_type: "WriteType_from_lock_type t = None \<longleftrightarrow> t = LTPessimistic"
  by (cases t) simp_all

lemma wf_commit_write: "wf_lock l \<Longrightarrow> wf_write (commit_write l wt s c)"
  by (auto simp: wf_lock_def wf_write_def commit_write_def Let_def Write_new_def set_overlapped_rollback_def)

lemma commit_write_fields [simp]:
  "write_type (commit_write l wt s c) = wt"
  "write_start_ts (commit_write l wt s c) = s"
  "write_short_value (commit_write l wt s c) = lock_short_value l"
  "write_last_change (commit_write l wt s c) = lock_last_change l"
  "gc_fence (commit_write l wt s c) = None"
  "has_overlapped_rollback (commit_write l wt s c) \<longleftrightarrow> c \<in> set (lock_rollback_ts l)"
  by (simp_all add: commit_write_def Let_def Write_new_def set_overlapped_rollback_def)

lemma commit_own:
  assumes "wf_engine (sr_engine sr)" "plain_reader sr"
    and "lock_of (sr_engine sr) u = Some l" "lock_ts l = sr_start_ts sr"
  shows "commit_ts < lock_min_commit_ts l \<Longrightarrow>
      commit sr (Key_from_raw u) commit_ts txn =
        (Inl (CommitTsExpired (sr_start_ts sr) commit_ts u (lock_min_commit_ts l)), txn)"
    and "lock_min_commit_ts l \<le> commit_ts \<Longrightarrow>
      \<exists>txn'. commit sr (Key_from_raw u) commit_ts txn =
          (Inr (Some (ReleasedLock_new (txn_start_ts txn) (if is_pessimistic_lock l then 0 else commit_ts)
             (Key_from_raw u) (is_pessimistic_txn l))), txn') \<and>
        pushes u txn (commit_ops l (sr_start_ts sr) commit_ts) txn'"
proof -
  note load = load_lock_plain [OF assms(1,2), of u]
  show "commit sr (Key_from_raw u) commit_ts txn =
      (Inl (CommitTsExpired (sr_start_ts sr) commit_ts u (lock_min_commit_ts l)), txn)"
    if "commit_ts < lock_min_commit_ts l"
    using that assms(3,4) by (simp add: commit_def load)
  assume ge: "lock_min_commit_ts l \<le> commit_ts"
  note wf = wf_lock_of [OF assms(1,3)]
  show "\<exists>txn'. commit sr (Key_from_raw u) commit_ts txn =
      (Inr (Some (ReleasedLock_new (txn_start_ts txn) (if is_pessimistic_lock l then 0 else commit_ts)
         (Key_from_raw u) (is_pessimistic_txn l))), txn') \<and>
      pushes u txn (commit_ops l (sr_start_ts sr) commit_ts) txn'"
  proof (cases "WriteType_from_lock_type (lock_type l)")
    case None
    then have "lock_type l = LTPessimistic" by (simp add: pessimistic_type)
    with None assms(3,4) ge show ?thesis
      using pushes_modify [OF pushes_refl, of DelLock u txn]
      by (simp add: commit_def load leD is_pessimistic_lock_def unlock_key_def commit_ops_def)
  next
    case (Some wt)
    then have "lock_type l \<noteq> LTPessimistic" by auto
    let ?w = "commit_write l wt (sr_start_ts sr) commit_ts"
    have "pushes u txn [PutWrite commit_ts ?w] (push_modify (modify_of u (PutWrite commit_ts ?w)) txn)"
      using pushes_modify [OF pushes_refl, of "PutWrite commit_ts ?w"] wf_commit_write [OF wf] by simp
    from pushes_modify [OF this, of DelLock] Some \<open>lock_type l \<noteq> LTPessimistic\<close> assms(3,4) ge show ?thesis
      by (simp add: commit_def load leD is_pessimistic_lock_def unlock_key_def put_write_def commit_ops_def Let_def)
  qed
qed

lemma commit_foreign:
  assumes "wf_engine (sr_engine sr)" "plain_reader sr" "records_ok (versions (sr_engine sr) u)"
    and "\<And>l. lock_of (sr_engine sr) u = Some l \<Longrightarrow> lock_ts l \<noteq> sr_start_ts sr"
  shows "commit sr (Key_from_raw u) commit_ts txn =
    (if \<exists>c. committed_at (versions (sr_engine sr) u) (sr_start_ts sr) c then Inr None
     else Inl (TxnLockNotFound (sr_start_ts sr) commit_ts u), txn)"
proof -
  let ?e = "sr_engine sr" and ?s = "sr_start_ts sr"
  have rec: "sr_get_txn_commit_record sr (Key_from_raw u) = Inr (commit_record (versions ?e u) ?s)"
    by (simp add: sr_get_txn_commit_record_def get_txn_commit_record_eq assms(1) records_ok_starts [OF assms(3)])
  have foreign: "(case lock_of ?e u of Some l \<Rightarrow> if lock_ts l = ?s then Some l else None | None \<Rightarrow> None) = None"
    using assms(4) by (cases "lock_of ?e u") simp_all
  show ?thesis
    by (cases "commit_record (versions ?e u) ?s")
      (simp_all add: commit_def load_lock_plain [OF assms(1,2)] foreign rec committed_at_def)
qed

interpretation commit_action: key_action
  "\<lambda>sr u. commit sr (Key_from_raw u) commit_ts"
  "\<lambda>sr u. plain_reader sr \<and> records_ok (versions (sr_engine sr) u)" for commit_ts
proof
  fix sr u and txn :: mvcc_txn
  assume wf: "wf_engine (sr_engine sr)" and ready: "plain_reader sr \<and> records_ok (versions (sr_engine sr) u)"
  show "\<exists>ops. pushes u txn ops (snd (commit sr (Key_from_raw u) commit_ts txn))"
  proof (cases "\<exists>l. lock_of (sr_engine sr) u = Some l \<and> lock_ts l = sr_start_ts sr")
    case True
    then obtain l where l: "lock_of (sr_engine sr) u = Some l" "lock_ts l = sr_start_ts sr" by blast
    note own = commit_own [OF wf ready [THEN conjunct1] l, of commit_ts txn]
    show ?thesis
    proof (cases "commit_ts < lock_min_commit_ts l")
      case True
      from own(1) [OF this] show ?thesis using pushes_refl by (metis snd_conv)
    next
      case False
      then have "lock_min_commit_ts l \<le> commit_ts" by simp
      from own(2) [OF this] show ?thesis by (metis snd_conv)
    qed
  next
    case False
    then have "commit sr (Key_from_raw u) commit_ts txn =
        (if \<exists>c. committed_at (versions (sr_engine sr) u) (sr_start_ts sr) c then Inr None
         else Inl (TxnLockNotFound (sr_start_ts sr) commit_ts u), txn)"
      using ready by (intro commit_foreign [OF wf]) blast+
    then show ?thesis using pushes_refl by (metis snd_conv)
  qed
qed

section \<open>The versions after a commit\<close>

lemma latest_upd_above:
  assumes "\<And>c. f c \<noteq> None \<Longrightarrow> c < k"
  shows "latest (f(k := Some w)) t = (if k \<le> t then Some (k, w) else latest f t)"
proof (cases "k \<le> t")
  case True
  have "f c = None" if "k < c" for c
    using assms [of c] that by (cases "f c") (simp_all add: less_not_sym)
  with True have "latest (f(k := Some w)) t = Some (k, w)" unfolding latest_Some by simp
  with True show ?thesis by simp
next
  case False
  then have "latest (f(k := Some w)) t = latest f t" by (intro latest_eqI) auto
  with False show ?thesis by simp
qed

lemma data_upd: "data (vs(c := Some w)) = (data vs)(c := if is_data w then Some w else None)"
  by (rule ext) (simp add: data_def)

text \<open>A transaction that is not committed has at most its rollback record.\<close>

lemma own_not_committed:
  assumes "records_ok vs" "\<forall>c. \<not> committed_at vs s c" "own vs s c = Some w"
  shows "c = s" "write_type w = WTRollback"
proof -
  obtain p where "latest (own vs s) ts_max = Some p"
    using assms(3) by (cases "latest (own vs s) ts_max") (auto simp: latest_None)
  moreover obtain c0 w0 where "p = (c0, w0)" by (cases p)
  ultimately have l: "latest (own vs s) ts_max = Some (c0, w0)" by simp
  then have "commit_record vs s = SingleRecord c0 w0" by (simp add: commit_record_def)
  from not_committed_single [OF assms(2) this] have "write_type w0 = WTRollback" .
  moreover have w0: "vs c0 = Some w0" "write_start_ts w0 = s" using l unfolding latest_Some own_Some by blast+
  ultimately have "c0 = s" using records_okD(2) [OF assms(1) w0(1)] by simp
  have "\<not> c0 < c"
  proof
    assume "c0 < c"
    then have "own vs s c = None" using l unfolding latest_Some by simp
    with assms(3) show False by simp
  qed
  moreover have w: "vs c = Some w" "write_start_ts w = s" using assms(3) unfolding own_Some by blast+
  ultimately show "c = s" using records_okD(1) [OF assms(1) w(1)] \<open>c0 = s\<close> by simp
  then show "write_type w = WTRollback" using records_okD(2) [OF assms(1) w(1)] w(2) by simp
qed

lemma committed_at_upd:
  assumes "records_ok vs" "\<forall>c. \<not> committed_at vs s c" "s < c"
    and "write_start_ts w = s" "write_type w \<noteq> WTRollback"
  shows "committed_at (vs(c := Some w)) s c"
proof -
  have "own (vs(c := Some w)) s c' = None" if "c < c'" for c'
  proof -
    have "own vs s c' = None"
    proof (rule ccontr)
      assume "own vs s c' \<noteq> None"
      then obtain w' where "own vs s c' = Some w'" by blast
      from own_not_committed(1) [OF assms(1,2) this] that assms(3) show False by simp
    qed
    moreover have "c' \<noteq> c" using that by simp
    ultimately show ?thesis by (simp add: own_def)
  qed
  then have "commit_record (vs(c := Some w)) s = SingleRecord c w"
    by (intro commit_record_single) (simp_all add: assms(4))
  with assms(5) show ?thesis by (simp add: committed_at_def)
qed

lemma records_ok_upd:
  assumes "records_ok vs" "write_start_ts w < c" "write_type w \<noteq> WTRollback" "gc_fence w = None"
  shows "records_ok (vs(c := Some w))"
  using assms unfolding records_ok_def by simp

definition commit_type :: "lock \<Rightarrow> write_type" where
  "commit_type l =
     (case lock_type l of LTPut \<Rightarrow> WTPut | LTDelete \<Rightarrow> WTDelete | LTLock \<Rightarrow> WTLock | LTPessimistic \<Rightarrow> WTLock)"

lemma commit_type: "lock_type l \<noteq> LTPessimistic \<Longrightarrow> WriteType_from_lock_type (lock_type l) = Some (commit_type l)"
  "commit_type l \<noteq> WTRollback"
  by (cases "lock_type l"; simp add: commit_type_def)+

definition after_commit :: "key_state \<Rightarrow> lock \<Rightarrow> ts \<Rightarrow> ts \<Rightarrow> key_state" where
  "after_commit ks l s commit_ts =
     ks\<lparr>ks_versions := (ks_versions ks)(commit_ts := Some (commit_write l (commit_type l) s commit_ts)),
        ks_lock := None\<rparr>"

lemma apply_commit_ops:
  "lock_type l \<noteq> LTPessimistic \<Longrightarrow> foldl apply_op ks (commit_ops l s c) = after_commit ks l s c"
  by (simp add: commit_ops_def commit_type(1) after_commit_def)

lemma ks_read_cong:
  "visible (ks_versions ks') l t = visible (ks_versions ks) l t \<Longrightarrow> ks_values ks' = ks_values ks \<Longrightarrow>
   ks_read ks' l t = ks_read ks l t"
  unfolding ks_read_def by (simp only:)

lemma ks_read_after_commit:
  assumes "\<And>c. data (ks_versions ks) c \<noteq> None \<Longrightarrow> c < commit_ts"
  shows "ks_read (after_commit ks l s commit_ts) (Some t) t =
    (if commit_ts \<le> t \<and> lock_type l = LTPut then
       (case lock_short_value l of Some v \<Rightarrow> Some v | None \<Rightarrow> ks_values ks s)
     else if commit_ts \<le> t \<and> lock_type l = LTDelete then None
     else ks_read ks (Some t) t)"
proof (cases "is_data (commit_write l (commit_type l) s commit_ts)")
  case True
  let ?w = "commit_write l (commit_type l) s commit_ts"
  have "latest (data (ks_versions (after_commit ks l s commit_ts))) t =
      (if commit_ts \<le> t then Some (commit_ts, ?w) else latest (data (ks_versions ks)) t)"
    using latest_upd_above [of "data (ks_versions ks)" commit_ts ?w t, OF assms] True
    by (simp add: after_commit_def data_upd)
  moreover have "check_gc_fence_as_latest_version ?w t" by (simp add: check_gc_fence_as_latest_version_def)
  ultimately have at: "commit_ts \<le> t \<Longrightarrow> visible (ks_versions (after_commit ks l s commit_ts)) (Some t) t =
      (if commit_type l = WTPut then Some (?w, commit_ts) else None)"
    and before: "\<not> commit_ts \<le> t \<Longrightarrow> visible (ks_versions (after_commit ks l s commit_ts)) (Some t) t =
      visible (ks_versions ks) (Some t) t"
    by (simp_all add: visible_def)
  have vals: "ks_values (after_commit ks l s commit_ts) = ks_values ks" by (simp add: after_commit_def)
  show ?thesis
  proof (cases "commit_ts \<le> t")
    case le: True
    from at [OF le] le True show ?thesis
      by (cases "lock_type l"; cases "lock_short_value l")
        (simp_all add: ks_read_def commit_type_def is_data_def vals)
  next
    case False
    with ks_read_cong [OF before vals] show ?thesis by simp
  qed
next
  case False
  then have "lock_type l \<noteq> LTPut" "lock_type l \<noteq> LTDelete"
    by (auto simp: is_data_def commit_type_def)
  moreover have "data (ks_versions ks) commit_ts = None"
    using assms [of commit_ts] by (cases "data (ks_versions ks) commit_ts") simp_all
  then have "data (ks_versions (after_commit ks l s commit_ts)) = data (ks_versions ks)"
    using False by (simp add: after_commit_def data_upd fun_upd_idem)
  then have "visible (ks_versions (after_commit ks l s commit_ts)) (Some t) t = visible (ks_versions ks) (Some t) t"
    unfolding visible_def by simp
  ultimately show ?thesis using ks_read_cong [of "after_commit ks l s commit_ts" "Some t" t ks]
    by (simp add: after_commit_def)
qed

lemma commit_runs:
  assumes "wf_engine (sr_engine sr)" "plain_reader sr"
    and "lock_of (sr_engine sr) u = Some l" "lock_ts l = sr_start_ts sr" "lock_type l \<noteq> LTPessimistic"
    and "lock_min_commit_ts l \<le> commit_ts"
  obtains e' where "run_action sr cm (\<lambda>sr. commit sr (Key_from_raw u) commit_ts) =
      Inr (Some (ReleasedLock_new (sr_start_ts sr) commit_ts (Key_from_raw u) (is_pessimistic_txn l)), e')"
    "wf_engine e'" "key_state_of e' u = after_commit (key_state_of (sr_engine sr) u) l (sr_start_ts sr) commit_ts"
    "\<And>u'. u' \<noteq> u \<Longrightarrow> key_state_of e' u' = key_state_of (sr_engine sr) u'"
proof -
  let ?act = "\<lambda>sr. commit sr (Key_from_raw u) commit_ts" and ?txn = "MvccTxn_new (sr_start_ts sr) cm"
  obtain txn' where "?act sr ?txn =
      (Inr (Some (ReleasedLock_new (sr_start_ts sr) commit_ts (Key_from_raw u) (is_pessimistic_txn l))), txn')"
    "pushes u ?txn (commit_ops l (sr_start_ts sr) commit_ts) txn'"
    using commit_own(2) [OF assms(1-4,6), of ?txn] assms(5) by (auto simp: is_pessimistic_lock_def)
  from run_action_ops [where act = ?act, OF assms(1) this] that show ?thesis
    unfolding apply_commit_ops [OF assms(5)] by blast
qed

section \<open>Properties of the commit\<close>

text \<open>C10: Committing the key of a prewritten transaction at a timestamp above its start, its least
  commit timestamp and every data version of the key succeeds and removes the lock; the
  transaction is then committed there; a read below the commit timestamp gets the answer it got
  before, a read at or above it gets the prewritten value, or nothing for a deletion, or the old
  answer for a lock only mutation; other keys do not change.\<close>

theorem commit_makes_visible:
  assumes "wf_engine (sr_engine sr)" "plain_reader sr" "key_ready (sr_engine sr) u (sr_start_ts sr)"
    and "lock_of (sr_engine sr) u = Some l" "lock_ts l = sr_start_ts sr" "lock_type l \<noteq> LTPessimistic"
    and "lock_min_commit_ts l \<le> commit_ts" "sr_start_ts sr < commit_ts"
    and "\<And>c. data (versions (sr_engine sr) u) c \<noteq> None \<Longrightarrow> c < commit_ts"
  shows "\<exists>rl e'. run_action sr cm (\<lambda>sr. commit sr (Key_from_raw u) commit_ts) = Inr (Some rl, e') \<and>
    wf_engine e' \<and> records_ok (versions e' u) \<and> lock_of e' u = None \<and>
    committed_at (versions e' u) (sr_start_ts sr) commit_ts \<and>
    (\<forall>t. read_value e' u (Some t) t =
      (if commit_ts \<le> t \<and> lock_type l = LTPut then
         (case lock_short_value l of Some v \<Rightarrow> Some v | None \<Rightarrow> value_of (sr_engine sr) u (sr_start_ts sr))
       else if commit_ts \<le> t \<and> lock_type l = LTDelete then None
       else read_value (sr_engine sr) u (Some t) t)) \<and>
    (\<forall>u'. u' \<noteq> u \<longrightarrow> key_state_of e' u' = key_state_of (sr_engine sr) u')"
proof -
  let ?e = "sr_engine sr" and ?s = "sr_start_ts sr"
  obtain e' where run: "run_action sr cm (\<lambda>sr. commit sr (Key_from_raw u) commit_ts) =
      Inr (Some (ReleasedLock_new ?s commit_ts (Key_from_raw u) (is_pessimistic_txn l)), e')"
    and wf: "wf_engine e'" and ks: "key_state_of e' u = after_commit (key_state_of ?e u) l ?s commit_ts"
    and others: "\<forall>u'. u' \<noteq> u \<longrightarrow> key_state_of e' u' = key_state_of ?e u'"
    using commit_runs [OF assms(1,2,4-7), of cm] by blast
  have vs: "versions e' u = (versions ?e u)(commit_ts := Some (commit_write l (commit_type l) ?s commit_ts))"
    and lock: "lock_of e' u = None"
    using arg_cong [OF ks, of ks_versions] arg_cong [OF ks, of ks_lock] by (simp_all add: after_commit_def)
  have ready: "records_ok (versions ?e u)" "\<forall>c. \<not> committed_at (versions ?e u) ?s c"
    using assms(3-5) by (simp_all add: key_ready_def)
  have "records_ok (versions e' u)" "committed_at (versions e' u) ?s commit_ts"
    unfolding vs using assms(8) commit_type(2) [of l]
    by (simp_all add: records_ok_upd [OF ready(1)] committed_at_upd [OF ready])
  moreover have "\<forall>t. read_value e' u (Some t) t =
      (if commit_ts \<le> t \<and> lock_type l = LTPut then
         (case lock_short_value l of Some v \<Rightarrow> Some v | None \<Rightarrow> value_of ?e u ?s)
       else if commit_ts \<le> t \<and> lock_type l = LTDelete then None
       else read_value ?e u (Some t) t)"
    unfolding read_value_ks ks
    by (rule allI, rule ks_read_after_commit [of "key_state_of ?e u", unfolded key_state_of_sel, OF assms(9)])
  ultimately show ?thesis
    using run wf lock others
    by (intro exI [of _ "ReleasedLock_new ?s commit_ts (Key_from_raw u) (is_pessimistic_txn l)"]
        exI [of _ e'] conjI)
qed

definition locked_store :: "lock \<Rightarrow> engine" where
  "locked_store l = map_cf_tree (tree_insert (Key_from_raw [107]) (Lock_to_bytes l)) CF_LOCK sample_store"

definition locked_snapshot :: "lock \<Rightarrow> ts \<Rightarrow> snapshot_reader" where
  "locked_snapshot l s =
     SnapshotReader_new s \<lparr> snap_engine = locked_store l, snap_txn_ext = None \<rparr> False (\<lambda>_ _. 0)"

definition put_lock_25 :: lock where
  "put_lock_25 = Lock_new LTPut [107] 25 3000 (Some [9]) 0 1 0 False"

lemma locked_snapshot_fields [simp]:
  "sr_engine (locked_snapshot l s) = locked_store l" "sr_start_ts (locked_snapshot l s) = s"
  "plain_reader (locked_snapshot l s)"
  by (simp_all add: locked_snapshot_def SnapshotReader_new_def MvccReader_new_def)

lemma locked_store_views:
  "wf_lock l \<Longrightarrow> wf_engine (locked_store l)"
  "versions (locked_store l) = versions sample_store"
  "value_of (locked_store l) = value_of sample_store"
  "wf_lock l \<Longrightarrow> lock_of (locked_store l) [107] = Some l"
  by (simp_all add: locked_store_def store_simps wf_sample_store)

lemma put_lock_25: "wf_lock put_lock_25" "lock_ts put_lock_25 = 25" "lock_type put_lock_25 = LTPut"
  "lock_min_commit_ts put_lock_25 = 0" "lock_short_value put_lock_25 = Some [9]" "lock_rollback_ts put_lock_25 = []"
  "lock_primary put_lock_25 = [107]" "lock_use_async_commit put_lock_25 = False"
  by (simp_all add: put_lock_25_def Lock_new_def wf_lock_def is_short_value_def SHORT_VALUE_MAX_LEN_def)

lemma data_sample: "data (versions sample_store [107]) c \<noteq> None \<Longrightarrow> c = 10"
  by (simp add: data_def versions_sample_store is_data_def Write_new_def split: if_splits)

lemma undecided_sample_25: "\<not> committed_at (versions sample_store [107]) 25 c"
proof -
  have "commit_record (versions sample_store [107]) 25 = RecordNone None"
    by (simp add: commit_record_none own_def versions_sample_store Write_new_def)
  then show ?thesis by (simp add: committed_at_def)
qed

lemma key_ready_locked: "wf_lock l \<Longrightarrow> lock_ts l = 25 \<Longrightarrow> key_ready (locked_store l) [107] 25"
  by (simp add: key_ready_def locked_store_views records_ok_sample undecided_sample_25)

theorem commit_makes_visible_witness:
  "\<exists>rl e'. run_action (locked_snapshot put_lock_25 25) sample_cm (\<lambda>sr. commit sr (Key_from_raw [107]) 50) =
      Inr (Some rl, e') \<and> lock_of e' [107] = None \<and> committed_at (versions e' [107]) 25 50 \<and>
    read_value e' [107] (Some 60) 60 = Some [9] \<and> read_value e' [107] (Some 40) 40 = Some [42]"
proof -
  have 10: "c < 50" if "data (versions sample_store [107]) c \<noteq> None" for c
    using data_sample [OF that] by simp
  have "\<exists>rl e'. run_action (locked_snapshot put_lock_25 25) sample_cm (\<lambda>sr. commit sr (Key_from_raw [107]) 50) =
      Inr (Some rl, e') \<and> wf_engine e' \<and> records_ok (versions e' [107]) \<and> lock_of e' [107] = None \<and>
      committed_at (versions e' [107]) (sr_start_ts (locked_snapshot put_lock_25 25)) 50 \<and>
      (\<forall>t. read_value e' [107] (Some t) t =
        (if 50 \<le> t \<and> lock_type put_lock_25 = LTPut then
           (case lock_short_value put_lock_25 of Some v \<Rightarrow> Some v
            | None \<Rightarrow> value_of (sr_engine (locked_snapshot put_lock_25 25)) [107]
                (sr_start_ts (locked_snapshot put_lock_25 25)))
         else if 50 \<le> t \<and> lock_type put_lock_25 = LTDelete then None
         else read_value (sr_engine (locked_snapshot put_lock_25 25)) [107] (Some t) t)) \<and>
      (\<forall>u'. u' \<noteq> [107] \<longrightarrow> key_state_of e' u' = key_state_of (sr_engine (locked_snapshot put_lock_25 25)) u')"
    by (rule commit_makes_visible)
      (simp_all add: put_lock_25 locked_store_views key_ready_locked 10)
  moreover have "read_value (locked_store put_lock_25) [107] (Some 40) 40 = Some [42]"
    using read_sample unfolding read_value_def locked_store_views .
  ultimately show ?thesis by (auto simp: put_lock_25)
qed

text \<open>An action that pushes nothing leaves the engine alone.\<close>

lemma run_action_nothing:
  assumes "act sr (MvccTxn_new (sr_start_ts sr) cm) = (Inr x, MvccTxn_new (sr_start_ts sr) cm)"
  shows "run_action sr cm act = Inr (x, sr_engine sr)"
  using assms by (simp add: run_action_def into_modifies_def)

text \<open>C13: Decisions are final.  Once a transaction is committed on a key, a repeated commit succeeds
  without writing anything and a cleanup reports the commit; once it is rolled back, a commit
  fails and a repeated cleanup succeeds without writing anything.\<close>

theorem decisions_final:
  assumes "wf_engine (sr_engine sr)" "plain_reader sr" "key_ready (sr_engine sr) u (sr_start_ts sr)"
    and "\<And>l. lock_of (sr_engine sr) u = Some l \<Longrightarrow> lock_ts l \<noteq> sr_start_ts sr"
  shows "(committed_at (versions (sr_engine sr) u) (sr_start_ts sr) c \<longrightarrow>
      run_action sr cm (\<lambda>sr. commit sr (Key_from_raw u) commit_ts) = Inr (None, sr_engine sr) \<and>
      run_action sr cm (\<lambda>sr. cleanup sr (Key_from_raw u) current_ts protect) =
        Inl (Committed (sr_start_ts sr) c u)) \<and>
    (rolled_back (versions (sr_engine sr) u) (sr_start_ts sr) \<longrightarrow>
      run_action sr cm (\<lambda>sr. commit sr (Key_from_raw u) commit_ts) =
        Inl (TxnLockNotFound (sr_start_ts sr) commit_ts u) \<and>
      run_action sr cm (\<lambda>sr. cleanup sr (Key_from_raw u) current_ts protect) = Inr (None, sr_engine sr))"
proof (intro conjI impI)
  let ?vs = "versions (sr_engine sr) u" and ?s = "sr_start_ts sr" and ?txn = "MvccTxn_new (sr_start_ts sr) cm"
  have ok: "records_ok ?vs" using assms(3) by (simp add: key_ready_def)
  note commit = commit_foreign [OF assms(1,2) ok assms(4), of commit_ts ?txn]
  show "run_action sr cm (\<lambda>sr. commit sr (Key_from_raw u) commit_ts) = Inr (None, sr_engine sr)"
    if "committed_at ?vs ?s c"
    by (rule run_action_nothing) (use commit that in auto)
  show "run_action sr cm (\<lambda>sr. cleanup sr (Key_from_raw u) current_ts protect) = Inl (Committed ?s c u)"
    if "committed_at ?vs ?s c"
    using that by (rule cleanup_runs(2) [OF assms(1-3)])
  assume rb: "rolled_back ?vs ?s"
  then have "\<not> committed_at ?vs ?s c" for c using committed_at_not_rolled_back by blast
  then show "run_action sr cm (\<lambda>sr. commit sr (Key_from_raw u) commit_ts) = Inl (TxnLockNotFound ?s commit_ts u)"
    by (intro run_action_error [where txn' = ?txn]) (use commit in auto)
  have "case commit_record ?vs ?s of
      RecordNone ow \<Rightarrow>
        \<exists>txn'. cleanup sr (Key_from_raw u) current_ts protect ?txn = (Inr None, txn') \<and>
          pushes u ?txn (missing_lock_ops ?vs ?s (lock_of (sr_engine sr) u) protect) txn'
    | SingleRecord c w \<Rightarrow>
        cleanup sr (Key_from_raw u) current_ts protect ?txn =
          (if write_type w = WTRollback then Inr None else Inl (Committed ?s c u), ?txn)
    | OverlappedRollback c \<Rightarrow> cleanup sr (Key_from_raw u) current_ts protect ?txn = (Inr None, ?txn)"
    using assms(4) by (intro cleanup_foreign [OF assms(1-3)]) simp_all
  with rb show "run_action sr cm (\<lambda>sr. cleanup sr (Key_from_raw u) current_ts protect) = Inr (None, sr_engine sr)"
    by (intro run_action_nothing) (auto simp: rolled_back_def split: txn_commit_record.splits)
qed

theorem decisions_final_witness:
  "run_action (sample_snapshot 15) sample_cm (\<lambda>sr. commit sr (Key_from_raw [107]) 33) = Inr (None, sample_store) \<and>
   run_action (sample_snapshot 15) sample_cm (\<lambda>sr. cleanup sr (Key_from_raw [107]) 0 True) = Inl (Committed 15 20 [107])"
proof -
  have pre: "wf_engine (sr_engine (sample_snapshot 15))" "plain_reader (sample_snapshot 15)"
    "key_ready (sr_engine (sample_snapshot 15)) [107] (sr_start_ts (sample_snapshot 15))"
    "\<And>l. lock_of (sr_engine (sample_snapshot 15)) [107] = Some l \<Longrightarrow> lock_ts l \<noteq> sr_start_ts (sample_snapshot 15)"
    by (simp_all add: wf_sample_store key_ready_sample lock_of_sample)
  show ?thesis
    using decisions_final [OF pre, of 20 sample_cm 33 0 True] committed_sample by simp
qed

section \<open>Rollbacks under a lock of another transaction\<close>

lemma rolled_back_upd:
  assumes "rolled_back vs s" "c \<noteq> s" "write_start_ts w \<noteq> s"
  shows "rolled_back (vs(c := Some w)) s \<or> (\<exists>w'. own vs s c = Some w')"
proof (cases "own vs s c")
  case None
  then have own: "own (vs(c := Some w)) s = own vs s"
    using assms(3) by (intro ext) (simp add: own_def)
  have "(vs(c := Some w)) s = vs s" using assms(2) by simp
  then have "rolled_back (vs(c := Some w)) s = rolled_back vs s"
    unfolding rolled_back_def commit_record_def own
    by (cases "latest (own vs s) ts_max") (auto split: option.splits)
  with assms(1) show ?thesis by simp
qed blast

lemma rolled_back_overlapped:
  assumes "\<And>c. own vs s c = None" "vs s = Some w" "has_overlapped_rollback w"
  shows "rolled_back vs s"
proof -
  have "latest (own vs s) ts_max = None" using assms(1) by (simp add: latest_None)
  with assms(2,3) show ?thesis by (simp add: rolled_back_def commit_record_def)
qed

text \<open>The versions after a protected rollback of \<open>s\<close> and a commit of another transaction.\<close>

lemma rolled_then_committed:
  assumes "records_ok vs" "commit_record vs s = RecordNone ow" "vs s = None"
    and "write_start_ts w \<noteq> s" "c = s \<Longrightarrow> has_overlapped_rollback w"
  shows "rolled_back ((rolled vs s True col)(c := Some w)) s"
proof (cases "c = s")
  case True
  have "own ((rolled vs s True col)(c := Some w)) s c' = None" for c'
  proof (cases "c' = s")
    case False
    then have "own (rolled vs s True col) s c' = None"
      using own_rolled [OF assms(1,2), of True col c'] by (cases "own (rolled vs s True col) s c'") auto
    with False True show ?thesis by (simp add: own_def)
  qed (use True assms(4) in \<open>simp add: own_def\<close>)
  then show ?thesis using assms(5) True by (intro rolled_back_overlapped [where w = w]) simp_all
next
  case False
  have "own (rolled vs s True col) s c = None"
    using own_rolled [OF assms(1,2), of True col c] False by (cases "own (rolled vs s True col) s c") auto
  with rolled_back_upd [OF rolled_back_rolled [OF assms(1,2)] False assms(4), of True col] assms(3)
  show ?thesis by auto
qed

text \<open>The lock of another transaction after a protected cleanup.\<close>

definition marked_lock :: "lock \<Rightarrow> ts \<Rightarrow> lock" where
  "marked_lock l s =
     (if lock_min_commit_ts l \<le> s \<and> lock_use_async_commit l
      then l\<lparr>lock_rollback_ts := lock_rollback_ts l @ [s]\<rparr> else l)"

lemma marked_lock_fields [simp]:
  "lock_ts (marked_lock l s) = lock_ts l" "lock_type (marked_lock l s) = lock_type l"
  "lock_min_commit_ts (marked_lock l s) = lock_min_commit_ts l"
  by (simp_all add: marked_lock_def)

lemma cleanup_under_lock:
  assumes "wf_engine (sr_engine sr)" "plain_reader sr" "key_ready (sr_engine sr) u (sr_start_ts sr)"
    and "lock_of (sr_engine sr) u = Some l" "lock_ts l \<noteq> sr_start_ts sr"
    and "commit_record (versions (sr_engine sr) u) (sr_start_ts sr) = RecordNone ow"
    and "versions (sr_engine sr) u (sr_start_ts sr) = None"
  obtains e1 where
    "run_action sr cm (\<lambda>sr. cleanup sr (Key_from_raw u) current_ts True) = Inr (None, e1)" "wf_engine e1"
    "versions e1 u = rolled (versions (sr_engine sr) u) (sr_start_ts sr) True False"
    "lock_of e1 u = Some (marked_lock l (sr_start_ts sr))"
proof -
  let ?e = "sr_engine sr" and ?s = "sr_start_ts sr" and ?txn = "MvccTxn_new (sr_start_ts sr) cm"
  let ?act = "\<lambda>sr. cleanup sr (Key_from_raw u) current_ts True"
  have ok: "records_ok (ks_versions (key_state_of ?e u))" "commit_record (ks_versions (key_state_of ?e u)) ?s = RecordNone ow"
    using assms(3,6) by (simp_all add: key_ready_def)
  obtain txn' where "?act sr ?txn = (Inr None, txn')"
    "pushes u ?txn (missing_lock_ops (versions ?e u) ?s (lock_of ?e u) True) txn'"
    using cleanup_foreign [OF assms(1-3), of ?txn current_ts True] assms(4-6) by auto
  from run_action_ops [where act = ?act, OF assms(1) this] obtain e1 where
    e1: "run_action sr cm ?act = Inr (None, e1)" "wf_engine e1"
    "key_state_of e1 u = foldl apply_op (key_state_of ?e u) (missing_lock_ops (versions ?e u) ?s (lock_of ?e u) True)"
    by blast
  note ks = e1(3) [folded key_state_of_sel(1) key_state_of_sel(2), unfolded apply_missing_lock_ops [OF ok]]
  have "versions e1 u = rolled (versions ?e u) ?s True False"
    using arg_cong [OF ks, of ks_versions] by simp
  moreover have "lock_of e1 u = Some (marked_lock l ?s)"
    using arg_cong [OF ks, of ks_lock] assms(4,7) by (simp add: mark_ops_def marked_lock_def)
  ultimately show ?thesis by (rule that [OF e1(1,2)])
qed

text \<open>C12: A protected rollback is not lost when the transaction that holds the lock commits, even at the
  very timestamp of the rollback: the cleanup leaves its mark in a lock that may commit there, and
  the commit turns the mark into an overlapped rollback.\<close>

theorem protected_rollback_survives:
  assumes "wf_engine (sr_engine sr)" "plain_reader sr" "key_ready (sr_engine sr) u (sr_start_ts sr)"
    and "lock_of (sr_engine sr) u = Some l" "lock_ts l \<noteq> sr_start_ts sr" "lock_type l \<noteq> LTPessimistic"
    and "commit_record (versions (sr_engine sr) u) (sr_start_ts sr) = RecordNone ow"
    and "versions (sr_engine sr) u (sr_start_ts sr) = None"
    and "lock_min_commit_ts l \<le> commit_ts" "commit_ts = sr_start_ts sr \<Longrightarrow> lock_use_async_commit l"
  shows "\<exists>e1. run_action sr cm (\<lambda>sr. cleanup sr (Key_from_raw u) current_ts True) = Inr (None, e1) \<and>
    (\<forall>sr2 cm2. sr_engine sr2 = e1 \<longrightarrow> plain_reader sr2 \<longrightarrow> sr_start_ts sr2 = lock_ts l \<longrightarrow>
      (\<exists>rl e2. run_action sr2 cm2 (\<lambda>sr. commit sr (Key_from_raw u) commit_ts) = Inr (Some rl, e2) \<and>
        lock_of e2 u = None \<and> rolled_back (versions e2 u) (sr_start_ts sr)))"
proof -
  let ?vs = "versions (sr_engine sr) u" and ?s = "sr_start_ts sr"
  have ok: "records_ok ?vs" using assms(3) by (simp add: key_ready_def)
  obtain e1 where e1: "run_action sr cm (\<lambda>sr. cleanup sr (Key_from_raw u) current_ts True) = Inr (None, e1)"
    "wf_engine e1" "versions e1 u = rolled ?vs ?s True False" "lock_of e1 u = Some (marked_lock l ?s)"
    by (rule cleanup_under_lock [OF assms(1-5,7,8)])
  have "\<exists>rl e2. run_action sr2 cm2 (\<lambda>sr. commit sr (Key_from_raw u) commit_ts) = Inr (Some rl, e2) \<and>
      lock_of e2 u = None \<and> rolled_back (versions e2 u) ?s"
    if "sr_engine sr2 = e1" "plain_reader sr2" "sr_start_ts sr2 = lock_ts l" for sr2 cm2
  proof -
    note sr2 = that
    let ?l = "marked_lock l ?s"
    have pre: "wf_engine (sr_engine sr2)" "lock_of (sr_engine sr2) u = Some ?l" "lock_ts ?l = sr_start_ts sr2"
      "lock_type ?l \<noteq> LTPessimistic" "lock_min_commit_ts ?l \<le> commit_ts"
      using e1 that assms(6,9) by simp_all
    obtain rl e2 where e2: "run_action sr2 cm2 (\<lambda>sr. commit sr (Key_from_raw u) commit_ts) = Inr (Some rl, e2)"
      "key_state_of e2 u = after_commit (key_state_of (sr_engine sr2) u) ?l (sr_start_ts sr2) commit_ts"
      using commit_runs [OF pre(1) sr2(2) pre(2-5)] by blast
    let ?w = "commit_write ?l (commit_type ?l) (lock_ts l) commit_ts"
    have vs2: "versions e2 u = (rolled ?vs ?s True False)(commit_ts := Some ?w)" and "lock_of e2 u = None"
      using arg_cong [OF e2(2), of ks_versions] arg_cong [OF e2(2), of ks_lock] e1(3) that
      by (simp_all add: after_commit_def)
    moreover have "rolled_back ((rolled ?vs ?s True False)(commit_ts := Some ?w)) ?s"
      by (rule rolled_then_committed [OF ok assms(7,8)])
        (use assms(5,9,10) in \<open>auto simp: marked_lock_def\<close>)
    ultimately show ?thesis using e2(1) by auto
  qed
  with e1(1) show ?thesis by blast
qed

definition async_lock_25 :: lock where
  "async_lock_25 = use_async_commit [] (Lock_new LTPut [107] 25 3000 (Some [9]) 0 1 26 False)"

lemma async_lock_25: "wf_lock async_lock_25" "lock_ts async_lock_25 = 25" "lock_type async_lock_25 = LTPut"
  "lock_min_commit_ts async_lock_25 = 26" "lock_use_async_commit async_lock_25" "lock_rollback_ts async_lock_25 = []"
  by (simp_all add: async_lock_25_def use_async_commit_def Lock_new_def wf_lock_def is_short_value_def
      SHORT_VALUE_MAX_LEN_def)

theorem protected_rollback_survives_witness:
  "\<exists>e1. run_action (locked_snapshot async_lock_25 30) sample_cm (\<lambda>sr. cleanup sr (Key_from_raw [107]) 0 True) =
      Inr (None, e1) \<and>
    (\<exists>rl e2. run_action (SnapshotReader_new 25 \<lparr> snap_engine = e1, snap_txn_ext = None \<rparr> False (\<lambda>_ _. 0)) sample_cm
        (\<lambda>sr. commit sr (Key_from_raw [107]) 30) = Inr (Some rl, e2) \<and> rolled_back (versions e2 [107]) 30)"
proof -
  let ?sr = "locked_snapshot async_lock_25 30"
  have "key_ready (locked_store async_lock_25) [107] 30"
    by (simp add: key_ready_def locked_store_views async_lock_25 records_ok_sample)
  then have "\<exists>e1. run_action ?sr sample_cm (\<lambda>sr. cleanup sr (Key_from_raw [107]) 0 True) = Inr (None, e1) \<and>
    (\<forall>sr2 cm2. sr_engine sr2 = e1 \<longrightarrow> plain_reader sr2 \<longrightarrow> sr_start_ts sr2 = lock_ts async_lock_25 \<longrightarrow>
      (\<exists>rl e2. run_action sr2 cm2 (\<lambda>sr. commit sr (Key_from_raw [107]) 30) = Inr (Some rl, e2) \<and>
        lock_of e2 [107] = None \<and> rolled_back (versions e2 [107]) (sr_start_ts ?sr)))"
    by (intro protected_rollback_survives [where ow = None])
      (simp_all add: async_lock_25 locked_store_views undecided_sample versions_sample_store)
  then obtain e1 where e1: "run_action ?sr sample_cm (\<lambda>sr. cleanup sr (Key_from_raw [107]) 0 True) = Inr (None, e1)"
    "\<And>sr2 cm2. sr_engine sr2 = e1 \<Longrightarrow> plain_reader sr2 \<Longrightarrow> sr_start_ts sr2 = 25 \<Longrightarrow>
      \<exists>rl e2. run_action sr2 cm2 (\<lambda>sr. commit sr (Key_from_raw [107]) 30) = Inr (Some rl, e2) \<and>
        rolled_back (versions e2 [107]) 30"
    unfolding async_lock_25 locked_snapshot_fields by blast
  from e1(2) [of "SnapshotReader_new 25 \<lparr> snap_engine = e1, snap_txn_ext = None \<rparr> False (\<lambda>_ _. 0)" sample_cm] e1(1)
  show ?thesis by (auto simp: SnapshotReader_new_def MvccReader_new_def)
qed

section \<open>Pushing the least commit timestamp\<close>

lemma ts_next_Some:
  assumes "t \<noteq> ts_max"
  shows "ts_next t = Some (t + 1) \<and> t < t + 1"
proof -
  have "t < ts_max" using assms le_ts_max by (rule order.not_eq_order_implies_strict)
  then have "ts_next t = Some (t + 1)" by (simp add: ts_next_def)
  then show ?thesis using ts_le_iff_less_next [of t "t + 1" t] by simp
qed

definition pushed_lock :: "lock \<Rightarrow> ts \<Rightarrow> ts \<Rightarrow> lock" where
  "pushed_lock l current_ts caller_start_ts =
     (if lock_min_commit_ts l \<le> caller_start_ts
      then l\<lparr>lock_min_commit_ts := max (caller_start_ts + 1) current_ts\<rparr> else l)"

lemma pushed_lock:
  assumes "caller_start_ts \<noteq> ts_max"
  shows "caller_start_ts < lock_min_commit_ts (pushed_lock l current_ts caller_start_ts)"
    "lock_min_commit_ts l \<le> lock_min_commit_ts (pushed_lock l current_ts caller_start_ts)"
    "lock_ts (pushed_lock l current_ts caller_start_ts) = lock_ts l"
    "lock_type (pushed_lock l current_ts caller_start_ts) = lock_type l"
    "wf_lock (pushed_lock l current_ts caller_start_ts) = wf_lock l"
  using ts_next_Some [OF assms]
  by (auto simp: pushed_lock_def less_max_iff_disj le_max_iff_disj wf_lock_def not_le intro: order.trans less_imp_le)

lemma push_min_commit_ts_eq:
  assumes "lock_min_commit_ts l \<noteq> 0" "caller_start_ts \<noteq> ts_max" "wf_lock l"
  shows "\<exists>txn'. push_min_commit_ts (Key_from_raw u) l current_ts caller_start_ts txn =
      (Inr (pushed_lock l current_ts caller_start_ts), txn') \<and>
    (\<exists>ops. pushes u txn ops txn' \<and>
      (ops = [] \<and> pushed_lock l current_ts caller_start_ts = l \<or>
       ops = [PutLock (pushed_lock l current_ts caller_start_ts)]))"
proof (cases "lock_min_commit_ts l \<le> caller_start_ts")
  case True
  let ?l = "pushed_lock l current_ts caller_start_ts"
  have "pushes u txn [PutLock ?l] (push_modify (ModPut CF_LOCK (Key_from_raw u) (Lock_to_bytes ?l)) txn)"
    using pushes_modify [OF pushes_refl, of "PutLock ?l" u txn] assms(3) by (simp add: pushed_lock(5) [OF assms(2)])
  moreover have "push_min_commit_ts (Key_from_raw u) l current_ts caller_start_ts txn =
      (Inr ?l, push_modify (ModPut CF_LOCK (Key_from_raw u) (Lock_to_bytes ?l)) txn)"
    using True assms(1,2) ts_next_Some [OF assms(2)]
    by (simp add: push_min_commit_ts_def put_lock_old pushed_lock_def is_zero_def is_max_def Let_def max_def not_le
        not_less [symmetric])
  ultimately show ?thesis by blast
next
  case False
  then show ?thesis
    by (intro exI [of _ txn]) (auto simp: push_min_commit_ts_def pushed_lock_def intro: exI [of _ "[]"])
qed

lemma check_status_alive:
  assumes "wf_lock l" "lock_primary l = u" "lock_type l \<noteq> LTPessimistic"
    and "\<not> lock_use_async_commit l \<or> force_sync_commit" "\<not> ttl_expired l current_ts"
    and "lock_min_commit_ts l \<noteq> 0" "caller_start_ts \<noteq> ts_max"
  shows "\<exists>txn' ops. check_txn_status_lock_exists sr (Key_from_raw u) l current_ts caller_start_ts force_sync_commit
        resolving True rollback_if_not_exist txn =
      (Inr (Uncommitted (pushed_lock l current_ts caller_start_ts) (caller_start_ts \<noteq> 0), None), txn') \<and>
    pushes u txn ops txn' \<and>
    (ops = [] \<and> pushed_lock l current_ts caller_start_ts = l \<or>
     ops = [PutLock (pushed_lock l current_ts caller_start_ts)])"
proof -
  have "\<not> is_pessimistic_lock l" using assms(3) by (simp add: is_pessimistic_lock_def)
  moreover have "Key_is_encoded_from (Key_from_raw u) (lock_primary l)"
    by (simp add: Key_is_encoded_from_iff assms(2))
  moreover have "min_commit_ts_pushed (pushed_lock l current_ts caller_start_ts) caller_start_ts =
      (caller_start_ts \<noteq> 0)"
    using pushed_lock(1) [OF assms(7)] assms(7) by (simp add: min_commit_ts_pushed_def is_zero_def is_max_def)
  ultimately show ?thesis
    using push_min_commit_ts_eq [OF assms(6,7,1), of u current_ts txn] assms(4,5)
    by (auto simp: check_txn_status_lock_exists_def Let_def)
qed

lemma check_status_expired:
  assumes "wf_engine (sr_engine sr)" "key_ready (sr_engine sr) u (sr_start_ts sr)"
    and "lock_of (sr_engine sr) u = Some l" "lock_ts l = sr_start_ts sr"
    and "lock_primary l = u" "lock_type l \<noteq> LTPessimistic"
    and "\<not> lock_use_async_commit l \<or> force_sync_commit" "ttl_expired l current_ts"
  shows "\<exists>rl txn'. check_txn_status_lock_exists sr (Key_from_raw u) l current_ts caller_start_ts force_sync_commit
        resolving True rollback_if_not_exist txn = (Inr (TtlExpire, Some rl), txn') \<and>
    pushes u txn (rollback_lock_ops (versions (sr_engine sr) u) u (sr_start_ts sr) l True) txn'"
proof -
  have ok: "records_ok (versions (sr_engine sr) u)" "\<forall>c. \<not> committed_at (versions (sr_engine sr) u) (sr_start_ts sr) c"
    using assms(2-4) by (simp_all add: key_ready_def)
  let ?p = "\<not> is_zero (lock_for_update_ts l)"
  obtain txn' where "rollback_lock sr (Key_from_raw u) l ?p True txn =
      (Inr (Some (ReleasedLock_new (txn_start_ts txn) 0 (Key_from_raw u) ?p)), txn')"
    "pushes u txn (rollback_lock_ops (versions (sr_engine sr) u) u (sr_start_ts sr) l True) txn'"
    by (rule rollback_lock_eq [OF assms(1) ok(1) not_committed_single [OF ok(2)]])
  moreover have "\<not> is_pessimistic_lock l" using assms(6) by (simp add: is_pessimistic_lock_def)
  moreover have "Key_is_encoded_from (Key_from_raw u) (lock_primary l)"
    by (simp add: Key_is_encoded_from_iff assms(5))
  ultimately show ?thesis
    using assms(7,8) by (auto simp: check_txn_status_lock_exists_def)
qed

text \<open>C11: Checking the status of a transaction on its primary lock.  When the lock has expired the
  transaction is rolled back for good and no read changes.  When it is alive, its least commit
  timestamp is above the start of the caller afterwards, so the caller's snapshot read passes the
  lock, and every later attempt to commit at or below the caller's timestamp is refused: what the
  caller read stays true.\<close>

theorem check_txn_status_protects_reader:
  assumes "wf_engine (sr_engine sr)" "plain_reader sr" "key_ready (sr_engine sr) u (sr_start_ts sr)"
    and "lock_of (sr_engine sr) u = Some l" "lock_ts l = sr_start_ts sr"
    and "lock_primary l = u" "lock_type l \<noteq> LTPessimistic"
    and "\<not> lock_use_async_commit l \<or> force_sync_commit"
  shows "(ttl_expired l current_ts \<longrightarrow>
      (\<exists>rl e'. run_action sr cm (\<lambda>sr. check_txn_status_lock_exists sr (Key_from_raw u) l current_ts caller_start_ts
          force_sync_commit resolving True rollback_if_not_exist) = Inr ((TtlExpire, Some rl), e') \<and>
        (\<forall>l'. lock_of e' u = Some l' \<longrightarrow> lock_ts l' \<noteq> sr_start_ts sr) \<and>
        rolled_back (versions e' u) (sr_start_ts sr) \<and>
        (\<forall>t. read_value e' u (Some t) t = read_value (sr_engine sr) u (Some t) t))) \<and>
    (\<not> ttl_expired l current_ts \<longrightarrow> lock_min_commit_ts l \<noteq> 0 \<longrightarrow> caller_start_ts \<noteq> ts_max \<longrightarrow>
      (\<exists>l' e'. run_action sr cm (\<lambda>sr. check_txn_status_lock_exists sr (Key_from_raw u) l current_ts caller_start_ts
          force_sync_commit resolving True rollback_if_not_exist) =
          Inr ((Uncommitted l' (caller_start_ts \<noteq> 0), None), e') \<and>
        lock_of e' u = Some l' \<and> versions e' u = versions (sr_engine sr) u \<and>
        lock_min_commit_ts l \<le> lock_min_commit_ts l' \<and>
        (\<forall>bypass replica. check_ts_conflict_si l' (Key_from_raw u) caller_start_ts bypass replica = Inr ()) \<and>
        (\<forall>sr2 cm2 commit_ts. sr_engine sr2 = e' \<longrightarrow> plain_reader sr2 \<longrightarrow> sr_start_ts sr2 = sr_start_ts sr \<longrightarrow>
          commit_ts \<le> caller_start_ts \<longrightarrow>
          run_action sr2 cm2 (\<lambda>sr. commit sr (Key_from_raw u) commit_ts) =
            Inl (CommitTsExpired (sr_start_ts sr) commit_ts u (lock_min_commit_ts l')))))"
  (is "(_ \<longrightarrow> (\<exists>rl e'. run_action sr cm ?act = _ \<and> _)) \<and> _")
proof (intro conjI impI)
  let ?e = "sr_engine sr" and ?s = "sr_start_ts sr" and ?txn = "MvccTxn_new (sr_start_ts sr) cm"
  note run = run_action_ops [where act = ?act, OF assms(1)]
  assume "ttl_expired l current_ts"
  from check_status_expired [OF assms(1,3-8) this] obtain rl txn' where
    "?act sr ?txn = (Inr (TtlExpire, Some rl), txn')"
    "pushes u ?txn (rollback_lock_ops (versions ?e u) u ?s l True) txn'" by blast
  from run [OF this] obtain e' where e': "run_action sr cm ?act = Inr ((TtlExpire, Some rl), e')"
    "key_state_of e' u = foldl apply_op (key_state_of ?e u) (rollback_lock_ops (versions ?e u) u ?s l True)" by blast
  have ready: "records_ok (ks_versions (key_state_of ?e u))" "\<forall>c. \<not> committed_at (ks_versions (key_state_of ?e u)) ?s c"
    using assms(3-5) by (simp_all add: key_ready_def)
  have rb: "rolls_back (key_state_of ?e u) ?s (rollback_protected u l) (key_state_of e' u)"
    using rolls_back_lock [OF ready assms(5), of u True] e'(2) by simp
  have 1: "\<forall>l'. lock_of e' u = Some l' \<longrightarrow> lock_ts l' \<noteq> ?s"
    using rb by (simp add: rolls_back_def)
  have 2: "rolled_back (versions e' u) ?s"
    using rolls_backD(3) [OF ready(1) rb] assms(6) by (simp add: rollback_protected_def)
  have 3: "\<forall>t. read_value e' u (Some t) t = read_value ?e u (Some t) t"
    using rolls_backD(4) [OF ready(1) rb] by (simp add: read_value_ks)
  show "\<exists>rl e'. run_action sr cm ?act = Inr ((TtlExpire, Some rl), e') \<and>
      (\<forall>l'. lock_of e' u = Some l' \<longrightarrow> lock_ts l' \<noteq> ?s) \<and> rolled_back (versions e' u) ?s \<and>
      (\<forall>t. read_value e' u (Some t) t = read_value ?e u (Some t) t)"
    by (intro exI [of _ rl] exI [of _ e'] conjI e'(1) 1 2 3)
next
  let ?e = "sr_engine sr" and ?s = "sr_start_ts sr" and ?txn = "MvccTxn_new (sr_start_ts sr) cm"
  let ?l = "pushed_lock l current_ts caller_start_ts"
  assume alive: "\<not> ttl_expired l current_ts" "lock_min_commit_ts l \<noteq> 0" and caller: "caller_start_ts \<noteq> ts_max"
  note wf = wf_lock_of [OF assms(1,4)]
  obtain txn' ops where act: "?act sr ?txn = (Inr (Uncommitted ?l (caller_start_ts \<noteq> 0), None), txn')"
    "pushes u ?txn ops txn'" "ops = [] \<and> ?l = l \<or> ops = [PutLock ?l]"
    using check_status_alive [OF wf assms(6-8) alive caller, of sr resolving rollback_if_not_exist ?txn] by blast
  from run_action_ops [where act = ?act, OF assms(1) act(1,2)] obtain e' where
    e': "run_action sr cm ?act = Inr ((Uncommitted ?l (caller_start_ts \<noteq> 0), None), e')" "wf_engine e'"
    "key_state_of e' u = foldl apply_op (key_state_of ?e u) ops" by blast
  have 1: "lock_of e' u = Some ?l" "versions e' u = versions ?e u"
    using arg_cong [OF e'(3), of ks_lock] arg_cong [OF e'(3), of ks_versions] act(3) assms(4) by auto
  note l = pushed_lock [OF caller, of l current_ts]
  have 2: "\<forall>bypass replica. check_ts_conflict_si ?l (Key_from_raw u) caller_start_ts bypass replica = Inr ()"
    using l(1) by (simp add: check_ts_conflict_si_def)
  have 3: "\<forall>sr2 cm2 commit_ts. sr_engine sr2 = e' \<longrightarrow> plain_reader sr2 \<longrightarrow> sr_start_ts sr2 = ?s \<longrightarrow>
      commit_ts \<le> caller_start_ts \<longrightarrow>
      run_action sr2 cm2 (\<lambda>sr. commit sr (Key_from_raw u) commit_ts) =
        Inl (CommitTsExpired ?s commit_ts u (lock_min_commit_ts ?l))"
  proof (intro allI impI)
    fix sr2 cm2 commit_ts
    assume sr2: "sr_engine sr2 = e'" "plain_reader sr2" "sr_start_ts sr2 = ?s" "commit_ts \<le> caller_start_ts"
    have "wf_engine (sr_engine sr2)" "lock_of (sr_engine sr2) u = Some ?l" "lock_ts ?l = sr_start_ts sr2"
      "commit_ts < lock_min_commit_ts ?l"
      using sr2 e'(2) 1 l(1,3) assms(5) by (simp_all add: le_less_trans)
    from commit_own(1) [OF this(1) sr2(2) this(2-4)] sr2(3)
    show "run_action sr2 cm2 (\<lambda>sr. commit sr (Key_from_raw u) commit_ts) =
        Inl (CommitTsExpired ?s commit_ts u (lock_min_commit_ts ?l))" by (intro run_action_error) simp
  qed
  show "\<exists>l' e'. run_action sr cm ?act = Inr ((Uncommitted l' (caller_start_ts \<noteq> 0), None), e') \<and>
      lock_of e' u = Some l' \<and> versions e' u = versions ?e u \<and> lock_min_commit_ts l \<le> lock_min_commit_ts l' \<and>
      (\<forall>bypass replica. check_ts_conflict_si l' (Key_from_raw u) caller_start_ts bypass replica = Inr ()) \<and>
      (\<forall>sr2 cm2 commit_ts. sr_engine sr2 = e' \<longrightarrow> plain_reader sr2 \<longrightarrow> sr_start_ts sr2 = ?s \<longrightarrow>
        commit_ts \<le> caller_start_ts \<longrightarrow>
        run_action sr2 cm2 (\<lambda>sr. commit sr (Key_from_raw u) commit_ts) =
          Inl (CommitTsExpired ?s commit_ts u (lock_min_commit_ts l')))"
    by (intro exI [of _ ?l] exI [of _ e'] conjI e'(1) 1 l(2) 2 3)
qed

definition large_lock_25 :: lock where
  "large_lock_25 = put_lock_25\<lparr>lock_min_commit_ts := 26\<rparr>"

lemma large_lock_25: "wf_lock large_lock_25" "lock_ts large_lock_25 = 25" "lock_type large_lock_25 = LTPut"
  "lock_min_commit_ts large_lock_25 = 26" "lock_primary large_lock_25 = [107]" "\<not> lock_use_async_commit large_lock_25"
  "lock_ttl large_lock_25 = 3000"
  by (simp_all add: large_lock_25_def put_lock_25_def Lock_new_def wf_lock_def is_short_value_def
      SHORT_VALUE_MAX_LEN_def)

theorem check_txn_status_protects_reader_witness:
  "\<exists>l' e'. run_action (locked_snapshot large_lock_25 25) sample_cm
      (\<lambda>sr. check_txn_status_lock_exists sr (Key_from_raw [107]) large_lock_25 30 40 False False True True) =
      Inr ((Uncommitted l' True, None), e') \<and>
    check_ts_conflict_si l' (Key_from_raw [107]) 40 TsEmpty False = Inr ()"
proof -
  let ?sr = "locked_snapshot large_lock_25 25"
  have pre: "wf_engine (sr_engine ?sr)" "plain_reader ?sr" "key_ready (sr_engine ?sr) [107] (sr_start_ts ?sr)"
    "lock_of (sr_engine ?sr) [107] = Some large_lock_25" "lock_ts large_lock_25 = sr_start_ts ?sr"
    "lock_primary large_lock_25 = [107]" "lock_type large_lock_25 \<noteq> LTPessimistic"
    "\<not> lock_use_async_commit large_lock_25 \<or> False"
    by (simp_all add: large_lock_25 locked_store_views key_ready_locked)
  have "\<not> ttl_expired large_lock_25 30"
    by (simp add: ttl_expired_def large_lock_25 physical_def TSO_PHYSICAL_SHIFT_BITS_def)
  then show ?thesis
    using check_txn_status_protects_reader [OF pre, THEN conjunct2, of 30 40 sample_cm False True]
    by (auto simp: large_lock_25 ts_max_def)
qed

end
