(* ===== verification/Prewrite_Action.thy ===== *)
theory Prewrite_Action
  imports Commit_Action
begin

text \<open>
  Prewriting a mutation, \<^verbatim>\<open>src/storage/txn/actions/prewrite.rs\<close> with
  \<^verbatim>\<open>src/storage/txn/actions/check_data_constraint.rs\<close> and
  \<^verbatim>\<open>src/storage/txn/actions/common.rs\<close>: the checks of locks, newer versions, existence and
  assertions, the lock that is written and the timestamps of async commit.  A value \<open>env\<close> holds what
  the action takes from its surroundings: the clock, the answer of the timestamp oracle and the
  feature gate of the pointers to the last change.
\<close>

section \<open>Properties of the transaction\<close>

datatype commit_kind = TwoPc | OnePc ts | Async ts
datatype transaction_kind = OptimisticTxn bool | PessimisticTxn ts
datatype assertion_level = AssertionOff | AssertionFast | AssertionStrict
datatype pessimistic_action = SkipPessimisticCheck | DoPessimisticCheck | DoConstraintCheck

record txn_props =
  tp_start_ts :: ts
  tp_kind :: transaction_kind
  tp_commit_kind :: commit_kind
  tp_primary :: bytes
  tp_txn_size :: u64
  tp_lock_ttl :: u64
  tp_min_commit_ts :: ts
  tp_need_old_value :: bool
  tp_is_retry_request :: bool
  tp_assertion_level :: assertion_level
  tp_txn_source :: u64

definition max_commit_ts :: "txn_props \<Rightarrow> mvcc_error + ts" where
  "max_commit_ts p = (case tp_commit_kind p of TwoPc \<Rightarrow> Inl MPanic | OnePc t \<Rightarrow> Inr t | Async t \<Rightarrow> Inr t)"

definition tp_is_pessimistic :: "txn_props \<Rightarrow> bool" where
  "tp_is_pessimistic p = (case tp_kind p of OptimisticTxn _ \<Rightarrow> False | PessimisticTxn _ \<Rightarrow> True)"

definition tp_for_update_ts :: "txn_props \<Rightarrow> ts" where
  "tp_for_update_ts p = (case tp_kind p of OptimisticTxn _ \<Rightarrow> 0 | PessimisticTxn t \<Rightarrow> t)"

datatype lock_status = Locked ts | Pessimistic ts | LockStatusNone

fun has_pessimistic_lock :: "lock_status \<Rightarrow> bool" where
  "has_pessimistic_lock (Pessimistic _) \<longleftrightarrow> True"
| "has_pessimistic_lock _ \<longleftrightarrow> False"

record txn_env =
  env_now :: u64
  env_tso :: "ts option"
  env_last_change :: bool

section \<open>The mutation\<close>

record prewrite_mutation =
  pm_key :: key
  pm_value :: "value_bytes option"
  pm_mutation_type :: mutation_type
  pm_secondary_keys :: "bytes list option"
  pm_min_commit_ts :: ts
  pm_pessimistic_action :: pessimistic_action
  pm_lock_type :: "lock_type option"
  pm_lock_ttl :: u64
  pm_last_change :: last_change
  pm_should_not_exist :: bool
  pm_should_not_write :: bool
  pm_assertion :: assertion
  pm_props :: txn_props

definition from_mutation ::
    "mutation \<Rightarrow> bytes list option \<Rightarrow> pessimistic_action \<Rightarrow> txn_props \<Rightarrow> mvcc_error + prewrite_mutation" where
  "from_mutation mu secondary_keys action p =
     (if tp_is_pessimistic p \<and> should_not_write mu then Inl MOther
      else
        Inr \<lparr> pm_key = fst (into_key_value mu), pm_value = snd (into_key_value mu),
              pm_mutation_type = mutation_type_of mu, pm_secondary_keys = secondary_keys,
              pm_min_commit_ts = tp_min_commit_ts p, pm_pessimistic_action = action,
              pm_lock_type = LockType_from_mutation mu, pm_lock_ttl = tp_lock_ttl p,
              pm_last_change = LCUnknown, pm_should_not_exist = should_not_exists mu,
              pm_should_not_write = should_not_write mu, pm_assertion = get_assertion mu,
              pm_props = p \<rparr>)"

definition pm_lock_info :: "prewrite_mutation \<Rightarrow> lock \<Rightarrow> mvcc_error + lock_info" where
  "pm_lock_info m l =
     try_codec (Key_to_raw (pm_key m)) (\<lambda>raw.
       let info = into_lock_info l raw in
       Inr (if tp_is_pessimistic (pm_props m) then info\<lparr>info_lock_ttl := 0\<rparr> else info))"

definition pessimistic_lock_not_found ::
    "prewrite_mutation \<Rightarrow> pessimistic_lock_not_found_reason \<Rightarrow> mvcc_error + 'a" where
  "pessimistic_lock_not_found m reason =
     try_codec (Key_to_raw (pm_key m)) (\<lambda>raw.
       Inl (PessimisticLockNotFound (tp_start_ts (pm_props m)) raw reason))"

definition check_lock ::
    "prewrite_mutation \<Rightarrow> lock \<Rightarrow> pessimistic_action \<Rightarrow> ts option \<Rightarrow> u64 \<Rightarrow> mvcc_error + lock_status \<times> prewrite_mutation" where
  "check_lock m l action expected_for_update_ts generation_to_write =
     (if lock_ts l \<noteq> tp_start_ts (pm_props m) then
        (if action = DoPessimisticCheck then pessimistic_lock_not_found m LockTsMismatch
         else res_bind (pm_lock_info m l) (\<lambda>info. Inl (KeyIsLocked info)))
      else
        (let m = m\<lparr>pm_last_change := lock_last_change l\<rparr> in
         if is_pessimistic_lock l then
           (if \<not> tp_is_pessimistic (pm_props m) then
              try_codec (Key_to_raw (pm_key m)) (\<lambda>raw.
                Inl (LockTypeNotMatch (tp_start_ts (pm_props m)) raw True))
            else if (case expected_for_update_ts of Some t \<Rightarrow> lock_for_update_ts l \<noteq> t | None \<Rightarrow> False) then
              pessimistic_lock_not_found m LockForUpdateTsMismatch
            else
              Inr (Pessimistic (lock_for_update_ts l),
                   m\<lparr>pm_lock_ttl := max (pm_lock_ttl m) (lock_ttl l),
                     pm_min_commit_ts := max (pm_min_commit_ts m) (lock_min_commit_ts l)\<rparr>))
         else if 0 < generation_to_write \<and> generation_to_write \<le> lock_generation l then
           Inl (GenerationOutOfOrder generation_to_write (pm_key m) l)
         else if 0 < lock_generation l \<and> pm_should_not_exist m \<and> lock_type l = LTPut then
           try_codec (Key_to_raw (pm_key m)) (\<lambda>raw. Inl (AlreadyExist raw (lock_ts l)))
         else Inr (Locked (if lock_use_async_commit l then lock_min_commit_ts l else 0), m)))"

section \<open>Constraints\<close>

definition fence_set :: "write_record \<Rightarrow> bool" where
  "fence_set w \<longleftrightarrow> (case gc_fence w of Some f \<Rightarrow> \<not> is_zero f | None \<Rightarrow> False)"

definition check_data_constraint :: "snapshot_reader \<Rightarrow> bool \<Rightarrow> write_record \<Rightarrow> ts \<Rightarrow> key \<Rightarrow> mvcc_error + unit" where
  "check_data_constraint sr should_not_exist w write_commit_ts k =
     (if \<not> should_not_exist \<or> write_type w = WTDelete \<or> fence_set w then Inr ()
      else
        res_bind
          (if write_type w = WTPut then Inr (Some (write_start_ts w))
           else
             res_bind (unwrap (ts_prev write_commit_ts)) (\<lambda>t.
             res_bind (sr_get_write sr k t) (\<lambda>prev. Inr (map_option write_start_ts prev)))) (\<lambda>existing.
          case existing of
            Some existing_start_ts \<Rightarrow> try_codec (Key_to_raw k) (\<lambda>raw. Inl (AlreadyExist raw existing_start_ts))
          | None \<Rightarrow> Inr ()))"

definition next_last_change_info ::
    "key \<Rightarrow> write_record \<Rightarrow> ts \<Rightarrow> snapshot_reader \<Rightarrow> ts \<Rightarrow> mvcc_error + last_change" where
  "next_last_change_info k w start_ts sr commit_ts =
     (if write_type w = WTPut \<or> write_type w = WTDelete then
        res_map_err from_codec_error (make_exist commit_ts 1)
      else
        (case write_last_change w of
           LCExist t n \<Rightarrow> res_map_err from_codec_error (make_exist t (n + 1))
         | LCNotExist \<Rightarrow> Inr LCNotExist
         | LCUnknown \<Rightarrow>
             (let r = sr_reader sr;
                  reader = SnapshotReader_new start_ts (rd_snapshot r) (rd_panic_when_unexpected r) (rd_next_count r) in
              res_bind (sr_get_write_with_commit_ts reader k commit_ts) (\<lambda>res.
                case res of
                  None \<Rightarrow> Inr LCNotExist
                | Some (w', t) \<Rightarrow>
                    if write_type w' \<noteq> WTPut then Inl MPanic
                    else res_map_err from_codec_error (make_exist t (rd_next_count r k commit_ts + 1))))))"

definition write_conflict_error ::
    "prewrite_mutation \<Rightarrow> write_record \<Rightarrow> ts \<Rightarrow> write_conflict_reason \<Rightarrow> mvcc_error + 'a" where
  "write_conflict_error m w commit_ts reason =
     try_codec (Key_to_raw (pm_key m)) (\<lambda>raw.
       Inl (WriteConflict (tp_start_ts (pm_props m)) (write_start_ts w) commit_ts raw (tp_primary (pm_props m)) reason))"

definition check_kind ::
    "prewrite_mutation \<Rightarrow> write_record \<Rightarrow> ts \<Rightarrow> mvcc_error + bool" where
  \<comment> \<open>the match on the kind of the transaction; \<open>True\<close> means to go on with the next version\<close>
  "check_kind m w commit_ts =
     (case tp_kind (pm_props m) of
        OptimisticTxn _ \<Rightarrow>
          if tp_start_ts (pm_props m) < commit_ts then write_conflict_error m w commit_ts Optimistic else Inr False
      | PessimisticTxn for_update_ts \<Rightarrow>
          if pm_pessimistic_action m = DoConstraintCheck \<and> tp_start_ts (pm_props m) < commit_ts then
            write_conflict_error m w commit_ts LazyUniquenessCheck
          else if for_update_ts < commit_ts then
            (if write_type w = WTRollback then Inr True else pessimistic_lock_not_found m NonLockKeyConflict)
          else Inr False)"

function newer_version_loop ::
    "snapshot_reader \<Rightarrow> ts \<Rightarrow> prewrite_mutation \<Rightarrow> mvcc_error + (write_record \<times> ts) option \<times> prewrite_mutation" where
  "newer_version_loop sr seek_ts m =
     (case sr_seek_write sr (pm_key m) seek_ts of
        Inl e \<Rightarrow> Inl e
      | Inr None \<Rightarrow> Inr (None, if seek_ts = ts_max then m\<lparr>pm_last_change := LCNotExist\<rparr> else m)
      | Inr (Some (commit_ts, w)) \<Rightarrow>
          if commit_ts = tp_start_ts (pm_props m) \<and> (write_type w = WTRollback \<or> has_overlapped_rollback w) then
            write_conflict_error m w commit_ts SelfRolledBack
          else
            (case (if seek_ts = ts_max then
                     res_bind (next_last_change_info (pm_key m) w (sr_start_ts sr) sr commit_ts) (\<lambda>lc.
                       Inr (m\<lparr>pm_last_change := lc\<rparr>))
                   else Inr m) of
               Inl e \<Rightarrow> Inl e
             | Inr m' \<Rightarrow>
                 (case check_kind m' w commit_ts of
                    Inl e \<Rightarrow> Inl e
                  | Inr True \<Rightarrow>
                      (case ts_prev commit_ts of
                         None \<Rightarrow> Inl MPanic
                       | Some t \<Rightarrow> newer_version_loop sr t m')
                  | Inr False \<Rightarrow>
                      res_bind (check_data_constraint sr (pm_should_not_exist m') w commit_ts (pm_key m')) (\<lambda>_.
                        Inr (Some (w, commit_ts), m')))))"
  by pat_completeness auto
termination
  by (relation "measure (\<lambda>(sr, t, m). unat t)") (auto simp: sr_seek_write_def dest!: seek_write_le intro: ts_prev_less)

declare newer_version_loop.simps [simp del]

definition check_for_newer_version ::
    "snapshot_reader \<Rightarrow> prewrite_mutation \<Rightarrow> mvcc_error + (write_record \<times> ts) option \<times> prewrite_mutation" where
  "check_for_newer_version sr m = newer_version_loop sr ts_max m"

definition skip_constraint_check :: "prewrite_mutation \<Rightarrow> bool" where
  "skip_constraint_check m =
     (case tp_kind (pm_props m) of
        OptimisticTxn s \<Rightarrow> s
      | PessimisticTxn _ \<Rightarrow>
          (case pm_pessimistic_action m of
             DoPessimisticCheck \<Rightarrow> True
           | SkipPessimisticCheck \<Rightarrow> \<not> tp_is_retry_request (pm_props m)
           | DoConstraintCheck \<Rightarrow> False))"

definition need_min_commit_ts :: "prewrite_mutation \<Rightarrow> bool" where
  "need_min_commit_ts m = (case tp_commit_kind (pm_props m) of TwoPc \<Rightarrow> False | _ \<Rightarrow> True)"

definition try_one_pc :: "prewrite_mutation \<Rightarrow> bool" where
  "try_one_pc m = (case tp_commit_kind (pm_props m) of OnePc _ \<Rightarrow> True | _ \<Rightarrow> False)"

definition assertion_failed_error :: "prewrite_mutation \<Rightarrow> ts \<Rightarrow> ts \<Rightarrow> mvcc_error + unit" where
  "assertion_failed_error m existing_start_ts existing_commit_ts =
     try_codec (Key_to_raw (pm_key m)) (\<lambda>raw.
       Inl (AssertionFailed (tp_start_ts (pm_props m)) raw (pm_assertion m) existing_start_ts existing_commit_ts))"

definition assertion_result :: "prewrite_mutation \<Rightarrow> (write_record \<times> ts) option \<Rightarrow> mvcc_error + unit" where
  "assertion_result m wr =
     (case (pm_assertion m, wr) of
        (AssertionExist, None) \<Rightarrow> assertion_failed_error m 0 0
      | (AssertionExist, Some (w, commit_ts)) \<Rightarrow>
          if write_type w = WTDelete then assertion_failed_error m (write_start_ts w) commit_ts else Inr ()
      | (AssertionNotExist, Some (w, commit_ts)) \<Rightarrow>
          if write_type w = WTPut then assertion_failed_error m (write_start_ts w) commit_ts else Inr ()
      | _ \<Rightarrow> Inr ())"

definition check_assertion ::
    "snapshot_reader \<Rightarrow> prewrite_mutation \<Rightarrow> (write_record \<times> ts) option \<Rightarrow> bool \<Rightarrow> mvcc_error + (write_record \<times> ts) option \<times> bool" where
  "check_assertion sr m wr0 write_loaded =
     (if pm_assertion m = AssertionNone \<or> tp_assertion_level (pm_props m) = AssertionOff then Inr (None, False)
      else if tp_assertion_level (pm_props m) \<noteq> AssertionStrict \<and> \<not> write_loaded then Inr (None, False)
      else
        (let wr = (if write_loaded \<and> (case wr0 of Some (w, _) \<Rightarrow> fence_set w | None \<Rightarrow> False) then None else wr0);
             need_reload = (\<not> write_loaded \<or>
               (case wr of Some (w, _) \<Rightarrow> write_type w \<noteq> WTPut \<and> write_type w \<noteq> WTDelete | None \<Rightarrow> False)) in
         res_bind
           (if need_reload then
              res_bind (sr_get_write_with_commit_ts sr (pm_key m) (case wr of Some (_, t) \<Rightarrow> t | None \<Rightarrow> ts_max)) (\<lambda>rw.
                Inr (rw, rw, True))
            else Inr (wr, None, False)) (\<lambda>(wr, reloaded_write, reloaded).
           case assertion_result m wr of
             Inr _ \<Rightarrow> Inr (reloaded_write, reloaded)
           | Inl e \<Rightarrow>
               if skip_constraint_check m then res_bind (check_for_newer_version sr m) (\<lambda>_. Inl e) else Inl e)))"

definition amend_pessimistic_lock :: "snapshot_reader \<Rightarrow> prewrite_mutation \<Rightarrow> mvcc_error + prewrite_mutation" where
  "amend_pessimistic_lock sr m =
     res_bind (sr_seek_write sr (pm_key m) ts_max) (\<lambda>wr.
     res_bind
       (case wr of
          Some (commit_ts, w) \<Rightarrow>
            if sr_start_ts sr \<le> commit_ts then
              try_codec (Key_into_raw (pm_key m)) (\<lambda>raw.
                Inl (PessimisticLockNotFound (sr_start_ts sr) raw LockMissingAmendFail))
            else next_last_change_info (pm_key m) w (sr_start_ts sr) sr commit_ts
        | None \<Rightarrow> Inr LCNotExist) (\<lambda>lc.
     let m = m\<lparr>pm_last_change := lc\<rparr> in
     res_bind (check_assertion sr m (map_option prod.swap wr) True) (\<lambda>_. Inr m)))"

section \<open>Writing the lock\<close>

definition on_cm ::
    "(concurrency_manager \<Rightarrow> (mvcc_error + 'a) \<times> concurrency_manager) \<Rightarrow> 'a action" where
  "on_cm f txn = (case f (txn_cm txn) of (r, cm) \<Rightarrow> (r, txn\<lparr>txn_cm := cm\<rparr>))"

text \<open>The guard is dropped when the timestamp is too large and kept with the buffer otherwise.\<close>

definition async_commit_timestamps ::
    "key \<Rightarrow> lock \<Rightarrow> ts \<Rightarrow> ts \<Rightarrow> ts \<Rightarrow> (ts \<times> lock) action" where
  "async_commit_timestamps k l start_ts for_update_ts mct txn =
     (let cm = lock_key k (txn_cm txn) in
      case ts_next (max (max (cm_max_ts cm) start_ts) for_update_ts) of
        None \<Rightarrow> (Inl MPanic, txn)
      | Some t \<Rightarrow>
          (let min_commit_ts = max (lock_min_commit_ts l) t in
           if \<not> is_zero mct \<and> mct < min_commit_ts then
             (Inl (CommitTsTooLarge start_ts min_commit_ts mct), txn\<lparr>txn_cm := drop_guard k cm\<rparr>)
           else
             (let l = l\<lparr>lock_min_commit_ts := min_commit_ts\<rparr> in
              (Inr (min_commit_ts, l),
               txn\<lparr>txn_cm := guard_set_lock k l cm, txn_guards := txn_guards txn @ [k]\<rparr>))))"

definition new_lock :: "txn_env \<Rightarrow> prewrite_mutation \<Rightarrow> lock_type \<Rightarrow> lock_status \<Rightarrow> u64 \<Rightarrow> lock" where
  "new_lock env m lt status generation =
     (let p = pm_props m;
          for_update_ts = (case status of
              Pessimistic t \<Rightarrow> max (tp_for_update_ts p) t | _ \<Rightarrow> tp_for_update_ts p);
          l = (Lock_new lt (tp_primary p) (tp_start_ts p) (pm_lock_ttl m) None for_update_ts (tp_txn_size p)
                 (pm_min_commit_ts m) False)
              \<lparr>lock_txn_source := tp_txn_source p, lock_generation := generation\<rparr> in
      if env_last_change env \<and> lt = LTLock then l\<lparr>lock_last_change := pm_last_change m\<rparr> else l)"

definition put_lock_value :: "prewrite_mutation \<Rightarrow> lock \<Rightarrow> mvcc_txn \<Rightarrow> lock \<times> mvcc_txn" where
  "put_lock_value m l txn =
     (case pm_value m of
        Some v \<Rightarrow>
          if is_short_value v then (l\<lparr>lock_short_value := Some v\<rparr>, txn)
          else (l, put_value (pm_key m) (tp_start_ts (pm_props m)) v txn)
      | None \<Rightarrow> (l, txn))"

definition mark_commit_kind :: "prewrite_mutation \<Rightarrow> lock \<Rightarrow> lock" where
  "mark_commit_kind m l =
     (case pm_secondary_keys m of
        Some ks \<Rightarrow> l\<lparr>lock_use_async_commit := True, lock_secondaries := ks\<rparr>
      | None \<Rightarrow> if try_one_pc m then l\<lparr>lock_use_one_pc := True\<rparr> else l)"

definition write_lock ::
    "txn_env \<Rightarrow> prewrite_mutation \<Rightarrow> lock_status \<Rightarrow> bool \<Rightarrow> u64 \<Rightarrow> ts action" where
  "write_lock env m status is_new_lock generation txn =
     st_bind (unwrap (pm_lock_type m), txn) (\<lambda>lt txn.
     case put_lock_value m (new_lock env m lt status generation) txn of (l0, txn) \<Rightarrow>
     let l = mark_commit_kind m l0 in
     if lock_use_async_commit l \<or> try_one_pc m then
       st_bind (max_commit_ts (pm_props m), txn) (\<lambda>mct txn.
       case async_commit_timestamps (pm_key m) l (tp_start_ts (pm_props m)) (tp_for_update_ts (pm_props m)) mct txn of
         (Inl (CommitTsTooLarge a b c), txn) \<Rightarrow>
           (let l = l\<lparr>lock_use_one_pc := False, lock_use_async_commit := False, lock_secondaries := []\<rparr> in
            st_bind (put_lock (pm_key m) l is_new_lock txn) (\<lambda>_ txn. (Inl (CommitTsTooLarge a b c), txn)))
       | (Inl e, txn) \<Rightarrow> (Inl e, txn)
       | (Inr (t, l), txn) \<Rightarrow>
           if try_one_pc m then (Inr t, put_locks_for_1pc (pm_key m) l (has_pessimistic_lock status) txn)
           else st_bind (put_lock (pm_key m) l is_new_lock txn) (\<lambda>_ txn. (Inr t, txn)))
     else st_bind (put_lock (pm_key m) l is_new_lock txn) (\<lambda>_ txn. (Inr 0, txn)))"

section \<open>The action\<close>

definition prewrite_lock_status ::
    "snapshot_reader \<Rightarrow> prewrite_mutation \<Rightarrow> pessimistic_action \<Rightarrow> ts option \<Rightarrow> u64 \<Rightarrow>
     mvcc_error + lock_status \<times> bool \<times> prewrite_mutation" where
  \<comment> \<open>the status of the lock, whether it was amended, and the mutation\<close>
  "prewrite_lock_status sr m action expected_for_update_ts generation =
     res_bind (sr_load_lock sr (pm_key m)) (\<lambda>lk.
       case lk of
         Some l \<Rightarrow>
           res_bind (check_lock m l action expected_for_update_ts generation) (\<lambda>(status, m). Inr (status, False, m))
       | None \<Rightarrow>
           if action = DoPessimisticCheck then
             (if generation \<noteq> 0 then Inl MPanic
              else res_bind (amend_pessimistic_lock sr m) (\<lambda>m. Inr (LockStatusNone, True, m)))
           else Inr (LockStatusNone, False, m))"

definition prewrite_old_value ::
    "snapshot_reader \<Rightarrow> prewrite_mutation \<Rightarrow> bool \<Rightarrow> write_record option \<Rightarrow> mvcc_error + old_value" where
  "prewrite_old_value sr m prev_write_loaded prev_write =
     (if tp_need_old_value (pm_props m) \<and> pm_mutation_type m \<in> {MTPut, MTDelete, MTInsert} then
        (if pm_mutation_type m = MTInsert then Inr OldValueNone
         else if skip_constraint_check m then
           Inr (if tp_is_pessimistic (pm_props m) then OldValueUnspecified else OldValueNone)
         else
           sr_get_old_value sr (pm_key m)
             (case tp_kind (pm_props m) of OptimisticTxn _ \<Rightarrow> tp_start_ts (pm_props m) | PessimisticTxn t \<Rightarrow> t)
             prev_write_loaded prev_write)
      else Inr OldValueUnspecified)"

definition prewrite_with_generation ::
    "txn_env \<Rightarrow> snapshot_reader \<Rightarrow> txn_props \<Rightarrow> mutation \<Rightarrow> bytes list option \<Rightarrow> pessimistic_action \<Rightarrow>
     ts option \<Rightarrow> u64 \<Rightarrow> (ts \<times> old_value) action" where
  "prewrite_with_generation env sr p mu secondary_keys action expected_for_update_ts generation txn =
     st_bind (from_mutation mu secondary_keys action p, txn) (\<lambda>m txn.
     st_bind
       (if pm_should_not_exist m then on_cm (update_max_ts (env_now env) (env_tso env) (tp_start_ts p)) txn
        else (Inr (), txn)) (\<lambda>_ txn.
     st_bind (prewrite_lock_status sr m action expected_for_update_ts generation, txn)
       (\<lambda>(status, lock_amended, m) txn.
     if generation = 0 \<and> (\<exists>t. status = Locked t) then
       (Inr (case status of Locked t \<Rightarrow> t | _ \<Rightarrow> 0, OldValueUnspecified), txn)
     else
       st_bind
         (if \<not> skip_constraint_check m then
            res_bind (check_for_newer_version sr m) (\<lambda>(pw, m). Inr (pw, True, m))
          else Inr (None, False, m), txn) (\<lambda>(prev_write, prev_write_loaded, m) txn.
       st_bind
         (if \<not> lock_amended \<and> \<not> (0 < generation \<and> (\<exists>t. status = Locked t)) then
            res_bind (check_assertion sr m prev_write prev_write_loaded) (\<lambda>(rw, reloaded).
              Inr (if reloaded then (rw, True) else (prev_write, prev_write_loaded)))
          else Inr (prev_write, prev_write_loaded), txn) (\<lambda>(prev_write, prev_write_loaded) txn.
       if pm_should_not_write m then
         st_bind (on_cm (update_max_ts (env_now env) (env_tso env) (tp_start_ts p)) txn) (\<lambda>_ txn.
           if need_min_commit_ts m then
             st_bind (unwrap (ts_next (tp_start_ts p)), txn) (\<lambda>t txn.
               (Inr (max (tp_min_commit_ts p) t, OldValueUnspecified), txn))
           else (Inr (0, OldValueUnspecified), txn))
       else
         st_bind (prewrite_old_value sr m prev_write_loaded (map_option fst prev_write), txn) (\<lambda>old_value txn.
         st_bind (write_lock env m status (action \<noteq> DoPessimisticCheck \<or> lock_amended) generation txn) (\<lambda>t txn.
           (Inr (t, old_value), txn))))))))"

definition prewrite ::
    "txn_env \<Rightarrow> snapshot_reader \<Rightarrow> txn_props \<Rightarrow> mutation \<Rightarrow> bytes list option \<Rightarrow> pessimistic_action \<Rightarrow>
     ts option \<Rightarrow> (ts \<times> old_value) action" where
  "prewrite env sr p mu secondary_keys action expected_for_update_ts =
     prewrite_with_generation env sr p mu secondary_keys action expected_for_update_ts 0"

text \<open>
  A failed prewrite of a transaction that turns out to be committed is a success, with no errors of
  keys and the commit timestamp; the buffer is cleared then.
\<close>

definition check_committed_record_on_err ::
    "mvcc_error + ts \<times> old_value \<Rightarrow> snapshot_reader \<Rightarrow> key \<Rightarrow> ((mvcc_error + unit) list \<times> ts) action" where
  "check_committed_record_on_err prewrite_result sr k txn =
     st_bind (sr_get_txn_commit_record sr k, txn) (\<lambda>rec txn.
       let fail = (case prewrite_result of Inl e \<Rightarrow> (Inl e, txn) | Inr _ \<Rightarrow> (Inl MPanic, txn)) in
       case rec of
         SingleRecord commit_ts w \<Rightarrow> if write_type w \<noteq> WTRollback then (Inr ([], commit_ts), clear txn) else fail
       | _ \<Rightarrow> fail)"

section \<open>The check for newer versions\<close>

lemma sr_seek_write_eq:
  "wf_engine (sr_engine sr) \<Longrightarrow>
   sr_seek_write sr (Key_from_raw u) t = Inr (latest (versions (sr_engine sr) u) t)"
  by (simp add: sr_seek_write_def seek_write_eq)

definition prewrite_conflict :: "prewrite_mutation \<Rightarrow> bytes \<Rightarrow> write_record \<Rightarrow> ts \<Rightarrow> write_conflict_reason \<Rightarrow> mvcc_error" where
  "prewrite_conflict m u w c reason =
     WriteConflict (tp_start_ts (pm_props m)) (write_start_ts w) c u (tp_primary (pm_props m)) reason"

lemma write_conflict_error_eq:
  "pm_key m = Key_from_raw u \<Longrightarrow> write_conflict_error m w c reason = Inl (prewrite_conflict m u w c reason)"
  by (simp add: write_conflict_error_def prewrite_conflict_def)

lemma newer_optimistic:
  assumes "wf_engine (sr_engine sr)" "pm_key m = Key_from_raw u" "tp_kind (pm_props m) = OptimisticTxn b"
  shows "check_for_newer_version sr m =
    (case latest (versions (sr_engine sr) u) ts_max of
       None \<Rightarrow> Inr (None, m\<lparr>pm_last_change := LCNotExist\<rparr>)
     | Some (c, w) \<Rightarrow>
         if c = tp_start_ts (pm_props m) \<and> (write_type w = WTRollback \<or> has_overlapped_rollback w) then
           Inl (prewrite_conflict m u w c SelfRolledBack)
         else
           res_bind (next_last_change_info (Key_from_raw u) w (sr_start_ts sr) sr c) (\<lambda>lc.
             if tp_start_ts (pm_props m) < c then Inl (prewrite_conflict m u w c Optimistic)
             else
               res_bind (check_data_constraint sr (pm_should_not_exist m) w c (Key_from_raw u)) (\<lambda>_.
                 Inr (Some (w, c), m\<lparr>pm_last_change := lc\<rparr>))))"
proof (cases "latest (versions (sr_engine sr) u) ts_max")
  case None
  then show ?thesis
    by (simp add: check_for_newer_version_def newer_version_loop.simps assms(2) sr_seek_write_eq [OF assms(1)])
next
  case (Some p)
  obtain c w where p: "p = (c, w)" by (cases p)
  show ?thesis
    unfolding check_for_newer_version_def newer_version_loop.simps [of sr ts_max m] assms(2)
      sr_seek_write_eq [OF assms(1)] Some p
    by (cases "next_last_change_info (Key_from_raw u) w (sr_start_ts sr) sr c")
      (auto simp: write_conflict_error_eq assms check_kind_def prewrite_conflict_def)
qed

text \<open>
  The pointer to the last change that a new lock record is given stands on the latest data version,
  on the version a collected pointer named, or says that no value is visible.
\<close>

fun lc_points :: "(ts \<Rightarrow> write_record option) \<Rightarrow> ts option \<Rightarrow> ts \<Rightarrow> last_change \<Rightarrow> bool" where
  "lc_points vs l c LCUnknown \<longleftrightarrow> False"
| "lc_points vs l c LCNotExist \<longleftrightarrow> visible vs l c = None"
| "lc_points vs l c (LCExist t n) \<longleftrightarrow>
     (case vs t of None \<Rightarrow> visible vs None c = None | Some w \<Rightarrow> latest (data vs) c = Some (t, w))"

definition counts_ok :: "snapshot_reader \<Rightarrow> bytes \<Rightarrow> bool" where
  "counts_ok sr u \<longleftrightarrow>
     (\<forall>c w. versions (sr_engine sr) u c = Some w \<longrightarrow>
        rd_next_count (sr_reader sr) (Key_from_raw u) c + 1 \<noteq> 0 \<and>
        (\<forall>t n. write_last_change w = LCExist t n \<longrightarrow> n + 1 \<noteq> 0))"

lemma new_reader_engine: "rd_engine (sr_reader (SnapshotReader_new t (rd_snapshot (sr_reader sr)) p n)) = sr_engine sr"
  by (simp add: SnapshotReader_new_def MvccReader_new_def)

lemma next_last_change_points:
  assumes "wf_engine (sr_engine sr)" "wf_versions (versions (sr_engine sr) u)" "counts_ok sr u"
    and "versions (sr_engine sr) u c = Some w" "fences_clear (versions (sr_engine sr) u) (Some s) c"
  obtains lc where "next_last_change_info (Key_from_raw u) w s sr c = Inr lc" "wf_last_change lc"
    "lc_points (versions (sr_engine sr) u) (Some s) c lc"
proof -
  let ?vs = "versions (sr_engine sr) u"
  have c: "c \<noteq> 0" using assms(2,4) by (auto simp: wf_versions_def)
  have wf: "wf_last_change (write_last_change w)"
    using wf_version [OF assms(1,4)] by (simp add: wf_write_def)
  have n: "rd_next_count (sr_reader sr) (Key_from_raw u) c + 1 \<noteq> 0"
    "\<And>t n. write_last_change w = LCExist t n \<Longrightarrow> n + 1 \<noteq> 0"
    using assms(3,4) unfolding counts_ok_def by blast+
  show ?thesis
  proof (cases "is_data w")
    case True
    then have "next_last_change_info (Key_from_raw u) w s sr c = Inr (LCExist c 1)"
      using c by (simp add: next_last_change_info_def is_data_def make_exist_def is_zero_def)
    then show ?thesis
      by (rule that) (simp_all add: c assms(4) latest_data_self [where vs = ?vs, OF assms(4) True])
  next
    case False
    then have nd: "\<not> (write_type w = WTPut \<or> write_type w = WTDelete)" by (simp add: is_data_def)
    note lc = lc_ok_at [where vs = ?vs, OF _ assms(4) False]
    have ok: "lc_ok ?vs" using assms(2) by (simp add: wf_versions_def)
    show ?thesis
    proof (cases "write_last_change w")
      case LCUnknown
      let ?r = "SnapshotReader_new s (rd_snapshot (sr_reader sr)) (rd_panic_when_unexpected (sr_reader sr))
        (rd_next_count (sr_reader sr))"
      have "get_write_with_commit_ts (sr_reader ?r) (Key_from_raw u) c (Some s) = Inr (visible ?vs (Some s) c)"
        using assms(1,2,5)
        by (intro get_write_with_commit_ts_eq) (simp_all add: new_reader_engine wf_versions_def)
      then have get: "sr_get_write_with_commit_ts ?r (Key_from_raw u) c = Inr (visible ?vs (Some s) c)"
        by (simp add: sr_get_write_with_commit_ts_def SnapshotReader_new_def)
      show ?thesis
      proof (cases "visible ?vs (Some s) c")
        case None
        then have "next_last_change_info (Key_from_raw u) w s sr c = Inr LCNotExist"
          by (simp add: next_last_change_info_def nd LCUnknown Let_def get)
        then show ?thesis by (rule that) (simp_all add: None)
      next
        case (Some p)
        obtain w' t where p: "p = (w', t)" by (cases p)
        have v: "?vs t = Some w'" "write_type w' = WTPut" "latest (data ?vs) c = Some (t, w')"
          using visible_Some [OF Some [unfolded p]] Some [unfolded p]
          by (auto simp: visible_def split: option.splits if_splits)
        have "t \<noteq> 0" using v(1) assms(2) by (auto simp: wf_versions_def)
        then have "next_last_change_info (Key_from_raw u) w s sr c =
            Inr (LCExist t (rd_next_count (sr_reader sr) (Key_from_raw u) c + 1))"
          using n(1) by (simp add: next_last_change_info_def nd LCUnknown Let_def get Some p v(2) make_exist_def is_zero_def)
        then show ?thesis by (rule that) (simp_all add: \<open>t \<noteq> 0\<close> n(1) v)
      qed
    next
      case (LCExist t k)
      then have "next_last_change_info (Key_from_raw u) w s sr c = Inr (LCExist t (k + 1))"
        using wf n(2) [OF LCExist] by (simp add: next_last_change_info_def nd make_exist_def is_zero_def)
      then show ?thesis
        by (rule that) (use wf n(2) [OF LCExist] lc [OF ok] LCExist in \<open>simp_all\<close>)
    next
      case LCNotExist
      then have "next_last_change_info (Key_from_raw u) w s sr c = Inr LCNotExist"
        by (simp add: next_last_change_info_def nd)
      then show ?thesis
        by (rule that) (use lc [OF ok] LCNotExist in \<open>simp_all add: visible_None_limit\<close>)
    qed
  qed
qed

lemma st_bind_Inr:
  assumes "st_bind p f = (Inr r, s')"
  obtains x s where "p = (Inr x, s)" "f x s = (Inr r, s')"
  using assms by (cases p; cases "fst p") auto

lemma res_bind_Inr:
  assumes "res_bind p f = Inr r"
  obtains x where "p = Inr x" "f x = Inr r"
  using assms by (cases p) auto

definition same_mutation :: "prewrite_mutation \<Rightarrow> prewrite_mutation \<Rightarrow> bool" where
  "same_mutation m m' \<longleftrightarrow>
     pm_key m' = pm_key m \<and> pm_props m' = pm_props m \<and> pm_value m' = pm_value m \<and>
     pm_mutation_type m' = pm_mutation_type m \<and> pm_secondary_keys m' = pm_secondary_keys m \<and>
     pm_pessimistic_action m' = pm_pessimistic_action m \<and> pm_lock_type m' = pm_lock_type m \<and>
     pm_should_not_exist m' = pm_should_not_exist m \<and> pm_should_not_write m' = pm_should_not_write m \<and>
     pm_assertion m' = pm_assertion m"

lemma same_mutation_simps [simp]:
  "same_mutation m m"
  "same_mutation m (m'\<lparr>pm_last_change := lc\<rparr>) = same_mutation m m'"
  "same_mutation m (m'\<lparr>pm_lock_ttl := t\<rparr>) = same_mutation m m'"
  "same_mutation m (m'\<lparr>pm_min_commit_ts := c\<rparr>) = same_mutation m m'"
  by (simp_all add: same_mutation_def)

lemma amend_same:
  assumes "amend_pessimistic_lock sr m = Inr m'"
  shows "same_mutation m m'"
  using assms unfolding amend_pessimistic_lock_def Let_def by (elim res_bind_Inr) auto

lemma mutation_key_fst: "fst (into_key_value mu) = mutation_key mu"
  by (cases mu) auto

lemma from_mutation_fields:
  assumes "from_mutation mu sk action p = Inr m"
  shows "pm_key m = mutation_key mu" "pm_props m = p" "pm_value m = snd (into_key_value mu)"
    "pm_secondary_keys m = sk" "pm_pessimistic_action m = action" "pm_lock_type m = LockType_from_mutation mu"
    "pm_should_not_exist m = should_not_exists mu" "pm_should_not_write m = should_not_write mu"
    "pm_assertion m = get_assertion mu" "pm_mutation_type m = mutation_type_of mu"
    "pm_min_commit_ts m = tp_min_commit_ts p" "pm_lock_ttl m = tp_lock_ttl p" "pm_last_change m = LCUnknown"
  using assms by (auto simp: from_mutation_def mutation_key_fst split: if_splits)

lemma lock_status_none:
  assumes "wf_engine (sr_engine sr)" "plain_reader sr" "pm_key m = Key_from_raw u"
    and "\<And>l. lock_of (sr_engine sr) u = Some l \<Longrightarrow> lock_ts l \<noteq> tp_start_ts (pm_props m)"
    and "prewrite_lock_status sr m action ef g = Inr (status, amended, m')"
  shows "lock_of (sr_engine sr) u = None" "status = LockStatusNone" "same_mutation m m'"
proof -
  note eq = assms(5) [unfolded prewrite_lock_status_def assms(3) load_lock_plain [OF assms(1,2)]]
  show none: "lock_of (sr_engine sr) u = None"
  proof (cases "lock_of (sr_engine sr) u")
    case (Some l)
    with eq assms(4) [OF Some] show ?thesis
      by (auto simp: check_lock_def pessimistic_lock_not_found_def assms(3) pm_lock_info_def Let_def
          split: if_splits)
  qed simp
  show "status = LockStatusNone" "same_mutation m m'"
    using eq amend_same [of sr m]
    by (auto simp: none split: if_splits elim!: res_bind_Inr)
qed

lemma prewrite_checks:
  assumes "prewrite env sr p mu sk action ef txn = (Inr r, txn')"
  obtains m status amended m' where
    "from_mutation mu sk action p = Inr m"
    "prewrite_lock_status sr m action ef 0 = Inr (status, amended, m')"
    "\<not> skip_constraint_check m' \<Longrightarrow> (\<And>t. status \<noteq> Locked t) \<Longrightarrow> \<exists>x. check_for_newer_version sr m' = Inr x"
proof -
  note eq = assms [unfolded prewrite_def prewrite_with_generation_def]
  obtain m where m: "from_mutation mu sk action p = Inr m"
    using eq by (cases "from_mutation mu sk action p") auto
  obtain txn1 where u: "(if pm_should_not_exist m then on_cm (update_max_ts (env_now env) (env_tso env) (tp_start_ts p)) txn
      else (Inr (), txn)) = (Inr (), txn1)"
    using eq unfolding m st_bind_Pair sum.case by (elim st_bind_Inr) simp
  obtain status amended m' where st: "prewrite_lock_status sr m action ef 0 = Inr (status, amended, m')"
    using eq unfolding m st_bind_Pair sum.case u by (cases "prewrite_lock_status sr m action ef 0") auto
  show ?thesis
  proof (rule that [OF m st])
    assume a: "\<not> skip_constraint_check m'" "\<And>t. status \<noteq> Locked t"
    show "\<exists>x. check_for_newer_version sr m' = Inr x"
      using eq a unfolding m st_bind_Pair sum.case u st by (cases "check_for_newer_version sr m'") auto
  qed
qed

lemma latest_max: "latest f ts_max = Some (c', w') \<Longrightarrow> f c = Some w \<Longrightarrow> c \<le> c'"
  by (rule leI) (auto simp: latest_Some)

lemma prewrite_no_conflict:
  assumes "wf_engine (sr_engine sr)" "plain_reader sr" "tp_kind p = OptimisticTxn False"
    and "mutation_key mu = Key_from_raw u"
    and "\<And>l. lock_of (sr_engine sr) u = Some l \<Longrightarrow> lock_ts l \<noteq> tp_start_ts p"
    and "prewrite env sr p mu sk action ef txn = (Inr r, txn')"
  shows "lock_of (sr_engine sr) u = None"
    and "versions (sr_engine sr) u c = Some w \<Longrightarrow>
      c \<le> tp_start_ts p \<and> (c = tp_start_ts p \<longrightarrow> write_type w \<noteq> WTRollback \<and> \<not> has_overlapped_rollback w)"
proof -
  let ?vs = "versions (sr_engine sr) u"
  obtain m status amended m' where m: "from_mutation mu sk action p = Inr m"
    and st: "prewrite_lock_status sr m action ef 0 = Inr (status, amended, m')"
    and newer: "\<not> skip_constraint_check m' \<Longrightarrow> (\<And>t. status \<noteq> Locked t) \<Longrightarrow> \<exists>x. check_for_newer_version sr m' = Inr x"
    by (rule prewrite_checks [OF assms(6)]) blast
  note f = from_mutation_fields [OF m]
  have own: "\<And>l. lock_of (sr_engine sr) u = Some l \<Longrightarrow> lock_ts l \<noteq> tp_start_ts (pm_props m)"
    using assms(5) by (simp add: f(2))
  have key: "pm_key m = Key_from_raw u" by (simp add: f(1) assms(4))
  note none = lock_status_none [OF assms(1,2) key own st]
  show "lock_of (sr_engine sr) u = None" by (rule none(1))
  have m': "pm_key m' = Key_from_raw u" "tp_kind (pm_props m') = OptimisticTxn False" "tp_start_ts (pm_props m') = tp_start_ts p"
    using none(3) assms(3,4) f by (simp_all add: same_mutation_def)
  then obtain x where x: "check_for_newer_version sr m' = Inr x"
    using newer none(2) by (auto simp: skip_constraint_check_def)
  assume vs: "?vs c = Some w"
  then obtain c' w' where l: "latest ?vs ts_max = Some (c', w')"
    using latest_None [of ?vs ts_max] by (cases "latest ?vs ts_max") auto
  have c': "?vs c' = Some w'" "c \<le> c'"
    using l latest_max [OF l vs] by (auto simp: latest_Some)
  note x = x [unfolded newer_optimistic [OF assms(1) m'(1,2)] l prod.case option.case m'(3)]
  have no: "\<not> (c' = tp_start_ts p \<and> (write_type w' = WTRollback \<or> has_overlapped_rollback w'))"
    using x by auto
  have le: "\<not> tp_start_ts p < c'"
    using x no by (auto elim!: res_bind_Inr split: if_splits)
  show "c \<le> tp_start_ts p \<and> (c = tp_start_ts p \<longrightarrow> write_type w \<noteq> WTRollback \<and> \<not> has_overlapped_rollback w)"
  proof (intro conjI impI)
    show "c \<le> tp_start_ts p" using c'(2) le by simp
    assume "c = tp_start_ts p"
    then have "c' = c" using c'(2) le by simp
    then have "w' = w" using c'(1) vs by simp
    with no \<open>c' = c\<close> \<open>c = tp_start_ts p\<close>
    show "write_type w \<noteq> WTRollback" "\<not> has_overlapped_rollback w" by auto
  qed
qed

section \<open>The lock that is written\<close>

definition prewritten_lock :: "txn_env \<Rightarrow> prewrite_mutation \<Rightarrow> lock_type \<Rightarrow> lock_status \<Rightarrow> u64 \<Rightarrow> lock" where
  "prewritten_lock env m lt status generation =
     (new_lock env m lt status generation)
       \<lparr>lock_short_value := (case pm_value m of Some v \<Rightarrow> if is_short_value v then Some v else None | None \<Rightarrow> None)\<rparr>"

definition value_ops :: "prewrite_mutation \<Rightarrow> key_op list" where
  "value_ops m =
     (case pm_value m of
        Some v \<Rightarrow> if is_short_value v then [] else [PutValue (tp_start_ts (pm_props m)) v]
      | None \<Rightarrow> [])"

lemma new_lock_fields [simp]:
  "lock_type (new_lock env m lt st g) = lt"
  "lock_primary (new_lock env m lt st g) = tp_primary (pm_props m)"
  "lock_ts (new_lock env m lt st g) = tp_start_ts (pm_props m)"
  "lock_ttl (new_lock env m lt st g) = pm_lock_ttl m"
  "lock_min_commit_ts (new_lock env m lt st g) = pm_min_commit_ts m"
  "lock_short_value (new_lock env m lt st g) = None"
  "lock_use_async_commit (new_lock env m lt st g) = False"
  "lock_use_one_pc (new_lock env m lt st g) = False"
  "lock_secondaries (new_lock env m lt st g) = []"
  "lock_rollback_ts (new_lock env m lt st g) = []"
  "lock_generation (new_lock env m lt st g) = g"
  "lock_last_change (new_lock env m lt st g) =
     (if env_last_change env \<and> lt = LTLock then pm_last_change m else LCUnknown)"
  by (simp_all add: new_lock_def Let_def Lock_new_def)

lemma prewritten_lock_fields [simp]:
  "lock_type (prewritten_lock env m lt st g) = lt"
  "lock_primary (prewritten_lock env m lt st g) = tp_primary (pm_props m)"
  "lock_ts (prewritten_lock env m lt st g) = tp_start_ts (pm_props m)"
  "lock_ttl (prewritten_lock env m lt st g) = pm_lock_ttl m"
  "lock_min_commit_ts (prewritten_lock env m lt st g) = pm_min_commit_ts m"
  "lock_short_value (prewritten_lock env m lt st g) =
     (case pm_value m of Some v \<Rightarrow> if is_short_value v then Some v else None | None \<Rightarrow> None)"
  "lock_use_async_commit (prewritten_lock env m lt st g) = False"
  "lock_use_one_pc (prewritten_lock env m lt st g) = False"
  "lock_secondaries (prewritten_lock env m lt st g) = []"
  "lock_rollback_ts (prewritten_lock env m lt st g) = []"
  "lock_generation (prewritten_lock env m lt st g) = g"
  "lock_last_change (prewritten_lock env m lt st g) =
     (if env_last_change env \<and> lt = LTLock then pm_last_change m else LCUnknown)"
  by (simp_all add: prewritten_lock_def)

lemma wf_prewritten_lock:
  "length (tp_primary (pm_props m)) < 2 ^ 64 \<Longrightarrow> wf_last_change (pm_last_change m) \<Longrightarrow>
   wf_lock (prewritten_lock env m lt st g)"
  by (simp add: wf_lock_def split: option.splits)

lemma put_lock_value_pushes:
  assumes "pm_key m = Key_from_raw u"
  obtains txn' where "put_lock_value m (new_lock env m lt st g) txn = (prewritten_lock env m lt st g, txn')"
    "pushes u txn (value_ops m) txn'" "txn_cm txn' = txn_cm txn" "txn_guards txn' = txn_guards txn"
    "txn_new_locks txn' = txn_new_locks txn"
proof (cases "\<exists>v. pm_value m = Some v \<and> \<not> is_short_value v")
  case False
  have "put_lock_value m (new_lock env m lt st g) txn = (prewritten_lock env m lt st g, txn)" "value_ops m = []"
    using False by (auto simp: put_lock_value_def prewritten_lock_def value_ops_def new_lock_def Lock_new_def Let_def
        split: option.splits)
  then show ?thesis by (intro that) simp_all
next
  case True
  then obtain v where v: "pm_value m = Some v" "\<not> is_short_value v" by blast
  let ?op = "PutValue (tp_start_ts (pm_props m)) v"
  have 1: "put_lock_value m (new_lock env m lt st g) txn =
      (prewritten_lock env m lt st g, push_modify (modify_of u ?op) txn)"
    using v by (simp add: put_lock_value_def prewritten_lock_def new_lock_def Lock_new_def Let_def put_value_def assms)
  have 2: "pushes u txn (value_ops m) (push_modify (modify_of u ?op) txn)"
    using pushes_modify [OF pushes_refl, of ?op u txn] by (simp add: value_ops_def v)
  show ?thesis by (rule that [OF 1 2]) simp_all
qed

lemma put_lock_pushes_op:
  assumes "wf_lock l" "pushes u txn ops txn1"
  obtains txn' where "put_lock (Key_from_raw u) l is_new txn1 = (Inr (), txn')" "pushes u txn (ops @ [PutLock l]) txn'"
    "txn_cm txn' = txn_cm txn1" "txn_guards txn' = txn_guards txn1"
  using assms by (cases is_new) (auto simp: put_lock_def push_new_lock_def pushes_def)

lemma write_lock_two_pc:
  assumes "pm_key m = Key_from_raw u" "pm_lock_type m = Some lt" "pm_secondary_keys m = None"
    and "tp_commit_kind (pm_props m) = TwoPc" "wf_lock (prewritten_lock env m lt st g)"
  obtains txn' where "write_lock env m st is_new g txn = (Inr 0, txn')"
    "pushes u txn (value_ops m @ [PutLock (prewritten_lock env m lt st g)]) txn'"
proof -
  obtain txn1 where 1: "put_lock_value m (new_lock env m lt st g) txn = (prewritten_lock env m lt st g, txn1)"
    "pushes u txn (value_ops m) txn1"
    by (rule put_lock_value_pushes [OF assms(1)])
  obtain txn' where 2: "put_lock (Key_from_raw u) (prewritten_lock env m lt st g) is_new txn1 = (Inr (), txn')"
    "pushes u txn (value_ops m @ [PutLock (prewritten_lock env m lt st g)]) txn'"
    by (rule put_lock_pushes_op [OF assms(5) 1(2)])
  have "mark_commit_kind m (prewritten_lock env m lt st g) = prewritten_lock env m lt st g" "\<not> try_one_pc m"
    using assms(3,4) by (simp_all add: mark_commit_kind_def try_one_pc_def)
  then have "write_lock env m st is_new g txn = (Inr 0, txn')"
    by (simp add: write_lock_def assms(1,2) 1 2 Let_def)
  then show ?thesis by (rule that) (rule 2(2))
qed

lemma get_old_value_total:
  assumes "wf_engine (rd_engine r)" "wf_versions (versions (rd_engine r) u)"
    and "fences_clear (versions (rd_engine r) u) (Some s) s"
  shows "\<exists>ov. get_old_value r (Key_from_raw u) s loaded pw = Inr ov"
proof -
  have "get_write r (Key_from_raw u) s (Some s) = Inr (map_option fst (visible (versions (rd_engine r) u) (Some s) s))"
    using get_write_with_commit_ts_eq [of r _ u "Some s" s] assms by (simp add: get_write_def wf_versions_def)
  then show ?thesis
    by (auto simp: get_old_value_def Let_def split: option.splits write_type.splits)
qed

definition prewritable :: "snapshot_reader \<Rightarrow> bytes \<Rightarrow> bool" where
  "prewritable sr u \<longleftrightarrow>
     wf_versions (versions (sr_engine sr) u) \<and> counts_ok sr u \<and>
     (\<forall>c. fences_clear (versions (sr_engine sr) u) (Some (sr_start_ts sr)) c)"

definition no_conflict :: "(ts \<Rightarrow> write_record option) \<Rightarrow> ts \<Rightarrow> bool" where
  "no_conflict vs s \<longleftrightarrow>
     (\<forall>c w. vs c = Some w \<longrightarrow>
        c \<le> s \<and> (c = s \<longrightarrow> write_type w \<noteq> WTRollback \<and> \<not> has_overlapped_rollback w))"

lemma no_conflictD:
  "no_conflict vs s \<Longrightarrow> vs c = Some w \<Longrightarrow> c \<le> s"
  "no_conflict vs s \<Longrightarrow> vs s = Some w \<Longrightarrow> write_type w \<noteq> WTRollback \<and> \<not> has_overlapped_rollback w"
  by (auto simp: no_conflict_def)

lemma newer_none:
  assumes "wf_engine (sr_engine sr)" "prewritable sr u" "no_conflict (versions (sr_engine sr) u) (sr_start_ts sr)"
    and "pm_key m = Key_from_raw u" "tp_kind (pm_props m) = OptimisticTxn b" "tp_start_ts (pm_props m) = sr_start_ts sr"
    and "\<not> pm_should_not_exist m"
  obtains lc pw where "check_for_newer_version sr m = Inr (pw, m\<lparr>pm_last_change := lc\<rparr>)" "wf_last_change lc"
    "case pw of None \<Rightarrow> (\<forall>c. versions (sr_engine sr) u c = None) \<and> lc = LCNotExist
      | Some (w, c) \<Rightarrow> latest (versions (sr_engine sr) u) ts_max = Some (c, w) \<and>
          lc_points (versions (sr_engine sr) u) (Some (sr_start_ts sr)) c lc"
proof -
  let ?vs = "versions (sr_engine sr) u"
  note eq = newer_optimistic [OF assms(1,4,5)]
  show ?thesis
  proof (cases "latest ?vs ts_max")
    case None
    then have "check_for_newer_version sr m = Inr (None, m\<lparr>pm_last_change := LCNotExist\<rparr>)" by (simp add: eq)
    then show ?thesis
      by (rule that) (use None latest_None [of ?vs ts_max] in simp_all)
  next
    case (Some p)
    obtain c w where p: "p = (c, w)" by (cases p)
    have vs: "?vs c = Some w" using Some by (simp add: p latest_Some)
    have pre: "wf_versions ?vs" "counts_ok sr u" "fences_clear ?vs (Some (sr_start_ts sr)) c"
      using assms(2) by (simp_all add: prewritable_def)
    obtain lc where lc: "next_last_change_info (Key_from_raw u) w (sr_start_ts sr) sr c = Inr lc" "wf_last_change lc"
      "lc_points ?vs (Some (sr_start_ts sr)) c lc"
      by (rule next_last_change_points [OF assms(1) pre(1,2) vs pre(3)])
    have "c \<le> sr_start_ts sr" "c = sr_start_ts sr \<Longrightarrow> write_type w \<noteq> WTRollback \<and> \<not> has_overlapped_rollback w"
      using no_conflictD [OF assms(3)] vs by auto
    then have "check_for_newer_version sr m = Inr (Some (w, c), m\<lparr>pm_last_change := lc\<rparr>)"
      using assms(7) by (auto simp: eq Some p assms(6) lc(1) check_data_constraint_def)
    then show ?thesis by (rule that) (simp_all add: Some p lc)
  qed
qed

lemma prewrite_runs:
  assumes "wf_engine (sr_engine sr)" "plain_reader sr" "prewritable sr u" "lock_of (sr_engine sr) u = None"
    and "no_conflict (versions (sr_engine sr) u) (sr_start_ts sr)"
    and "tp_start_ts p = sr_start_ts sr" "tp_kind p = OptimisticTxn False" "tp_commit_kind p = TwoPc"
    and "length (tp_primary p) < 2 ^ 64" "tp_assertion_level p = AssertionOff \<or> get_assertion mu = AssertionNone"
    and "mutation_key mu = Key_from_raw u" "\<not> should_not_exists mu"
  obtains ov m lt pw txn' where
    "prewrite env sr p mu None SkipPessimisticCheck None txn = (Inr (0, ov), txn')"
    "pushes u txn (value_ops m @ [PutLock (prewritten_lock env m lt LockStatusNone 0)]) txn'"
    "LockType_from_mutation mu = Some lt" "pm_value m = snd (into_key_value mu)" "pm_props m = p"
    "pm_min_commit_ts m = tp_min_commit_ts p"
    "case pw of None \<Rightarrow> (\<forall>c. versions (sr_engine sr) u c = None) \<and> pm_last_change m = LCNotExist
      | Some (w, c) \<Rightarrow> latest (versions (sr_engine sr) u) ts_max = Some (c, w) \<and>
          lc_points (versions (sr_engine sr) u) (Some (sr_start_ts sr)) c (pm_last_change m)"
proof -
  have snw: "\<not> should_not_write mu" using assms(12) by (cases mu) auto
  obtain lt where lt: "LockType_from_mutation mu = Some lt" using assms(12) by (cases mu) auto
  obtain m where m: "from_mutation mu None SkipPessimisticCheck p = Inr m"
    by (simp add: from_mutation_def snw)
  note f = from_mutation_fields [OF m]
  have status: "prewrite_lock_status sr m SkipPessimisticCheck None 0 = Inr (LockStatusNone, False, m)"
    by (simp add: prewrite_lock_status_def f assms(4,11) load_lock_plain [OF assms(1,2)])
  have m_facts: "pm_key m = Key_from_raw u" "tp_kind (pm_props m) = OptimisticTxn False"
    "tp_start_ts (pm_props m) = sr_start_ts sr" "\<not> pm_should_not_exist m"
    using assms(6,7,11,12) by (simp_all add: f)
  obtain lc pw where newer: "check_for_newer_version sr m = Inr (pw, m\<lparr>pm_last_change := lc\<rparr>)" "wf_last_change lc"
    "case pw of None \<Rightarrow> (\<forall>c. versions (sr_engine sr) u c = None) \<and> lc = LCNotExist
      | Some (w, c) \<Rightarrow> latest (versions (sr_engine sr) u) ts_max = Some (c, w) \<and>
          lc_points (versions (sr_engine sr) u) (Some (sr_start_ts sr)) c lc"
    by (rule newer_none [OF assms(1,3,5) m_facts])
  let ?m = "m\<lparr>pm_last_change := lc\<rparr>"
  have assertion: "check_assertion sr ?m w b = Inr (None, False)" for w b
    unfolding check_assertion_def using assms(10) by (simp add: f disj_commute)
  obtain ov where ov: "prewrite_old_value sr ?m True (map_option fst pw) = Inr ov"
  proof -
    have "\<exists>ov. sr_get_old_value sr (Key_from_raw u) (sr_start_ts sr) True (map_option fst pw) = Inr ov"
      unfolding sr_get_old_value_def
      using assms(1,3) by (intro get_old_value_total) (simp_all add: prewritable_def)
    then have "\<exists>ov. prewrite_old_value sr ?m True (map_option fst pw) = Inr ov"
      using m_facts by (simp add: prewrite_old_value_def skip_constraint_check_def)
    then show ?thesis using that by blast
  qed
  have wf: "wf_lock (prewritten_lock env ?m lt LockStatusNone 0)"
    using assms(9) newer(2) by (intro wf_prewritten_lock) (simp_all add: f)
  have m_facts': "pm_key ?m = Key_from_raw u" "pm_lock_type ?m = Some lt" "pm_secondary_keys ?m = None"
    "tp_commit_kind (pm_props ?m) = TwoPc"
    using assms(8,11) lt by (simp_all add: f)
  obtain txn' where wl: "write_lock env ?m LockStatusNone True 0 txn = (Inr 0, txn')"
    "pushes u txn (value_ops ?m @ [PutLock (prewritten_lock env ?m lt LockStatusNone 0)]) txn'"
    by (rule write_lock_two_pc [OF m_facts' wf])
  have run: "prewrite env sr p mu None SkipPessimisticCheck None txn = (Inr (0, ov), txn')"
    using m_facts assms(12) snw
    by (simp add: prewrite_def prewrite_with_generation_def m status newer(1) assertion ov wl(1) f(8)
        skip_constraint_check_def)
  have lc: "pm_last_change ?m = lc" by simp
  show ?thesis
    by (rule that [where pw = pw, OF run wl(2) lt, unfolded lc, OF _ _ _ newer(3)]) (simp_all add: f)
qed

section \<open>Two phase commit of one key\<close>

fun mutation_read :: "mutation \<Rightarrow> value_bytes option \<Rightarrow> value_bytes option" where
  "mutation_read (MutPut k v a) old = Some v"
| "mutation_read (MutInsert k v a) old = Some v"
| "mutation_read (MutDelete k a) old = None"
| "mutation_read (MutLock k a) old = old"
| "mutation_read (MutCheckNotExists k a) old = old"

lemma no_conflict_own:
  assumes "records_ok vs" "no_conflict vs s" "vs c = Some w"
  shows "write_start_ts w < s"
proof -
  have le: "write_start_ts w \<le> c" "c \<le> s"
    using records_okD(1) [OF assms(1,3)] no_conflictD(1) [OF assms(2,3)] .
  have "write_start_ts w \<noteq> s"
  proof
    assume "write_start_ts w = s"
    with le have "write_start_ts w = c" "c = s" by auto
    then show False
      using records_okD(2) [OF assms(1,3)] no_conflictD(2) [OF assms(2), of w] assms(3) by auto
  qed
  with le show ?thesis by (metis order.trans order.not_eq_order_implies_strict)
qed

definition after_prewrite :: "key_state \<Rightarrow> prewrite_mutation \<Rightarrow> lock \<Rightarrow> key_state" where
  "after_prewrite ks m l = (foldl apply_op ks (value_ops m))\<lparr>ks_lock := Some l\<rparr>"

lemma after_prewrite_fields:
  "foldl apply_op ks (value_ops m @ [PutLock l]) = after_prewrite ks m l"
  "ks_versions (after_prewrite ks m l) = ks_versions ks"
  "ks_lock (after_prewrite ks m l) = Some l"
  "ks_values (after_prewrite ks m l) t =
     (case pm_value m of
        Some v \<Rightarrow> if \<not> is_short_value v \<and> t = tp_start_ts (pm_props m) then Some v else ks_values ks t
      | None \<Rightarrow> ks_values ks t)"
  by (auto simp: after_prewrite_def value_ops_def split: option.splits)

lemma ks_read_after_prewrite:
  assumes "records_ok (ks_versions ks)" "no_conflict (ks_versions ks) (tp_start_ts (pm_props m))"
  shows "ks_read (after_prewrite ks m l) f t = ks_read ks f t"
proof (cases "visible (ks_versions ks) f t")
  case None
  then show ?thesis by (simp add: ks_read_def after_prewrite_fields)
next
  case (Some p)
  obtain w c where p: "p = (w, c)" by (cases p)
  have "write_start_ts w < tp_start_ts (pm_props m)"
    using no_conflict_own [OF assms] visible_Some [OF Some [unfolded p]] by blast
  then have "ks_values (after_prewrite ks m l) (write_start_ts w) = ks_values ks (write_start_ts w)"
    by (auto simp: after_prewrite_fields split: option.splits)
  then show ?thesis
    by (cases "write_short_value w") (simp_all add: ks_read_def after_prewrite_fields(2) Some p)
qed

lemma prewritten_read:
  assumes "LockType_from_mutation mu = Some lt" "pm_value m = snd (into_key_value mu)" "tp_start_ts (pm_props m) = s"
    and l: "l = prewritten_lock env m lt st g"
  shows "(if b \<and> lock_type l = LTPut then
       (case lock_short_value l of Some v \<Rightarrow> Some v | None \<Rightarrow> ks_values (after_prewrite ks m l) s)
     else if b \<and> lock_type l = LTDelete then None else old) = (if b then mutation_read mu old else old)"
  using assms by (cases mu) (auto simp: after_prewrite_fields)

lemma no_conflict_undecided:
  assumes "records_ok vs" "no_conflict vs s"
  shows "\<not> committed_at vs s c"
proof -
  have "own vs s c = None" for c
    using no_conflict_own [OF assms] by (fastforce simp: own_None)
  then have "latest (own vs s) ts_max = None" by (simp add: latest_None)
  then show ?thesis
    by (auto simp: committed_at_def commit_record_def split: option.splits)
qed

lemma prewrite_key_state:
  assumes "wf_engine (sr_engine sr)" "plain_reader sr" "prewritable sr u" "lock_of (sr_engine sr) u = None"
    and "records_ok (versions (sr_engine sr) u)" "no_conflict (versions (sr_engine sr) u) (sr_start_ts sr)"
    and "tp_start_ts p = sr_start_ts sr" "tp_kind p = OptimisticTxn False" "tp_commit_kind p = TwoPc"
    and "length (tp_primary p) < 2 ^ 64" "tp_assertion_level p = AssertionOff \<or> get_assertion mu = AssertionNone"
    and "mutation_key mu = Key_from_raw u" "\<not> should_not_exists mu"
  obtains ov m lt e' where
    "run_action sr cm (\<lambda>sr. prewrite env sr p mu None SkipPessimisticCheck None) = Inr ((0, ov), e')"
    "wf_engine e'" "LockType_from_mutation mu = Some lt" "pm_value m = snd (into_key_value mu)" "pm_props m = p"
    "pm_min_commit_ts m = tp_min_commit_ts p"
    "key_state_of e' u = after_prewrite (key_state_of (sr_engine sr) u) m (prewritten_lock env m lt LockStatusNone 0)"
    "\<And>u'. u' \<noteq> u \<Longrightarrow> key_state_of e' u' = key_state_of (sr_engine sr) u'"
proof -
  obtain ov m lt pw txn' where
    pre: "prewrite env sr p mu None SkipPessimisticCheck None (MvccTxn_new (sr_start_ts sr) cm) = (Inr (0, ov), txn')"
    "pushes u (MvccTxn_new (sr_start_ts sr) cm) (value_ops m @ [PutLock (prewritten_lock env m lt LockStatusNone 0)]) txn'"
    "LockType_from_mutation mu = Some lt" "pm_value m = snd (into_key_value mu)" "pm_props m = p"
    "pm_min_commit_ts m = tp_min_commit_ts p"
    by (rule prewrite_runs [OF assms(1-4,6-13)]) blast
  obtain e' where "run_action sr cm (\<lambda>sr. prewrite env sr p mu None SkipPessimisticCheck None) = Inr ((0, ov), e')"
    "wf_engine e'" "key_state_of e' u = foldl apply_op (key_state_of (sr_engine sr) u)
      (value_ops m @ [PutLock (prewritten_lock env m lt LockStatusNone 0)])"
    "\<And>u'. u' \<noteq> u \<Longrightarrow> key_state_of e' u' = key_state_of (sr_engine sr) u'"
    using run_action_ops [where act = "\<lambda>sr. prewrite env sr p mu None SkipPessimisticCheck None", OF assms(1) pre(1,2)] by blast
  then show ?thesis
    using that pre(3-6) unfolding after_prewrite_fields(1) by blast
qed

lemma prewrite_repeated:
  assumes "wf_engine (sr_engine sr)" "plain_reader sr" "lock_of (sr_engine sr) u = Some l"
    and "lock_ts l = tp_start_ts p" "lock_type l \<noteq> LTPessimistic" "lock_generation l = 0"
    and "mutation_key mu = Key_from_raw u" "\<not> should_not_exists mu"
  shows "run_action sr cm (\<lambda>sr. prewrite env sr p mu sk action ef) =
    Inr ((if lock_use_async_commit l then lock_min_commit_ts l else 0, OldValueUnspecified), sr_engine sr)"
proof -
  have snw: "\<not> should_not_write mu" using assms(8) by (cases mu) auto
  obtain m where m: "from_mutation mu sk action p = Inr m"
    by (simp add: from_mutation_def snw)
  note f = from_mutation_fields [OF m]
  have "prewrite_lock_status sr m action ef 0 =
      Inr (Locked (if lock_use_async_commit l then lock_min_commit_ts l else 0), False,
        m\<lparr>pm_last_change := lock_last_change l\<rparr>)"
    using assms(4-6)
    by (simp add: prewrite_lock_status_def f(1,2) assms(3,7) load_lock_plain [OF assms(1,2)] check_lock_def Let_def
        is_pessimistic_lock_def)
  then show ?thesis
    by (intro run_action_nothing) (simp add: prewrite_def prewrite_with_generation_def m f(7) assms(8))
qed

text \<open>C1: Two phase commit of one key by an optimistic transaction.  When the key has no lock and no
  conflicting record, the prewrite succeeds, no snapshot read changes, and repeating it changes
  nothing; a commit above the start and at or above the least commit timestamp then succeeds, and
  reads at or above it get the effect of the mutation while reads below get what they got before.\<close>

theorem prewrite_then_commit:
  assumes "wf_engine (sr_engine sr)" "plain_reader sr" "prewritable sr u" "lock_of (sr_engine sr) u = None"
    and "records_ok (versions (sr_engine sr) u)" "no_conflict (versions (sr_engine sr) u) (sr_start_ts sr)"
    and "tp_start_ts p = sr_start_ts sr" "tp_kind p = OptimisticTxn False" "tp_commit_kind p = TwoPc"
    and "length (tp_primary p) < 2 ^ 64" "tp_assertion_level p = AssertionOff \<or> get_assertion mu = AssertionNone"
    and "mutation_key mu = Key_from_raw u" "\<not> should_not_exists mu"
  shows "\<exists>ov e1. run_action sr cm (\<lambda>sr. prewrite env sr p mu None SkipPessimisticCheck None) = Inr ((0, ov), e1) \<and>
    (\<forall>u' t. read_value e1 u' (Some t) t = read_value (sr_engine sr) u' (Some t) t) \<and>
    (\<forall>sr2 cm2. sr_engine sr2 = e1 \<longrightarrow> plain_reader sr2 \<longrightarrow> sr_start_ts sr2 = sr_start_ts sr \<longrightarrow>
      run_action sr2 cm2 (\<lambda>sr. prewrite env sr p mu None SkipPessimisticCheck None) =
        Inr ((0, OldValueUnspecified), e1) \<and>
      (\<forall>commit_ts. sr_start_ts sr < commit_ts \<longrightarrow> tp_min_commit_ts p \<le> commit_ts \<longrightarrow>
        (\<exists>rl e2. run_action sr2 cm2 (\<lambda>sr. commit sr (Key_from_raw u) commit_ts) = Inr (Some rl, e2) \<and>
          wf_engine e2 \<and> lock_of e2 u = None \<and> committed_at (versions e2 u) (sr_start_ts sr) commit_ts \<and>
          (\<forall>t. read_value e2 u (Some t) t =
            (if commit_ts \<le> t then mutation_read mu (read_value (sr_engine sr) u (Some t) t)
             else read_value (sr_engine sr) u (Some t) t)) \<and>
          (\<forall>u'. u' \<noteq> u \<longrightarrow> key_state_of e2 u' = key_state_of (sr_engine sr) u'))))"
proof -
  let ?e = "sr_engine sr" and ?s = "sr_start_ts sr"
  obtain ov m lt e1 where e1: "run_action sr cm (\<lambda>sr. prewrite env sr p mu None SkipPessimisticCheck None) = Inr ((0, ov), e1)"
    "wf_engine e1" and m: "LockType_from_mutation mu = Some lt" "pm_value m = snd (into_key_value mu)" "pm_props m = p"
    "pm_min_commit_ts m = tp_min_commit_ts p"
    and ks: "key_state_of e1 u = after_prewrite (key_state_of ?e u) m (prewritten_lock env m lt LockStatusNone 0)"
    and others: "\<And>u'. u' \<noteq> u \<Longrightarrow> key_state_of e1 u' = key_state_of ?e u'"
    using prewrite_key_state [where cm = cm and env = env, OF assms] by metis
  let ?l = "prewritten_lock env m lt LockStatusNone 0"
  have s: "tp_start_ts (pm_props m) = ?s" using assms(7) m(3) by simp
  have e1_views: "versions e1 u = versions ?e u" "lock_of e1 u = Some ?l"
    using arg_cong [OF ks, of ks_versions] arg_cong [OF ks, of ks_lock] by (simp_all add: after_prewrite_fields)
  have lt: "lt \<noteq> LTPessimistic" using m(1) by (cases mu) auto
  have read1: "ks_read (key_state_of e1 u) f t = ks_read (key_state_of ?e u) f t" for f t
    unfolding ks by (rule ks_read_after_prewrite) (simp_all add: assms(5,6) s)
  have reads: "read_value e1 u' (Some t) t = read_value ?e u' (Some t) t" for u' t
    by (cases "u' = u") (simp_all add: read_value_ks read1 others)
  have "run_action sr2 cm2 (\<lambda>sr. prewrite env sr p mu None SkipPessimisticCheck None) = Inr ((0, OldValueUnspecified), e1)"
    if "sr_engine sr2 = e1" "plain_reader sr2" for sr2 cm2
    using prewrite_repeated [of sr2 u ?l p mu cm2 env None SkipPessimisticCheck None] that e1(2) e1_views(2) lt assms(7,12,13) s
    by simp
  moreover have "\<exists>rl e2. run_action sr2 cm2 (\<lambda>sr. commit sr (Key_from_raw u) commit_ts) = Inr (Some rl, e2) \<and>
      wf_engine e2 \<and> lock_of e2 u = None \<and> committed_at (versions e2 u) ?s commit_ts \<and>
      (\<forall>t. read_value e2 u (Some t) t =
        (if commit_ts \<le> t then mutation_read mu (read_value ?e u (Some t) t) else read_value ?e u (Some t) t)) \<and>
      (\<forall>u'. u' \<noteq> u \<longrightarrow> key_state_of e2 u' = key_state_of ?e u')"
    if "sr_engine sr2 = e1" "plain_reader sr2" "sr_start_ts sr2 = ?s" "?s < commit_ts" "tp_min_commit_ts p \<le> commit_ts"
    for sr2 cm2 commit_ts
  proof -
    note sr2 = that
    have pre: "wf_engine (sr_engine sr2)" "lock_of (sr_engine sr2) u = Some ?l" "lock_ts ?l = sr_start_ts sr2"
      "lock_type ?l \<noteq> LTPessimistic" "lock_min_commit_ts ?l \<le> commit_ts"
      using sr2 e1(2) e1_views(2) lt s m(4) by simp_all
    obtain e2 where e2: "run_action sr2 cm2 (\<lambda>sr. commit sr (Key_from_raw u) commit_ts) =
        Inr (Some (ReleasedLock_new (sr_start_ts sr2) commit_ts (Key_from_raw u) (is_pessimistic_txn ?l)), e2)"
      "wf_engine e2" "key_state_of e2 u = after_commit (key_state_of e1 u) ?l ?s commit_ts"
      "\<forall>u'. u' \<noteq> u \<longrightarrow> key_state_of e2 u' = key_state_of e1 u'"
      using commit_runs [OF pre(1) sr2(2) pre(2-5), of cm2] unfolding sr2(1,3) by blast
    have below: "c < commit_ts" if "data (versions ?e u) c \<noteq> None" for c
      using that no_conflictD(1) [OF assms(6)] sr2(4) by (force simp: data_def split: option.splits)
    have read: "read_value e2 u (Some t) t =
        (if commit_ts \<le> t then mutation_read mu (read_value ?e u (Some t) t) else read_value ?e u (Some t) t)" for t
    proof -
      have "read_value e2 u (Some t) t =
          (if commit_ts \<le> t \<and> lock_type ?l = LTPut then
             (case lock_short_value ?l of Some v \<Rightarrow> Some v | None \<Rightarrow> ks_values (key_state_of e1 u) ?s)
           else if commit_ts \<le> t \<and> lock_type ?l = LTDelete then None
           else ks_read (key_state_of e1 u) (Some t) t)"
        unfolding read_value_ks e2(3) by (rule ks_read_after_commit) (simp add: below e1_views(1))
      also have "\<dots> = (if commit_ts \<le> t then mutation_read mu (read_value ?e u (Some t) t) else read_value ?e u (Some t) t)"
        unfolding read1 read_value_ks unfolding ks by (rule prewritten_read [OF m(1,2) s refl])
      finally show ?thesis .
    qed
    have ver: "versions e2 u = (versions ?e u)(commit_ts := Some (commit_write ?l (commit_type ?l) ?s commit_ts))"
      "lock_of e2 u = None"
      using arg_cong [OF e2(3), of ks_versions] arg_cong [OF e2(3), of ks_lock]
      by (simp_all add: after_commit_def e1_views(1))
    have com: "committed_at (versions e2 u) ?s commit_ts"
      unfolding ver(1) using no_conflict_undecided [OF assms(5,6)] sr2(4) commit_type(2) [of ?l]
      by (intro committed_at_upd [OF assms(5)]) simp_all
    have oth: "\<forall>u'. u' \<noteq> u \<longrightarrow> key_state_of e2 u' = key_state_of ?e u'" using e2(4) others by simp
    show ?thesis
      by (rule exI, rule exI [of _ e2], intro conjI, rule e2(1)) (intro e2(2) ver(2) com allI read oth)+
  qed
  ultimately show ?thesis using e1(1) reads by blast
qed

definition sample_props :: txn_props where
  "sample_props =
     \<lparr> tp_start_ts = 30, tp_kind = OptimisticTxn False, tp_commit_kind = TwoPc, tp_primary = [107], tp_txn_size = 1,
       tp_lock_ttl = 3000, tp_min_commit_ts = 31, tp_need_old_value = True, tp_is_retry_request = False,
       tp_assertion_level = AssertionOff, tp_txn_source = 0 \<rparr>"

definition sample_env :: txn_env where
  "sample_env = \<lparr> env_now = 0, env_tso = None, env_last_change = True \<rparr>"

lemma sample_props_fields [simp]:
  "tp_start_ts sample_props = 30" "tp_kind sample_props = OptimisticTxn False" "tp_commit_kind sample_props = TwoPc"
  "tp_primary sample_props = [107]" "tp_min_commit_ts sample_props = 31" "tp_assertion_level sample_props = AssertionOff"
  by (simp_all add: sample_props_def)

lemma sample_fences_clear: "fences_clear (versions sample_store [107]) l c"
  by (cases l) (auto simp: fences_clear_def versions_sample_store is_data_def Write_new_def
      check_gc_fence_as_latest_version_def)

lemma prewritable_sample: "prewritable (sample_snapshot s) [107]"
  by (auto simp: prewritable_def sample_fences_clear wf_versions_sample counts_ok_def versions_sample_store
      sample_snapshot_def sample_reader_def MvccReader_new_def Write_new_def split: if_splits)

lemma no_conflict_sample: "no_conflict (versions sample_store [107]) 30"
  by (auto simp: no_conflict_def versions_sample_store Write_new_def split: if_splits)

theorem prewrite_then_commit_witness:
  "\<exists>ov e1 rl e2. run_action (sample_snapshot 30) sample_cm (\<lambda>sr. prewrite sample_env sr sample_props
      (MutPut (Key_from_raw [107]) [9] AssertionNone) None SkipPessimisticCheck None) = Inr ((0, ov), e1) \<and>
    run_action (SnapshotReader_new 30 \<lparr> snap_engine = e1, snap_txn_ext = None \<rparr> False (\<lambda>_ _. 0)) sample_cm
      (\<lambda>sr. commit sr (Key_from_raw [107]) 50) = Inr (Some rl, e2) \<and>
    read_value e2 [107] (Some 60) 60 = Some [9] \<and> read_value e2 [107] (Some 40) 40 = Some [42]"
proof -
  let ?mu = "MutPut (Key_from_raw [107]) [9] AssertionNone"
  have pre: "wf_engine (sr_engine (sample_snapshot 30))" "plain_reader (sample_snapshot 30)"
    "prewritable (sample_snapshot 30) [107]" "lock_of (sr_engine (sample_snapshot 30)) [107] = None"
    "records_ok (versions (sr_engine (sample_snapshot 30)) [107])"
    "no_conflict (versions (sr_engine (sample_snapshot 30)) [107]) (sr_start_ts (sample_snapshot 30))"
    "tp_start_ts sample_props = sr_start_ts (sample_snapshot 30)" "tp_kind sample_props = OptimisticTxn False"
    "tp_commit_kind sample_props = TwoPc" "length (tp_primary sample_props) < 2 ^ 64"
    "tp_assertion_level sample_props = AssertionOff \<or> get_assertion ?mu = AssertionNone"
    "mutation_key ?mu = Key_from_raw [107]" "\<not> should_not_exists ?mu"
    by (simp_all add: wf_sample_store prewritable_sample no_conflict_sample lock_of_sample records_ok_sample)
  let ?sr2 = "\<lambda>e1. SnapshotReader_new 30 \<lparr> snap_engine = e1, snap_txn_ext = None \<rparr> False (\<lambda>_ _. 0)"
  have sr2: "sr_engine (?sr2 e1) = e1" "plain_reader (?sr2 e1)" "sr_start_ts (?sr2 e1) = 30" for e1
    by (simp_all add: SnapshotReader_new_def MvccReader_new_def)
  have t: "(30 :: ts) < 50" "(31 :: ts) \<le> 50" "(50 :: ts) \<le> 60" "\<not> (50 :: ts) \<le> 40" by simp_all
  note * = prewrite_then_commit [where cm = sample_cm and env = sample_env, OF pre,
      unfolded sample_snapshot_fields sample_props_fields]
  show ?thesis
    using * apply (elim exE conjE)
    subgoal for ov e1
      apply (drule spec [of _ "?sr2 e1"], drule spec [of _ sample_cm])
      apply (drule mp, rule sr2, drule mp, rule sr2, drule mp, rule sr2, drule conjunct2, drule spec [of _ 50])
      apply (drule mp, rule t, drule mp, rule t, elim exE conjE)
      subgoal for rl e2
        by (intro exI [of _ ov] exI [of _ e1] exI [of _ rl] exI [of _ e2] conjI; (assumption | simp add: read_sample))
      done
    done
qed

section \<open>Refused prewrites\<close>

lemma run_action_InrD:
  assumes "run_action sr cm act = Inr (x, e')"
  obtains txn' where "act sr (MvccTxn_new (sr_start_ts sr) cm) = (Inr x, txn')"
proof -
  obtain r txn' where "act sr (MvccTxn_new (sr_start_ts sr) cm) = (r, txn')" by (cases "act sr (MvccTxn_new (sr_start_ts sr) cm)")
  then show ?thesis using assms that by (cases r) (auto simp: run_action_def elim!: res_bind_Inr)
qed

lemma no_conflict_not_rolled_back:
  assumes "records_ok vs" "no_conflict vs s"
  shows "\<not> rolled_back vs s"
proof
  assume rb: "rolled_back vs s"
  have own: "own vs s c = None" for c
    using no_conflict_own [OF assms] by (fastforce simp: own_None)
  then have "commit_record vs s = (case vs s of None \<Rightarrow> RecordNone None | Some w \<Rightarrow>
      if has_overlapped_rollback w then OverlappedRollback s
      else RecordNone (Some \<lparr> ow_write = w, ow_gc_fence = next_data vs s \<rparr>))"
    by (rule commit_record_other [OF records_ok_starts [OF assms(1)]])
  with rb no_conflictD(2) [OF assms(2)] show False
    by (auto simp: rolled_back_def split: option.splits if_splits)
qed

lemma prewrite_locked:
  assumes "wf_engine (sr_engine sr)" "plain_reader sr" "lock_of (sr_engine sr) u = Some l" "lock_ts l \<noteq> tp_start_ts p"
    and "tp_kind p = OptimisticTxn b" "action \<noteq> DoPessimisticCheck"
    and "mutation_key mu = Key_from_raw u" "\<not> should_not_exists mu"
  shows "run_action sr cm (\<lambda>sr. prewrite env sr p mu sk action ef) = Inl (KeyIsLocked (into_lock_info l u))"
proof -
  have snw: "\<not> should_not_write mu" using assms(8) by (cases mu) auto
  obtain m where m: "from_mutation mu sk action p = Inr m"
    by (simp add: from_mutation_def snw)
  note f = from_mutation_fields [OF m]
  have "prewrite_lock_status sr m action ef 0 = Inl (KeyIsLocked (into_lock_info l u))"
    using assms(4-6)
    by (simp add: prewrite_lock_status_def f(1,2) assms(3,7) load_lock_plain [OF assms(1,2)] check_lock_def Let_def
        pm_lock_info_def tp_is_pessimistic_def)
  then show ?thesis
    by (intro run_action_error) (simp add: prewrite_def prewrite_with_generation_def m f(7) assms(8))
qed

lemma prewrite_conflicts:
  assumes "wf_engine (sr_engine sr)" "plain_reader sr" "prewritable sr u" "lock_of (sr_engine sr) u = None"
    and "tp_kind p = OptimisticTxn False" "tp_start_ts p = sr_start_ts sr" "action \<noteq> DoPessimisticCheck"
    and "mutation_key mu = Key_from_raw u" "\<not> should_not_exists mu"
    and "latest (versions (sr_engine sr) u) ts_max = Some (c, w)"
    and "if c = sr_start_ts sr then reason = SelfRolledBack \<and> (write_type w = WTRollback \<or> has_overlapped_rollback w)
      else reason = Optimistic \<and> sr_start_ts sr < c"
  shows "run_action sr cm (\<lambda>sr. prewrite env sr p mu sk action ef) =
    Inl (WriteConflict (sr_start_ts sr) (write_start_ts w) c u (tp_primary p) reason)"
proof -
  let ?vs = "versions (sr_engine sr) u"
  have snw: "\<not> should_not_write mu" using assms(9) by (cases mu) auto
  obtain m where m: "from_mutation mu sk action p = Inr m"
    by (simp add: from_mutation_def snw)
  note f = from_mutation_fields [OF m]
  have status: "prewrite_lock_status sr m action ef 0 = Inr (LockStatusNone, False, m)"
    using assms(7) by (simp add: prewrite_lock_status_def f assms(4,8) load_lock_plain [OF assms(1,2)])
  have vs: "?vs c = Some w" using assms(10) by (simp add: latest_Some)
  have pre: "wf_versions ?vs" "counts_ok sr u" "fences_clear ?vs (Some (sr_start_ts sr)) c"
    using assms(3) by (simp_all add: prewritable_def)
  obtain lc where lc: "next_last_change_info (Key_from_raw u) w (sr_start_ts sr) sr c = Inr lc"
    using next_last_change_points [OF assms(1) pre(1,2) vs pre(3)] by metis
  have mf: "pm_key m = Key_from_raw u" "tp_kind (pm_props m) = OptimisticTxn False"
    using assms(5,8) by (simp_all add: f)
  have "check_for_newer_version sr m = Inl (prewrite_conflict m u w c reason)"
    using assms(11) unfolding newer_optimistic [OF assms(1) mf] assms(10)
    by (cases "c = sr_start_ts sr") (simp_all add: lc f(2) assms(6))
  then show ?thesis
    using mf(2) assms(9)
    by (intro run_action_error)
      (simp add: prewrite_def prewrite_with_generation_def m status f(2,7) skip_constraint_check_def prewrite_conflict_def assms(6))
qed

lemma prewrite_success:
  assumes "wf_engine (sr_engine sr)" "plain_reader sr" "tp_kind p = OptimisticTxn False"
    and "mutation_key mu = Key_from_raw u"
    and "\<And>l. lock_of (sr_engine sr) u = Some l \<Longrightarrow> lock_ts l \<noteq> tp_start_ts p"
    and "run_action sr cm (\<lambda>sr. prewrite env sr p mu sk action ef) = Inr (r, e')"
  shows "lock_of (sr_engine sr) u = None" "no_conflict (versions (sr_engine sr) u) (tp_start_ts p)"
proof -
  obtain txn' where run: "prewrite env sr p mu sk action ef (MvccTxn_new (sr_start_ts sr) cm) = (Inr r, txn')"
    by (rule run_action_InrD [OF assms(6)])
  show "lock_of (sr_engine sr) u = None"
    by (rule prewrite_no_conflict(1) [OF assms(1-5) run])
  show "no_conflict (versions (sr_engine sr) u) (tp_start_ts p)"
    unfolding no_conflict_def using prewrite_no_conflict(2) [OF assms(1-5) run] by blast
qed

text \<open>C2: Write conflicts.  An optimistic prewrite of a put, a deletion or a lock (not of an insertion or a
  check that the key does not exist) of a key that its transaction has not locked yet reports a lock of another transaction, a record newer than its start, and the rollback
  of its own transaction, and it succeeds only when there is none of them.\<close>

theorem prewrite_detects_conflicts:
  assumes "wf_engine (sr_engine sr)" "plain_reader sr" "prewritable sr u"
    and "tp_kind p = OptimisticTxn False" "tp_start_ts p = sr_start_ts sr" "action \<noteq> DoPessimisticCheck"
    and "mutation_key mu = Key_from_raw u" "\<not> should_not_exists mu"
    and "\<And>l. lock_of (sr_engine sr) u = Some l \<Longrightarrow> lock_ts l \<noteq> sr_start_ts sr"
  shows "(\<forall>l. lock_of (sr_engine sr) u = Some l \<longrightarrow>
      run_action sr cm (\<lambda>sr. prewrite env sr p mu sk action ef) = Inl (KeyIsLocked (into_lock_info l u))) \<and>
    (\<forall>c w. lock_of (sr_engine sr) u = None \<longrightarrow> latest (versions (sr_engine sr) u) ts_max = Some (c, w) \<longrightarrow>
      (sr_start_ts sr < c \<longrightarrow>
        run_action sr cm (\<lambda>sr. prewrite env sr p mu sk action ef) =
          Inl (WriteConflict (sr_start_ts sr) (write_start_ts w) c u (tp_primary p) Optimistic)) \<and>
      (c = sr_start_ts sr \<and> (write_type w = WTRollback \<or> has_overlapped_rollback w) \<longrightarrow>
        run_action sr cm (\<lambda>sr. prewrite env sr p mu sk action ef) =
          Inl (WriteConflict (sr_start_ts sr) (write_start_ts w) c u (tp_primary p) SelfRolledBack))) \<and>
    (\<forall>r e'. run_action sr cm (\<lambda>sr. prewrite env sr p mu sk action ef) = Inr (r, e') \<longrightarrow>
      lock_of (sr_engine sr) u = None \<and> no_conflict (versions (sr_engine sr) u) (sr_start_ts sr))"
proof (intro conjI allI impI)
  let ?run = "run_action sr cm (\<lambda>sr. prewrite env sr p mu sk action ef)"
  have own: "\<And>l. lock_of (sr_engine sr) u = Some l \<Longrightarrow> lock_ts l \<noteq> tp_start_ts p"
    using assms(5,9) by simp
  show "?run = Inl (KeyIsLocked (into_lock_info l u))" if "lock_of (sr_engine sr) u = Some l" for l
    by (rule prewrite_locked [OF assms(1,2) that own [OF that] assms(4,6-8)])
  show "?run = Inl (WriteConflict (sr_start_ts sr) (write_start_ts w) c u (tp_primary p) Optimistic)"
    if "lock_of (sr_engine sr) u = None" "latest (versions (sr_engine sr) u) ts_max = Some (c, w)" "sr_start_ts sr < c" for c w
    using that by (intro prewrite_conflicts [OF assms(1-3) _ assms(4-8)]) auto
  show "?run = Inl (WriteConflict (sr_start_ts sr) (write_start_ts w) c u (tp_primary p) SelfRolledBack)"
    if "lock_of (sr_engine sr) u = None" "latest (versions (sr_engine sr) u) ts_max = Some (c, w)"
      "c = sr_start_ts sr \<and> (write_type w = WTRollback \<or> has_overlapped_rollback w)" for c w
    using that by (intro prewrite_conflicts [OF assms(1-3) _ assms(4-8)]) auto
  show "lock_of (sr_engine sr) u = None" "no_conflict (versions (sr_engine sr) u) (sr_start_ts sr)"
    if "?run = Inr (r, e')" for r e'
    using prewrite_success [OF assms(1,2,4,7) own that] assms(5) by simp_all
qed

lemma latest_sample: "latest (versions sample_store [107]) ts_max =
    Some (20, (Write_new WTLock 15 None)\<lparr>write_last_change := LCExist 10 9\<rparr>)"
  unfolding latest_Some by (simp add: versions_sample_store)

theorem prewrite_detects_conflicts_witness:
  "run_action (sample_snapshot 17) sample_cm (\<lambda>sr. prewrite sample_env sr (sample_props\<lparr>tp_start_ts := 17\<rparr>)
      (MutPut (Key_from_raw [107]) [9] AssertionNone) None SkipPessimisticCheck None) =
     Inl (WriteConflict 17 15 20 [107] [107] Optimistic)"
proof -
  have pre: "wf_engine (sr_engine (sample_snapshot 17))" "plain_reader (sample_snapshot 17)"
    "prewritable (sample_snapshot 17) [107]" "tp_kind (sample_props\<lparr>tp_start_ts := 17\<rparr>) = OptimisticTxn False"
    "tp_start_ts (sample_props\<lparr>tp_start_ts := 17\<rparr>) = sr_start_ts (sample_snapshot 17)"
    "SkipPessimisticCheck \<noteq> DoPessimisticCheck"
    "mutation_key (MutPut (Key_from_raw [107]) [9] AssertionNone) = Key_from_raw [107]"
    "\<not> should_not_exists (MutPut (Key_from_raw [107]) [9] AssertionNone)"
    "\<And>l. lock_of (sr_engine (sample_snapshot 17)) [107] = Some l \<Longrightarrow> lock_ts l \<noteq> sr_start_ts (sample_snapshot 17)"
    by (simp_all add: wf_sample_store prewritable_sample lock_of_sample sample_props_def)
  show ?thesis
    using prewrite_detects_conflicts [where cm = sample_cm and env = sample_env and sk = None and ef = None, OF pre,
        THEN conjunct2, THEN conjunct1]
    by (simp add: latest_sample lock_of_sample sample_props_def Write_new_def)
qed

text \<open>C4: A rolled back transaction cannot write the key any more: after a cleanup that leaves a
  rollback record, every prewrite of the optimistic transaction fails, whatever its mutation, its
  commit protocol and the state of the concurrency manager are.\<close>

theorem rollback_blocks_prewrite:
  assumes "wf_engine (sr_engine sr)" "plain_reader sr" "key_ready (sr_engine sr) u (sr_start_ts sr)"
    and "run_action sr cm (\<lambda>sr. cleanup sr (Key_from_raw u) current_ts protect) = Inr (rl, e1)"
    and "(case lock_of (sr_engine sr) u of
        Some l \<Rightarrow> if lock_ts l = sr_start_ts sr then rollback_protected u l else protect
      | None \<Rightarrow> protect) \<or> versions (sr_engine sr) u (sr_start_ts sr) = None"
    and "sr_engine sr2 = e1" "plain_reader sr2" "tp_start_ts p = sr_start_ts sr" "tp_kind p = OptimisticTxn False"
    and "mutation_key mu = Key_from_raw u"
  shows "\<exists>err. run_action sr2 cm2 (\<lambda>sr. prewrite env sr p mu sk action ef) = Inl err"
proof (cases "run_action sr2 cm2 (\<lambda>sr. prewrite env sr p mu sk action ef)")
  case (Inr x)
  obtain r e2 where x: "x = (r, e2)" by (cases x)
  have ok: "records_ok (ks_versions (key_state_of (sr_engine sr) u))"
    using assms(3) by (simp add: key_ready_def)
  note rb = cleanup_rolls_back [OF assms(1-4)]
  have wf: "wf_engine (sr_engine sr2)"
    using cleanup_action.run_frame [OF assms(1) conjI [OF assms(2,3)] assms(4)] assms(6) by simp
  have own: "lock_ts l \<noteq> tp_start_ts p" if "lock_of (sr_engine sr2) u = Some l" for l
    using rb that assms(6,8) by (simp add: rolls_back_def)
  have "no_conflict (versions e1 u) (sr_start_ts sr)"
    using prewrite_success(2) [OF wf assms(7,9,10) own Inr [unfolded x]] assms(6,8) by simp
  moreover have "records_ok (versions e1 u)" "rolled_back (versions e1 u) (sr_start_ts sr)"
    using rolls_backD(1,3) [OF ok rb] assms(5) by auto
  ultimately show ?thesis using no_conflict_not_rolled_back by blast
qed simp

theorem rollback_blocks_prewrite_witness:
  "\<exists>rl e1 err. run_action (sample_snapshot 30) sample_cm (\<lambda>sr. cleanup sr (Key_from_raw [107]) 0 True) = Inr (rl, e1) \<and>
    run_action (SnapshotReader_new 30 \<lparr> snap_engine = e1, snap_txn_ext = None \<rparr> False (\<lambda>_ _. 0)) sample_cm
      (\<lambda>sr. prewrite sample_env sr sample_props (MutDelete (Key_from_raw [107]) AssertionNone) None
        SkipPessimisticCheck None) = Inl err"
proof -
  have pre: "wf_engine (sr_engine (sample_snapshot 30))" "plain_reader (sample_snapshot 30)"
    "key_ready (sr_engine (sample_snapshot 30)) [107] (sr_start_ts (sample_snapshot 30))"
    by (simp_all add: wf_sample_store key_ready_sample)
  obtain rl e1 where e1: "run_action (sample_snapshot 30) sample_cm (\<lambda>sr. cleanup sr (Key_from_raw [107]) 0 True) = Inr (rl, e1)"
    using cleanup_runs(3) [OF pre, where cm = sample_cm and current_ts = 0 and protect = True]
    by (auto simp: lock_alive_def lock_of_sample committed_at_def undecided_sample)
  let ?sr2 = "SnapshotReader_new 30 \<lparr> snap_engine = e1, snap_txn_ext = None \<rparr> False (\<lambda>_ _. 0)"
  have "\<exists>err. run_action ?sr2 sample_cm (\<lambda>sr. prewrite sample_env sr sample_props
      (MutDelete (Key_from_raw [107]) AssertionNone) None SkipPessimisticCheck None) = Inl err"
    by (rule rollback_blocks_prewrite [OF pre e1])
      (simp_all add: lock_of_sample SnapshotReader_new_def MvccReader_new_def)
  with e1 show ?thesis by blast
qed

section \<open>Async commit and one phase commit\<close>

lemma ts_next_less: "ts_next x = Some y \<Longrightarrow> x < y"
  using ts_next_Some [of x] by (cases "x = ts_max") (auto simp: ts_next_def)

lemma async_commit_timestamps_Inr:
  assumes "async_commit_timestamps k l s futs mct txn = (Inr (t, l'), txn')"
  shows "cm_max_ts (txn_cm txn) < t" "s < t" "futs < t" "lock_min_commit_ts l \<le> t" "mct \<noteq> 0 \<Longrightarrow> t \<le> mct"
    and "l' = l\<lparr>lock_min_commit_ts := t\<rparr>"
    and "txn' = txn\<lparr>txn_cm := guard_set_lock k l' (lock_key k (txn_cm txn)), txn_guards := txn_guards txn @ [k]\<rparr>"
proof -
  let ?m = "max (max (cm_max_ts (lock_key k (txn_cm txn))) s) futs"
  obtain t0 where t0: "ts_next ?m = Some t0"
    using assms by (cases "ts_next ?m") (auto simp: async_commit_timestamps_def Let_def)
  have t: "t = max (lock_min_commit_ts l) t0" "\<not> (\<not> is_zero mct \<and> mct < t)"
    and "l' = l\<lparr>lock_min_commit_ts := t\<rparr>"
    and "txn' = txn\<lparr>txn_cm := guard_set_lock k l' (lock_key k (txn_cm txn)), txn_guards := txn_guards txn @ [k]\<rparr>"
    using assms by (auto simp: async_commit_timestamps_def Let_def t0 split: if_splits)
  then show "l' = l\<lparr>lock_min_commit_ts := t\<rparr>"
    "txn' = txn\<lparr>txn_cm := guard_set_lock k l' (lock_key k (txn_cm txn)), txn_guards := txn_guards txn @ [k]\<rparr>" by simp_all
  have "?m < t0" by (rule ts_next_less [OF t0])
  then have "?m < t" using t(1) by (simp add: less_max_iff_disj)
  then show "cm_max_ts (txn_cm txn) < t" "s < t" "futs < t" by (simp_all add: lock_key_def)
  show "lock_min_commit_ts l \<le> t" using t(1) by simp
  show "t \<le> mct" if "mct \<noteq> 0" using t(2) that by (simp add: is_zero_def)
qed

lemma write_lock_async:
  assumes "write_lock env m st is_new g txn = (Inr t, txn')" "pm_key m = Key_from_raw u"
    and "pm_secondary_keys m \<noteq> None \<or> try_one_pc m"
  obtains l mct where "max_commit_ts (pm_props m) = Inr mct" "cm_max_ts (txn_cm txn) < t" "tp_start_ts (pm_props m) < t"
    "tp_for_update_ts (pm_props m) < t" "pm_min_commit_ts m \<le> t" "mct \<noteq> 0 \<Longrightarrow> t \<le> mct"
    "lock_ts l = tp_start_ts (pm_props m)" "lock_min_commit_ts l = t" "pm_lock_type m = Some (lock_type l)"
    "lock_use_async_commit l \<or> lock_use_one_pc l"
    "tree_get (cm_lock_table (txn_cm txn')) (Key_from_raw u) = Some (Some l)"
    "cm_max_ts (txn_cm txn') = cm_max_ts (txn_cm txn)"
    "if try_one_pc m then txn_locks_for_1pc txn' = txn_locks_for_1pc txn @ [(Key_from_raw u, l, has_pessimistic_lock st)]
     else last (txn_modifies txn') = ModPut CF_LOCK (Key_from_raw u) (Lock_to_bytes l)"
proof -
  obtain lt where lt: "pm_lock_type m = Some lt" using assms(1) by (cases "pm_lock_type m") (auto simp: write_lock_def)
  obtain txn1 where 1: "put_lock_value m (new_lock env m lt st g) txn = (prewritten_lock env m lt st g, txn1)"
    "pushes u txn (value_ops m) txn1" "txn_cm txn1 = txn_cm txn"
    by (rule put_lock_value_pushes [OF assms(2)])
  let ?l = "mark_commit_kind m (prewritten_lock env m lt st g)"
  have l: "lock_type ?l = lt" "lock_ts ?l = tp_start_ts (pm_props m)" "lock_min_commit_ts ?l = pm_min_commit_ts m"
    "lock_use_async_commit ?l \<or> try_one_pc m" "lock_use_async_commit ?l \<or> lock_use_one_pc ?l"
    using assms(3) by (auto simp: mark_commit_kind_def split: option.splits)
  obtain mct where mct: "max_commit_ts (pm_props m) = Inr mct"
    using assms(1) l(4) by (cases "max_commit_ts (pm_props m)") (auto simp: write_lock_def lt 1(1) Let_def)
  obtain r txn2 where 2: "async_commit_timestamps (Key_from_raw u) ?l (tp_start_ts (pm_props m))
      (tp_for_update_ts (pm_props m)) mct txn1 = (r, txn2)"
    by (cases "async_commit_timestamps (Key_from_raw u) ?l (tp_start_ts (pm_props m))
      (tp_for_update_ts (pm_props m)) mct txn1")
  note eq = assms(1) [unfolded write_lock_def lt unwrap.simps st_bind_Pair sum.case 1(1) prod.case Let_def mct
      assms(2) 2 if_P [OF l(4)]]
  obtain l' where r: "r = Inr (t, l')"
    and w: "(if try_one_pc m then (Inr t, put_locks_for_1pc (Key_from_raw u) l' (has_pessimistic_lock st) txn2)
      else st_bind (put_lock (Key_from_raw u) l' is_new txn2) (\<lambda>_ txn. (Inr t, txn))) = (Inr t, txn')"
  proof (cases r)
    case (Inl e)
    with eq show ?thesis by (cases e) (auto split: prod.splits elim!: st_bind_Inr)
  next
    case (Inr x)
    obtain t' l' where x: "x = (t', l')" by (cases x)
    have "t' = t" using eq by (auto simp: Inr x split: if_splits elim!: st_bind_Inr)
    then show ?thesis using that [of l'] eq by (simp add: Inr x)
  qed
  note a = async_commit_timestamps_Inr [OF 2 [unfolded r]]
  have cm: "txn_cm txn2 = guard_set_lock (Key_from_raw u) l' (lock_key (Key_from_raw u) (txn_cm txn))"
    using a(7) 1(3) by simp
  have cm': "txn_cm txn' = txn_cm txn2"
    using w by (auto simp: put_locks_for_1pc_def put_lock_def push_new_lock_def split: if_splits elim!: st_bind_Inr)
  show ?thesis
  proof (rule that [OF mct])
    show "cm_max_ts (txn_cm txn) < t" "tp_start_ts (pm_props m) < t" "tp_for_update_ts (pm_props m) < t"
      "pm_min_commit_ts m \<le> t" "mct \<noteq> 0 \<Longrightarrow> t \<le> mct"
      using a(1-5) 1(3) l(3) by simp_all
    show "lock_ts l' = tp_start_ts (pm_props m)" "lock_min_commit_ts l' = t" "pm_lock_type m = Some (lock_type l')"
      "lock_use_async_commit l' \<or> lock_use_one_pc l'"
      using l(5) by (simp_all add: a(6) l lt)
    show "tree_get (cm_lock_table (txn_cm txn')) (Key_from_raw u) = Some (Some l')"
      by (simp add: cm' cm guard_set_lock_def)
    show "cm_max_ts (txn_cm txn') = cm_max_ts (txn_cm txn)"
      by (simp add: cm' cm guard_set_lock_def lock_key_def)
    have "txn_locks_for_1pc txn2 = txn_locks_for_1pc txn" using a(7) 1(2) by (simp add: pushes_def)
    then show "if try_one_pc m then txn_locks_for_1pc txn' = txn_locks_for_1pc txn @ [(Key_from_raw u, l', has_pessimistic_lock st)]
        else last (txn_modifies txn') = ModPut CF_LOCK (Key_from_raw u) (Lock_to_bytes l')"
      using w put_lock_pushes [of u l' is_new txn2]
      by (auto simp: put_locks_for_1pc_def elim!: st_bind_Inr)
  qed
qed
lemma check_lock_same:
  "check_lock m l action ef g = Inr (status, m') \<Longrightarrow> same_mutation m m'"
  by (auto simp: check_lock_def pessimistic_lock_not_found_def Let_def split: if_splits sum.splits elim!: res_bind_Inr)

lemma lock_status_same:
  assumes "prewrite_lock_status sr m action ef g = Inr (status, amended, m')"
  shows "same_mutation m m'"
  using assms check_lock_same [of m] amend_same [of sr m]
  by (auto simp: prewrite_lock_status_def split: option.splits if_splits elim!: res_bind_Inr)

lemma lock_status_not_locked:
  assumes "wf_engine (sr_engine sr)" "plain_reader sr" "pm_key m = Key_from_raw u"
    and "\<And>l. lock_of (sr_engine sr) u = Some l \<Longrightarrow> lock_ts l \<noteq> tp_start_ts (pm_props m) \<or> lock_type l = LTPessimistic"
    and "prewrite_lock_status sr m action ef g = Inr (status, amended, m')"
  shows "status \<noteq> Locked t"
proof (cases "lock_of (sr_engine sr) u")
  case None
  then show ?thesis
    using assms(5) by (auto simp: prewrite_lock_status_def assms(3) load_lock_plain [OF assms(1,2)]
        split: if_splits elim!: res_bind_Inr)
next
  case (Some l)
  then show ?thesis
    using assms(5) assms(4) [OF Some]
    by (auto simp: prewrite_lock_status_def assms(3) load_lock_plain [OF assms(1,2)] check_lock_def Let_def
        is_pessimistic_lock_def pessimistic_lock_not_found_def pm_lock_info_def
        split: if_splits sum.splits elim!: res_bind_Inr)
qed

lemma newer_same:
  "newer_version_loop sr t m = Inr (x, m') \<Longrightarrow> same_mutation m m'"
proof (induction sr t m rule: newer_version_loop.induct)
  case (1 sr t m)
  note eq = "1.prems" [unfolded newer_version_loop.simps [of sr t m]]
  obtain res where seek: "sr_seek_write sr (pm_key m) t = Inr res"
    using eq by (cases "sr_seek_write sr (pm_key m) t") auto
  show ?case
  proof (cases res)
    case None
    then show ?thesis using eq by (auto simp: seek split: if_splits)
  next
    case (Some cw)
    obtain c w where cw: "cw = (c, w)" by (cases cw)
    have self: "\<not> (c = tp_start_ts (pm_props m) \<and> (write_type w = WTRollback \<or> has_overlapped_rollback w))"
      using eq by (auto simp: seek Some cw write_conflict_error_def elim!: res_bind_Inr)
    note eq = eq [unfolded seek Some cw sum.case option.case prod.case if_not_P [OF self]]
    obtain m1 where m1: "(if t = ts_max then
        res_bind (next_last_change_info (pm_key m) w (sr_start_ts sr) sr c) (\<lambda>lc. Inr (m\<lparr>pm_last_change := lc\<rparr>))
        else Inr m) = Inr m1"
      using eq by (cases "if t = ts_max then
        res_bind (next_last_change_info (pm_key m) w (sr_start_ts sr) sr c) (\<lambda>lc. Inr (m\<lparr>pm_last_change := lc\<rparr>))
        else Inr m") auto
    have same: "same_mutation m m1" using m1 by (auto split: if_splits elim!: res_bind_Inr)
    obtain b where b: "check_kind m1 w c = Inr b"
      using eq unfolding m1 by (cases "check_kind m1 w c") auto
    show ?thesis
    proof (cases b)
      case True
      with b have go: "check_kind m1 w c = Inr True" by simp
      obtain t' where t': "ts_prev c = Some t'" using eq unfolding m1 sum.case go by (cases "ts_prev c") auto
      have "newer_version_loop sr t' m1 = Inr (x, m')" using eq unfolding m1 sum.case go t' by simp
      then have "same_mutation m1 m'"
        using "1.IH" [OF seek Some cw [symmetric] self m1 go _ t'] by simp
      with same show ?thesis by (simp add: same_mutation_def)
    next
      case False
      with b have "check_kind m1 w c = Inr False" by simp
      then show ?thesis using eq same unfolding m1 by (auto elim!: res_bind_Inr)
    qed
  qed
qed

lemma prewrite_writes:
  assumes "wf_engine (sr_engine sr)" "plain_reader sr" "mutation_key mu = Key_from_raw u" "\<not> should_not_write mu"
    and "\<And>l. lock_of (sr_engine sr) u = Some l \<Longrightarrow> lock_ts l \<noteq> tp_start_ts p \<or> lock_type l = LTPessimistic"
    and "prewrite env sr p mu sk action ef txn = (Inr (t, ov), txn')"
  obtains m status is_new txn1 where "write_lock env m status is_new 0 txn1 = (Inr t, txn')"
    "pm_key m = Key_from_raw u" "pm_props m = p" "pm_secondary_keys m = sk" "pm_lock_type m = LockType_from_mutation mu"
    "cm_max_ts (txn_cm txn) \<le> cm_max_ts (txn_cm txn1)"
proof -
  note eq = assms(6) [unfolded prewrite_def prewrite_with_generation_def]
  obtain m where m: "from_mutation mu sk action p = Inr m"
    using eq by (cases "from_mutation mu sk action p") auto
  note f = from_mutation_fields [OF m]
  obtain txn1 where u: "(if pm_should_not_exist m then on_cm (update_max_ts (env_now env) (env_tso env) (tp_start_ts p)) txn
      else (Inr (), txn)) = (Inr (), txn1)"
    using eq unfolding m st_bind_Pair sum.case by (elim st_bind_Inr) simp
  have mono: "cm_max_ts (txn_cm txn) \<le> cm_max_ts (txn_cm txn1)"
    using u by (auto simp: on_cm_def split: if_splits prod.splits dest!: update_max_ts_cases)
  obtain status amended m1 where st: "prewrite_lock_status sr m action ef 0 = Inr (status, amended, m1)"
    using eq unfolding m st_bind_Pair sum.case u by (cases "prewrite_lock_status sr m action ef 0") auto
  have m1: "same_mutation m m1" "\<And>t. status \<noteq> Locked t"
    using lock_status_same [OF st] lock_status_not_locked [OF assms(1,2) _ _ st] assms(3,5) f(1,2) by auto
  obtain pw loaded m2 where n: "(if \<not> skip_constraint_check m1 then
      res_bind (check_for_newer_version sr m1) (\<lambda>(pw, m). Inr (pw, True, m)) else Inr (None, False, m1)) = Inr (pw, loaded, m2)"
    using eq m1(2) unfolding m st_bind_Pair sum.case u st prod.case
    by (cases "if \<not> skip_constraint_check m1 then
      res_bind (check_for_newer_version sr m1) (\<lambda>(pw, m). Inr (pw, True, m)) else Inr (None, False, m1)") auto
  have m2: "same_mutation m m2"
    using n m1(1) newer_same [of sr ts_max m1]
    by (auto simp: check_for_newer_version_def same_mutation_def split: if_splits elim!: res_bind_Inr)
  have nl: "\<not> (0 = (0 :: u64) \<and> (\<exists>t. status = Locked t))" using m1(2) by simp
  note eq = eq [unfolded m st_bind_Pair sum.case u st prod.case if_not_P [OF nl] n]
  have snw: "\<not> pm_should_not_write m2" using m2 assms(4) f(8) by (simp add: same_mutation_def)
  from eq obtain status' is_new where "write_lock env m2 status' is_new 0 txn1 = (Inr t, txn')"
    using snw by (auto split: sum.splits if_splits prod.splits elim!: st_bind_Inr)
  then show ?thesis
    by (rule that) (use m2 f assms(3) mono in \<open>simp_all add: same_mutation_def\<close>)
qed

lemma conflict_of_async_lock:
  assumes "lock_use_async_commit l \<or> lock_use_one_pc l" "lock_ts l < lock_min_commit_ts l" "lock_type l \<noteq> LTPessimistic"
  shows "check_ts_conflict l (Key_from_raw u) t TsEmpty Si =
    (if t < lock_min_commit_ts l \<or> lock_type l = LTLock then Inr () else Inl (TKeyIsLocked (into_lock_info l u)))"
  using assms by (auto simp: check_ts_conflict_def check_ts_conflict_si_def is_pessimistic_lock_def)

text \<open>C3: Async commit and one phase commit keep snapshot reads right.  The timestamp that a successful
  prewrite returns is above every timestamp a read has announced so far, above the start and the
  for update timestamp of the transaction and within the limit the client gave; and from then on
  the lock in memory stops exactly those reads at or above it, until the guard is dropped; a mutation
  that only locks the key changes no value and stops no read.\<close>

theorem async_prewrite_protects_reads:
  assumes "wf_engine (sr_engine sr)" "plain_reader sr" "mutation_key mu = Key_from_raw u" "\<not> should_not_write mu"
    and "\<And>l. lock_of (sr_engine sr) u = Some l \<Longrightarrow> lock_ts l \<noteq> tp_start_ts p \<or> lock_type l = LTPessimistic"
    and "sk \<noteq> None \<or> (\<exists>mct. tp_commit_kind p = OnePc mct)"
    and "prewrite env sr p mu sk action ef txn = (Inr (t, ov), txn')"
  shows "(\<forall>t'. t' \<le> cm_max_ts (txn_cm txn) \<longrightarrow> t' < t) \<and> tp_start_ts p < t \<and> tp_for_update_ts p < t \<and>
    (\<forall>mct. max_commit_ts p = Inr mct \<longrightarrow> mct \<noteq> 0 \<longrightarrow> t \<le> mct) \<and>
    (\<forall>t'. (read_key_check (txn_cm txn') (Key_from_raw u)
        (\<lambda>l. check_ts_conflict l (Key_from_raw u) t' TsEmpty Si) = Inr ()) \<longleftrightarrow>
      t' < t \<or> LockType_from_mutation mu = Some LTLock)"
proof -
  obtain m status is_new txn1 where w: "write_lock env m status is_new 0 txn1 = (Inr t, txn')"
    and m: "pm_key m = Key_from_raw u" "pm_props m = p" "pm_secondary_keys m = sk" "pm_lock_type m = LockType_from_mutation mu"
    and mono: "cm_max_ts (txn_cm txn) \<le> cm_max_ts (txn_cm txn1)"
    by (rule prewrite_writes [OF assms(1-5,7)]) blast+
  have "pm_secondary_keys m \<noteq> None \<or> try_one_pc m"
    using assms(6) by (auto simp: m try_one_pc_def)
  then obtain l mct where l: "max_commit_ts p = Inr mct" "cm_max_ts (txn_cm txn1) < t" "tp_start_ts p < t"
    "tp_for_update_ts p < t" "mct \<noteq> 0 \<Longrightarrow> t \<le> mct" "lock_ts l = tp_start_ts p" "lock_min_commit_ts l = t"
    "LockType_from_mutation mu = Some (lock_type l)" "lock_use_async_commit l \<or> lock_use_one_pc l"
    "tree_get (cm_lock_table (txn_cm txn')) (Key_from_raw u) = Some (Some l)"
    using write_lock_async [OF w m(1)] unfolding m by metis
  have "lock_type l \<noteq> LTPessimistic" using l(8) by (cases mu) auto
  then have "read_key_check (txn_cm txn') (Key_from_raw u) (\<lambda>l. check_ts_conflict l (Key_from_raw u) t' TsEmpty Si) =
      (if t' < t \<or> lock_type l = LTLock then Inr () else Inl (TKeyIsLocked (into_lock_info l u)))" for t'
    using conflict_of_async_lock [OF l(9), of u t'] l(3,6,7)
    by (simp add: read_key_check_def check_key_def l(10))
  then show ?thesis
    using mono l(1-5,8) by (auto dest: order.strict_trans1 order.strict_trans2)
qed

definition async_props :: txn_props where
  "async_props = sample_props\<lparr>tp_commit_kind := Async 0, tp_need_old_value := False\<rparr>"

lemma async_props_fields [simp]:
  "tp_start_ts async_props = 30" "tp_kind async_props = OptimisticTxn False" "tp_commit_kind async_props = Async 0"
  "tp_min_commit_ts async_props = 31" "tp_assertion_level async_props = AssertionOff" "\<not> tp_need_old_value async_props"
  by (simp_all add: async_props_def)

definition sample_txn :: mvcc_txn where
  "sample_txn = MvccTxn_new 30 (sample_cm\<lparr>cm_max_ts := 70\<rparr>)"

lemma prewrite_async_sample:
  "\<exists>txn'. prewrite sample_env (sample_snapshot 30) async_props (MutPut (Key_from_raw [107]) [9] AssertionNone) (Some [])
     SkipPessimisticCheck None sample_txn = (Inr (71, OldValueUnspecified), txn')"
proof -
  let ?mu = "MutPut (Key_from_raw [107]) [9] AssertionNone"
  obtain m where m: "from_mutation ?mu (Some []) SkipPessimisticCheck async_props = Inr m"
    by (simp add: from_mutation_def)
  note f = from_mutation_fields [OF m]
  have wf: "wf_engine (sr_engine (sample_snapshot 30))" by (simp add: wf_sample_store)
  have status: "prewrite_lock_status (sample_snapshot 30) m SkipPessimisticCheck None 0 = Inr (LockStatusNone, False, m)"
    by (simp add: prewrite_lock_status_def f load_lock_plain [OF wf] lock_of_sample)
  have mf: "pm_key m = Key_from_raw [107]" "tp_kind (pm_props m) = OptimisticTxn False"
    "tp_start_ts (pm_props m) = sr_start_ts (sample_snapshot 30)" "\<not> pm_should_not_exist m"
    by (simp_all add: f)
  have nc: "no_conflict (versions (sr_engine (sample_snapshot 30)) [107]) (sr_start_ts (sample_snapshot 30))"
    by (simp add: no_conflict_sample)
  obtain lc pw where newer: "check_for_newer_version (sample_snapshot 30) m = Inr (pw, m\<lparr>pm_last_change := lc\<rparr>)"
    using newer_none [OF wf prewritable_sample nc mf] by metis
  let ?m = "m\<lparr>pm_last_change := lc\<rparr>"
  have assertion: "check_assertion (sample_snapshot 30) ?m w b = Inr (None, False)" for w b
    unfolding check_assertion_def by (simp add: f)
  have "\<exists>txn'. write_lock sample_env ?m LockStatusNone True 0 sample_txn = (Inr 71, txn')"
    by (simp add: write_lock_def f put_lock_value_def is_short_value_def SHORT_VALUE_MAX_LEN_def Let_def
        mark_commit_kind_def max_commit_ts_def try_one_pc_def async_commit_timestamps_def sample_txn_def
        lock_key_def sample_cm_def new_with_config_def tp_for_update_ts_def ts_next_def ts_max_def is_zero_def
        put_lock_def push_new_lock_def)
  then obtain txn' where "write_lock sample_env ?m LockStatusNone True 0 sample_txn = (Inr 71, txn')" by blast
  then show ?thesis
    using mf by (simp add: prewrite_def prewrite_with_generation_def m status newer assertion f skip_constraint_check_def
        prewrite_old_value_def)
qed

theorem async_prewrite_protects_reads_witness:
  "\<exists>txn'. prewrite sample_env (sample_snapshot 30) async_props (MutPut (Key_from_raw [107]) [9] AssertionNone) (Some [])
      SkipPessimisticCheck None sample_txn = (Inr (71, OldValueUnspecified), txn') \<and>
    read_key_check (txn_cm txn') (Key_from_raw [107]) (\<lambda>l. check_ts_conflict l (Key_from_raw [107]) 70 TsEmpty Si) = Inr () \<and>
    read_key_check (txn_cm txn') (Key_from_raw [107]) (\<lambda>l. check_ts_conflict l (Key_from_raw [107]) 71 TsEmpty Si) \<noteq> Inr ()"
proof -
  obtain txn' where run: "prewrite sample_env (sample_snapshot 30) async_props (MutPut (Key_from_raw [107]) [9] AssertionNone)
      (Some []) SkipPessimisticCheck None sample_txn = (Inr (71, OldValueUnspecified), txn')"
    using prewrite_async_sample by blast
  have pre: "wf_engine (sr_engine (sample_snapshot 30))" "plain_reader (sample_snapshot 30)"
    "mutation_key (MutPut (Key_from_raw [107]) [9] AssertionNone) = Key_from_raw [107]"
    "\<not> should_not_write (MutPut (Key_from_raw [107]) [9] AssertionNone)"
    "\<And>l. lock_of (sr_engine (sample_snapshot 30)) [107] = Some l \<Longrightarrow>
      lock_ts l \<noteq> tp_start_ts async_props \<or> lock_type l = LTPessimistic"
    "Some [] \<noteq> None \<or> (\<exists>mct. tp_commit_kind async_props = OnePc mct)"
    by (simp_all add: wf_sample_store lock_of_sample)
  show ?thesis
    using async_prewrite_protects_reads [OF pre run] run by auto
qed

section \<open>Newer rollback records\<close>

definition skip_rollbacks :: "(ts \<Rightarrow> write_record option) \<Rightarrow> ts \<Rightarrow> ts \<Rightarrow> write_record option" where
  "skip_rollbacks vs futs c =
     (case vs c of
        Some w \<Rightarrow> if futs < c \<and> write_type w = WTRollback then None else Some w
      | None \<Rightarrow> None)"

lemma latest_skip_rollbacks:
  assumes "latest vs t = Some (c, w)"
  shows "latest (skip_rollbacks vs futs) t =
    (if futs < c \<and> write_type w = WTRollback then
       (case ts_prev c of None \<Rightarrow> None | Some t' \<Rightarrow> latest (skip_rollbacks vs futs) t')
     else Some (c, w))"
proof -
  have c: "c \<le> t" "vs c = Some w" "\<And>c'. c < c' \<Longrightarrow> c' \<le> t \<Longrightarrow> vs c' = None"
    using assms by (auto simp: latest_Some)
  then have "latest (skip_rollbacks vs futs) t = latest (skip_rollbacks vs futs) c"
    by (intro latest_skip) (auto simp: skip_rollbacks_def)
  moreover have "latest (skip_rollbacks vs futs) c = Some (c, w)" if "\<not> (futs < c \<and> write_type w = WTRollback)"
    using that c(2) by (auto simp: latest_Some skip_rollbacks_def)
  moreover have "latest (skip_rollbacks vs futs) c = (case ts_prev c of None \<Rightarrow> None | Some t' \<Rightarrow> latest (skip_rollbacks vs futs) t')"
    if "futs < c" "write_type w = WTRollback"
  proof -
    have "c \<noteq> 0" using that(1) by (metis word_not_simps(1))
    then obtain t' where t': "ts_prev c = Some t'" by (auto simp: ts_prev_def word_greater_zero_iff)
    have "skip_rollbacks vs futs c = None" using that c(2) by (simp add: skip_rollbacks_def)
    from latest_prev [where f = "skip_rollbacks vs futs", OF this t'] show ?thesis by (simp add: t')
  qed
  ultimately show ?thesis by simp
qed

lemma check_kind_pessimistic:
  assumes "tp_kind (pm_props m) = PessimisticTxn futs" "pm_pessimistic_action m \<noteq> DoConstraintCheck" "pm_key m = Key_from_raw u"
  shows "check_kind m w c =
    (if futs < c then
       (if write_type w = WTRollback then Inr True
        else Inl (PessimisticLockNotFound (tp_start_ts (pm_props m)) u NonLockKeyConflict))
     else Inr False)"
  using assms by (simp add: check_kind_def pessimistic_lock_not_found_def)

definition newer_verdict :: "prewrite_mutation \<Rightarrow> bytes \<Rightarrow> ts \<Rightarrow> (ts \<times> write_record) option \<Rightarrow> mvcc_error + (write_record \<times> ts) option" where
  "newer_verdict m u futs res =
     (case res of
        None \<Rightarrow> Inr None
      | Some (c, w) \<Rightarrow>
          if futs < c then Inl (PessimisticLockNotFound (tp_start_ts (pm_props m)) u NonLockKeyConflict)
          else if c = tp_start_ts (pm_props m) \<and> (write_type w = WTRollback \<or> has_overlapped_rollback w)
          then Inl (prewrite_conflict m u w c SelfRolledBack)
          else Inr (Some (w, c)))"

lemma newer_loop_pessimistic:
  assumes "wf_engine (sr_engine sr)" "prewritable sr u"
    and "pm_key m = Key_from_raw u" "tp_kind (pm_props m) = PessimisticTxn futs" "pm_pessimistic_action m \<noteq> DoConstraintCheck"
    and "\<not> pm_should_not_exist m" "tp_start_ts (pm_props m) \<le> futs"
  shows "res_bind (newer_version_loop sr t m) (\<lambda>(x, m'). Inr x) =
    newer_verdict m u futs (latest (skip_rollbacks (versions (sr_engine sr) u) futs) t)"
  using assms
proof (induction sr t m rule: newer_version_loop.induct)
  case (1 sr t m)
  let ?vs = "versions (sr_engine sr) u"
  note pre = "1.prems"
  have seek: "sr_seek_write sr (pm_key m) t = Inr (latest ?vs t)"
    by (simp add: pre(3) sr_seek_write_eq [OF pre(1)])
  show ?case
  proof (cases "latest ?vs t")
    case None
    then have "latest (skip_rollbacks ?vs futs) t = None"
      by (auto simp: latest_None skip_rollbacks_def)
    then show ?thesis
      by (simp add: newer_version_loop.simps [of sr t m] seek None newer_verdict_def)
  next
    case (Some cw)
    obtain c w where cw: "cw = (c, w)" by (cases cw)
    note skip = latest_skip_rollbacks [of ?vs, OF Some [unfolded cw], of futs]
    have vs: "?vs c = Some w" using Some by (simp add: cw latest_Some)
    show ?thesis
    proof (cases "c = tp_start_ts (pm_props m) \<and> (write_type w = WTRollback \<or> has_overlapped_rollback w)")
      case True
      then have "\<not> futs < c" using pre(7) by simp
      then show ?thesis
        using True by (simp add: newer_version_loop.simps [of sr t m] seek Some cw skip newer_verdict_def
            write_conflict_error_eq [OF pre(3)])
    next
      case self: False
      have pre': "wf_versions ?vs" "counts_ok sr u" "fences_clear ?vs (Some (sr_start_ts sr)) c"
        using pre(2) by (simp_all add: prewritable_def)
      obtain lc where lc: "next_last_change_info (Key_from_raw u) w (sr_start_ts sr) sr c = Inr lc"
        using next_last_change_points [OF pre(1) pre'(1,2) vs pre'(3)] by metis
      obtain m1 where m1: "(if t = ts_max then
          res_bind (next_last_change_info (pm_key m) w (sr_start_ts sr) sr c) (\<lambda>lc. Inr (m\<lparr>pm_last_change := lc\<rparr>))
          else Inr m) = Inr m1" and m1': "m1 = m \<or> m1 = m\<lparr>pm_last_change := lc\<rparr>"
        by (rule that [of "if t = ts_max then m\<lparr>pm_last_change := lc\<rparr> else m"]) (simp_all add: pre(3) lc)
      have f: "pm_key m1 = Key_from_raw u" "pm_props m1 = pm_props m" "pm_pessimistic_action m1 = pm_pessimistic_action m"
        "pm_should_not_exist m1 = pm_should_not_exist m"
        using m1' pre(3) by auto
      have verdict: "newer_verdict m1 u futs x = newer_verdict m u futs x" for x
        unfolding newer_verdict_def prewrite_conflict_def f(2) ..
      have kind: "check_kind m1 w c = (if futs < c then
         (if write_type w = WTRollback then Inr True
          else Inl (PessimisticLockNotFound (tp_start_ts (pm_props m)) u NonLockKeyConflict)) else Inr False)"
        using check_kind_pessimistic [of m1 futs u] pre(4,5) by (simp add: f)
      have eq: "newer_version_loop sr t m =
          (case check_kind m1 w c of
             Inl e \<Rightarrow> Inl e
           | Inr True \<Rightarrow> (case ts_prev c of None \<Rightarrow> Inl MPanic | Some t \<Rightarrow> newer_version_loop sr t m1)
           | Inr False \<Rightarrow>
               res_bind (check_data_constraint sr (pm_should_not_exist m1) w c (pm_key m1)) (\<lambda>_.
                 Inr (Some (w, c), m1)))"
        unfolding newer_version_loop.simps [of sr t m] seek Some cw sum.case option.case prod.case if_not_P [OF self] m1 ..
      show ?thesis
      proof (cases "futs < c \<and> write_type w = WTRollback")
        case True
        then have go: "check_kind m1 w c = Inr True" by (simp add: kind)
        have "c \<noteq> 0" using True by (metis word_not_simps(1))
        then obtain t' where t': "ts_prev c = Some t'" by (auto simp: ts_prev_def word_greater_zero_iff)
        have "res_bind (newer_version_loop sr t' m1) (\<lambda>(x, m'). Inr x) =
            newer_verdict m1 u futs (latest (skip_rollbacks ?vs futs) t')"
          using pre by (intro "1.IH" [OF seek Some cw [symmetric] self m1 go _ t']) (simp_all add: f)
        then show ?thesis
          using True by (simp add: eq go t' skip verdict)
      next
        case False
        have "check_kind m1 w c = (if futs < c then
            Inl (PessimisticLockNotFound (tp_start_ts (pm_props m)) u NonLockKeyConflict) else Inr False)"
          using kind False by auto
        then show ?thesis
          using False self pre(6)
          by (auto simp: eq skip if_not_P [OF False] newer_verdict_def check_data_constraint_def f(4))
      qed
    qed
  qed
qed

text \<open>C18: A retried prewrite of a pessimistic transaction looks past rollback records that are newer
  than its for update timestamp: the search ends, and it decides by the latest record that remains,
  whether the pessimistic lock was lost to a newer write, the transaction was rolled back, or the
  key may be written.\<close>

theorem newer_version_skips_rollbacks:
  assumes "wf_engine (sr_engine sr)" "prewritable sr u"
    and "pm_key m = Key_from_raw u" "tp_kind (pm_props m) = PessimisticTxn futs" "pm_pessimistic_action m \<noteq> DoConstraintCheck"
    and "\<not> pm_should_not_exist m" "tp_start_ts (pm_props m) \<le> futs"
  shows "res_bind (check_for_newer_version sr m) (\<lambda>(x, m'). Inr x) =
    (case latest (skip_rollbacks (versions (sr_engine sr) u) futs) ts_max of
       None \<Rightarrow> Inr None
     | Some (c, w) \<Rightarrow>
         if futs < c then Inl (PessimisticLockNotFound (tp_start_ts (pm_props m)) u NonLockKeyConflict)
         else if c = tp_start_ts (pm_props m) \<and> (write_type w = WTRollback \<or> has_overlapped_rollback w)
         then Inl (WriteConflict (tp_start_ts (pm_props m)) (write_start_ts w) c u (tp_primary (pm_props m)) SelfRolledBack)
         else Inr (Some (w, c)))"
  using newer_loop_pessimistic [OF assms, of ts_max]
  unfolding check_for_newer_version_def newer_verdict_def prewrite_conflict_def .

definition rollback_store :: engine where
  "rollback_store =
     map_cf_tree (tree_insert (append_ts (Key_from_raw [107]) 40) (Write_to_bytes (new_rollback 40 False))) CF_WRITE
       (map_cf_tree (tree_insert (append_ts (Key_from_raw [107]) 10)
         (Write_to_bytes (Write_new WTPut 5 (Some [42])))) CF_WRITE engine_new)"

definition rollback_snapshot :: snapshot_reader where
  "rollback_snapshot = SnapshotReader_new 30 \<lparr> snap_engine = rollback_store, snap_txn_ext = None \<rparr> False (\<lambda>_ _. 0)"

lemma versions_rollback_store:
  "versions rollback_store u t =
     (if u = [107] \<and> t = 40 then Some (new_rollback 40 False)
      else if u = [107] \<and> t = 10 then Some (Write_new WTPut 5 (Some [42]))
      else None)"
  by (simp add: rollback_store_def store_simps wf_sample_writes wf_new_rollback)

lemma rollback_snapshot_engine: "sr_engine rollback_snapshot = rollback_store"
  by (simp add: rollback_snapshot_def SnapshotReader_new_def MvccReader_new_def)

lemma wf_rollback_store: "wf_engine rollback_store"
  by (simp add: rollback_store_def wf_sample_writes wf_new_rollback)

lemma prewritable_rollback: "prewritable rollback_snapshot [107]"
  unfolding prewritable_def rollback_snapshot_engine
proof (intro conjI allI)
  show "wf_versions (versions rollback_store [107])"
    by (auto simp: wf_versions_def lc_ok_def versions_rollback_store new_rollback_def Write_new_def is_data_def)
  show "counts_ok rollback_snapshot [107]"
    by (auto simp: counts_ok_def rollback_snapshot_engine versions_rollback_store new_rollback_def Write_new_def
        rollback_snapshot_def SnapshotReader_new_def MvccReader_new_def split: if_splits)
  show "fences_clear (versions rollback_store [107]) (Some (sr_start_ts rollback_snapshot)) c" for c
    by (auto simp: fences_clear_def versions_rollback_store new_rollback_def Write_new_def is_data_def
        check_gc_fence_as_latest_version_def split: if_splits)
qed

lemma latest_rollback_skipped:
  "latest (skip_rollbacks (versions rollback_store [107]) 35) ts_max = Some (10, Write_new WTPut 5 (Some [42]))"
  unfolding latest_Some by (simp add: skip_rollbacks_def versions_rollback_store new_rollback_def Write_new_def)

theorem newer_version_skips_rollbacks_witness:
  "versions (sr_engine rollback_snapshot) [107] 40 = Some (new_rollback 40 False) \<and>
   (\<exists>m. from_mutation (MutPut (Key_from_raw [107]) [9] AssertionNone) None SkipPessimisticCheck
      (sample_props\<lparr>tp_kind := PessimisticTxn 35\<rparr>) = Inr m \<and>
    res_bind (check_for_newer_version rollback_snapshot m) (\<lambda>(x, m'). Inr x) =
      Inr (Some (Write_new WTPut 5 (Some [42]), 10)))"
proof -
  let ?p = "sample_props\<lparr>tp_kind := PessimisticTxn 35\<rparr>"
  obtain m where m: "from_mutation (MutPut (Key_from_raw [107]) [9] AssertionNone) None SkipPessimisticCheck ?p = Inr m"
    by (simp add: from_mutation_def)
  note f = from_mutation_fields [OF m]
  have pre: "wf_engine (sr_engine rollback_snapshot)" "prewritable rollback_snapshot [107]"
    "pm_key m = Key_from_raw [107]" "tp_kind (pm_props m) = PessimisticTxn 35" "pm_pessimistic_action m \<noteq> DoConstraintCheck"
    "\<not> pm_should_not_exist m" "tp_start_ts (pm_props m) \<le> 35"
    by (simp_all add: rollback_snapshot_engine wf_rollback_store prewritable_rollback f sample_props_def)
  have "res_bind (check_for_newer_version rollback_snapshot m) (\<lambda>(x, m'). Inr x) =
      Inr (Some (Write_new WTPut 5 (Some [42]), 10))"
    using newer_version_skips_rollbacks [OF pre]
    by (simp add: rollback_snapshot_engine latest_rollback_skipped f sample_props_def)
  with m show ?thesis by (auto simp: rollback_snapshot_engine versions_rollback_store)
qed

end
