(* ===== verification/Pessimistic_Lock.thy ===== *)
theory Pessimistic_Lock
  imports Prewrite_Action
begin

text \<open>
  Acquiring a pessimistic lock on one key, \<^verbatim>\<open>src/storage/txn/actions/acquire_pessimistic_lock.rs\<close>,
  with the result type of \<^verbatim>\<open>src/storage/types.rs\<close>.  The arguments of the action are a record.
\<close>

section \<open>The action\<close>

datatype pessimistic_lock_key_result =
    PlEmpty
  | PlValue "value_bytes option"
  | PlExistence bool
  | PlLockedWithConflict "value_bytes option" ts
  | PlWaiting
  | PlFailed mvcc_error

definition new_success ::
    "bool \<Rightarrow> bool \<Rightarrow> ts option \<Rightarrow> value_bytes option \<Rightarrow> pessimistic_lock_key_result" where
  "new_success need_value need_check_existence locked_with_conflict_ts val =
     (case locked_with_conflict_ts of
        Some conflict_ts \<Rightarrow> PlLockedWithConflict val conflict_ts
      | None \<Rightarrow>
          if need_value then PlValue val
          else if need_check_existence then PlExistence (val \<noteq> None)
          else PlEmpty)"

record pessimistic_request =
  pr_primary :: bytes
  pr_should_not_exist :: bool
  pr_lock_ttl :: u64
  pr_for_update_ts :: ts
  pr_need_value :: bool
  pr_need_check_existence :: bool
  pr_min_commit_ts :: ts
  pr_need_old_value :: bool
  pr_lock_only_if_exists :: bool
  pr_allow_lock_with_conflict :: bool

record conflict_info =
  conflict_start_ts :: ts
  conflict_commit_ts :: ts

definition into_write_conflict_error :: "conflict_info \<Rightarrow> ts \<Rightarrow> bytes \<Rightarrow> bytes \<Rightarrow> mvcc_error" where
  "into_write_conflict_error ci start_ts primary raw =
     WriteConflict start_ts (conflict_start_ts ci) (conflict_commit_ts ci) raw primary PessimisticRetry"

fun is_already_exist :: "mvcc_error \<Rightarrow> bool" where
  "is_already_exist (AlreadyExist k t) \<longleftrightarrow> True"
| "is_already_exist _ \<longleftrightarrow> False"

definition load_old_value ::
    "bool \<Rightarrow> bool \<Rightarrow> value_bytes option \<Rightarrow> snapshot_reader \<Rightarrow> key \<Rightarrow> ts \<Rightarrow> bool \<Rightarrow> write_record option \<Rightarrow>
     mvcc_error + old_value" where
  "load_old_value need_old_value value_loaded val sr k for_update_ts prev_write_loaded prev_write =
     (if \<not> need_old_value then Inr OldValueUnspecified
      else if value_loaded then Inr (case val of Some v \<Rightarrow> OldValue v | None \<Rightarrow> OldValueNone)
      else sr_get_old_value sr k for_update_ts prev_write_loaded prev_write)"

text \<open>The key is locked by the same transaction already.\<close>

definition locked_value ::
    "snapshot_reader \<Rightarrow> key \<Rightarrow> pessimistic_request \<Rightarrow> ts \<Rightarrow> bool \<Rightarrow> mvcc_error + value_bytes option" where
  "locked_value sr k rq for_update_ts need_load_value =
     (if need_load_value \<or> pr_need_check_existence rq \<or> pr_should_not_exist rq then
        res_bind (sr_get_write_with_commit_ts sr k for_update_ts) (\<lambda>wr.
          case wr of
            None \<Rightarrow> Inr None
          | Some (w, commit_ts) \<Rightarrow>
              res_bind
                (case check_data_constraint sr (pr_should_not_exist rq) w commit_ts k of
                   Inl e \<Rightarrow>
                     if is_already_exist e \<and> pr_for_update_ts rq < commit_ts then
                       try_codec (Key_to_raw k) (\<lambda>raw.
                         Inl (into_write_conflict_error
                           \<lparr> conflict_start_ts = write_start_ts w, conflict_commit_ts = commit_ts \<rparr>
                           (sr_start_ts sr) (pr_primary rq) raw))
                     else Inl e
                 | Inr _ \<Rightarrow> Inr ()) (\<lambda>_.
                if need_load_value then res_bind (sr_load_data sr k w) (\<lambda>v. Inr (Some v))
                else if pr_need_check_existence rq then Inr (Some [])
                else Inr None))
      else Inr None)"

definition acquire_on_own_lock ::
    "snapshot_reader \<Rightarrow> key \<Rightarrow> pessimistic_request \<Rightarrow> bool \<Rightarrow> lock \<Rightarrow>
     (pessimistic_lock_key_result \<times> old_value) action" where
  "acquire_on_own_lock sr k rq need_load_value0 l txn =
     (let conflict = pr_allow_lock_with_conflict rq \<and> pr_for_update_ts rq < lock_for_update_ts l;
          need_load_value = (need_load_value0 \<or> conflict);
          for_update_ts = (if conflict then lock_for_update_ts l else pr_for_update_ts rq);
          locked_with_conflict_ts = (if conflict then Some (lock_for_update_ts l) else None) in
      st_bind (locked_value sr k rq for_update_ts need_load_value, txn) (\<lambda>val txn.
      st_bind (load_old_value (pr_need_old_value rq) need_load_value val sr k for_update_ts False None, txn)
        (\<lambda>old_value txn.
      st_bind
        (if lock_for_update_ts l < for_update_ts then
           put_pessimistic_lock k
             \<lparr> pl_primary = pr_primary rq, pl_start_ts = sr_start_ts sr, pl_ttl = pr_lock_ttl rq,
               pl_for_update_ts = for_update_ts, pl_min_commit_ts = pr_min_commit_ts rq,
               pl_last_change = lock_last_change l,
               pl_is_locked_with_conflict = is_pessimistic_lock_with_conflict l \<rparr> False txn
         else (Inr (), txn)) (\<lambda>_ txn.
        (Inr (new_success (pr_need_value rq) (pr_need_check_existence rq) locked_with_conflict_ts val, old_value), txn)))))"

text \<open>The key is not locked.\<close>

definition own_rollback :: "snapshot_reader \<Rightarrow> ts \<Rightarrow> write_record \<Rightarrow> bool" where
  "own_rollback sr commit_ts w \<longleftrightarrow>
     commit_ts = sr_start_ts sr \<and> (write_type w = WTRollback \<or> has_overlapped_rollback w)"

definition check_rolled_back :: "snapshot_reader \<Rightarrow> key \<Rightarrow> ts \<Rightarrow> write_record \<Rightarrow> mvcc_error + unit" where
  "check_rolled_back sr k commit_ts w =
     (let rolled_back = try_codec (Key_into_raw k) (\<lambda>raw. Inl (PessimisticLockRolledBack (sr_start_ts sr) raw)) in
      if own_rollback sr commit_ts w then
        (if has_overlapped_rollback w \<or> write_start_ts w = commit_ts then rolled_back else Inl MPanic)
      else if sr_start_ts sr < commit_ts then
        res_bind (sr_seek_write sr k (sr_start_ts sr)) (\<lambda>older.
          case older of
            Some (older_commit_ts, older_write) \<Rightarrow>
              if own_rollback sr older_commit_ts older_write then rolled_back else Inr ()
          | None \<Rightarrow> Inr ())
      else Inr ())"

definition latest_value ::
    "snapshot_reader \<Rightarrow> key \<Rightarrow> ts \<Rightarrow> write_record \<Rightarrow> bool \<Rightarrow> mvcc_error + value_bytes option" where
  "latest_value sr k commit_ts w need_load_value =
     (case write_type w of
        WTPut \<Rightarrow>
          if check_gc_fence_as_latest_version w (sr_start_ts sr) then
            (if need_load_value then res_bind (sr_load_data sr k w) (\<lambda>v. Inr (Some v)) else Inr (Some []))
          else Inr None
      | WTDelete \<Rightarrow> Inr None
      | _ \<Rightarrow>
          res_bind (unwrap (ts_prev commit_ts)) (\<lambda>t.
            if need_load_value then sr_get sr k t
            else res_bind (sr_get_write sr k t) (\<lambda>res. Inr (map_option (\<lambda>_. []) res))))"

text \<open>
  What the latest record of the key decides: the conflict, the for update timestamp, whether the
  value is loaded, the pointer to the last change, the value and the record for the old value.
\<close>

definition check_latest ::
    "snapshot_reader \<Rightarrow> ts \<Rightarrow> key \<Rightarrow> pessimistic_request \<Rightarrow> bool \<Rightarrow> ts \<Rightarrow> write_record \<Rightarrow>
     mvcc_error + conflict_info option \<times> last_change \<times> value_bytes option" where
  "check_latest sr txn_ts k rq need_load_value0 commit_ts w =
     (let newer = pr_for_update_ts rq < commit_ts;
          info = \<lparr> conflict_start_ts = write_start_ts w, conflict_commit_ts = commit_ts \<rparr>;
          ci = (if newer then Some info else None);
          need_load_value = (need_load_value0 \<or> newer) in
      if newer \<and> \<not> pr_allow_lock_with_conflict rq then
        try_codec (Key_into_raw k) (\<lambda>raw. Inl (into_write_conflict_error info (sr_start_ts sr) (pr_primary rq) raw))
      else
        res_bind (check_rolled_back sr k commit_ts w) (\<lambda>_.
        res_bind
          (case check_data_constraint sr (pr_should_not_exist rq) w commit_ts k of
             Inl e \<Rightarrow>
               if is_already_exist e \<and> newer then
                 try_codec (Key_to_raw k) (\<lambda>raw. Inl (into_write_conflict_error info (sr_start_ts sr) (pr_primary rq) raw))
               else Inl e
           | Inr _ \<Rightarrow> Inr ()) (\<lambda>_.
        res_bind (next_last_change_info k w txn_ts sr commit_ts) (\<lambda>lc.
        res_bind
          (if pr_need_value rq \<or> pr_need_check_existence rq \<or> newer then latest_value sr k commit_ts w need_load_value
           else Inr None) (\<lambda>val.
          Inr (ci, lc, val))))))"

definition acquire_new_lock ::
    "txn_env \<Rightarrow> snapshot_reader \<Rightarrow> key \<Rightarrow> pessimistic_request \<Rightarrow> bool \<Rightarrow>
     (pessimistic_lock_key_result \<times> old_value) action" where
  "acquire_new_lock env sr k rq need_load_value0 txn =
     st_bind (sr_seek_write sr k ts_max, txn) (\<lambda>seek txn.
     st_bind
       (case seek of
          Some (commit_ts, w) \<Rightarrow> check_latest sr (txn_start_ts txn) k rq need_load_value0 commit_ts w
        | None \<Rightarrow> Inr (None, LCNotExist, None), txn) (\<lambda>(ci, lc, val) txn.
     let prev_write = (if pr_need_old_value rq then map_option snd seek else None);
         for_update_ts = (case ci of Some info \<Rightarrow> conflict_commit_ts info | None \<Rightarrow> pr_for_update_ts rq);
         need_load_value = (need_load_value0 \<or> ci \<noteq> None);
         last_change = (if env_last_change env then lc else LCUnknown) in
     st_bind (load_old_value (pr_need_old_value rq) need_load_value val sr k for_update_ts True prev_write, txn)
       (\<lambda>old_value txn.
     st_bind
       (if \<not> pr_lock_only_if_exists rq \<or> val \<noteq> None then
          put_pessimistic_lock k
            \<lparr> pl_primary = pr_primary rq, pl_start_ts = sr_start_ts sr, pl_ttl = pr_lock_ttl rq,
              pl_for_update_ts = for_update_ts, pl_min_commit_ts = pr_min_commit_ts rq,
              pl_last_change = last_change, pl_is_locked_with_conflict = (ci \<noteq> None) \<rparr> True txn
        else
          (case ci of
             Some info \<Rightarrow>
               (try_codec (Key_into_raw k) (\<lambda>raw.
                  Inl (into_write_conflict_error info (sr_start_ts sr) (pr_primary rq) raw)), txn)
           | None \<Rightarrow> (Inr (), txn))) (\<lambda>_ txn.
       (Inr (new_success (pr_need_value rq) (pr_need_check_existence rq) (map_option conflict_commit_ts ci) val,
          old_value), txn)))))"

definition acquire_pessimistic_lock ::
    "txn_env \<Rightarrow> snapshot_reader \<Rightarrow> key \<Rightarrow> pessimistic_request \<Rightarrow> (pessimistic_lock_key_result \<times> old_value) action" where
  "acquire_pessimistic_lock env sr k rq txn =
     (if pr_lock_only_if_exists rq \<and> \<not> pr_need_value rq then
        (try_codec (Key_into_raw k) (\<lambda>raw. Inl (LockIfExistsFailed (sr_start_ts sr) raw)), txn)
      else
        st_bind
          (if pr_should_not_exist rq \<or> pr_need_value rq \<or> pr_need_check_existence rq
           then on_cm (update_max_ts (env_now env) (env_tso env) (pr_for_update_ts rq)) txn
           else (Inr (), txn)) (\<lambda>_ txn.
        let need_load_value = (pr_need_value rq \<or> (pr_need_check_existence rq \<and> pr_need_old_value rq)) in
        st_bind (sr_load_lock sr k, txn) (\<lambda>lk txn.
          case lk of
            Some l \<Rightarrow>
              if lock_ts l \<noteq> sr_start_ts sr then
                (try_codec (Key_into_raw k) (\<lambda>raw. Inl (KeyIsLocked (into_lock_info l raw))), txn)
              else if \<not> is_pessimistic_lock l then
                (try_codec (Key_into_raw k) (\<lambda>raw. Inl (LockTypeNotMatch (sr_start_ts sr) raw False)), txn)
              else acquire_on_own_lock sr k rq need_load_value l txn
          | None \<Rightarrow> acquire_new_lock env sr k rq need_load_value txn)))"

section \<open>What the checks decide\<close>

lemma next_last_change_wf:
  assumes "next_last_change_info k w s sr c = Inr lc"
  shows "wf_last_change lc"
proof -
  have exist: "make_exist t n = Inr lc' \<Longrightarrow> wf_last_change lc'" for t n lc'
    by (auto simp: make_exist_def is_zero_def split: if_splits)
  have *: "res_map_err from_codec_error (make_exist t n) = Inr lc \<Longrightarrow> wf_last_change lc" for t n
    using exist by (cases "make_exist t n") auto
  show ?thesis
    using assms * unfolding next_last_change_info_def Let_def
    by (auto split: if_splits last_change.splits option.splits elim!: res_bind_Inr)
qed

lemma check_rolled_back_Inr:
  assumes "wf_engine (sr_engine sr)" "records_ok (versions (sr_engine sr) u)"
    and "latest (versions (sr_engine sr) u) ts_max = Some (c, w)" "check_rolled_back sr (Key_from_raw u) c w = Inr ()"
  shows "\<not> rolled_back (versions (sr_engine sr) u) (sr_start_ts sr)"
proof
  let ?vs = "versions (sr_engine sr) u" and ?s = "sr_start_ts sr"
  assume rb: "rolled_back ?vs ?s"
  have c: "?vs c = Some w" using assms(3) by (simp add: latest_Some)
  have no: "\<not> own_rollback sr c w" using assms(4) by (auto simp: check_rolled_back_def Let_def split: if_splits)
  obtain w' where w': "?vs ?s = Some w'" "write_type w' = WTRollback \<or> has_overlapped_rollback w'"
  proof (cases "commit_record ?vs ?s")
    case (SingleRecord c' w')
    then have own: "?vs c' = Some w'" "write_start_ts w' = ?s" "write_type w' = WTRollback"
      using rb by (auto simp: rolled_back_def commit_record_def latest_Some own_Some split: option.splits if_splits)
    then have "c' = ?s" using records_okD(2) [OF assms(2) own(1)] by simp
    then show ?thesis using that own by simp
  next
    case (OverlappedRollback c')
    then show ?thesis
      using that by (auto simp: commit_record_def split: option.splits if_splits)
  qed (use rb in \<open>simp add: rolled_back_def\<close>)
  have "?s \<le> c" by (rule latest_max [OF assms(3) w'(1)])
  moreover have "c \<noteq> ?s" using no w' c by (auto simp: own_rollback_def)
  ultimately have less: "?s < c" by simp
  have "latest ?vs ?s = Some (?s, w')" using w'(1) by (auto simp: latest_Some)
  then have "sr_seek_write sr (Key_from_raw u) ?s = Inr (Some (?s, w'))"
    by (simp add: sr_seek_write_eq [OF assms(1)])
  then show False
    using assms(4) no less w'(2) by (auto simp: check_rolled_back_def Let_def own_rollback_def)
qed

lemma visible_latest:
  assumes "latest vs ts_max = Some (c, w)"
  shows "visible vs l ts_max = visible vs l c"
  by (rule visible_eq) (rule latest_data_at [OF assms])

lemma latest_value_eq:
  assumes "wf_engine (sr_engine sr)" "prewritable sr u" "values_ok (sr_engine sr) u"
    and "latest (versions (sr_engine sr) u) ts_max = Some (c, w)"
  shows "latest_value sr (Key_from_raw u) c w True = Inr (read_value (sr_engine sr) u (Some (sr_start_ts sr)) ts_max)"
proof -
  let ?e = "sr_engine sr" and ?s = "sr_start_ts sr"
  let ?vs = "versions ?e u"
  have c: "?vs c = Some w" using assms(4) by (simp add: latest_Some)
  have wfv: "wf_versions ?vs" and fences: "\<And>t. fences_clear ?vs (Some ?s) t"
    using assms(2) by (simp_all add: prewritable_def)
  have read: "read_value ?e u (Some ?s) ts_max = read_value ?e u (Some ?s) c"
    by (simp add: read_value_def visible_latest [OF assms(4)])
  show ?thesis
  proof (cases "is_data w")
    case True
    have vis: "visible ?vs (Some ?s) c = (if write_type w = WTPut \<and> check_gc_fence_as_latest_version w ?s then Some (w, c) else None)"
      by (simp add: visible_def latest_data_self [where vs = ?vs, OF c True])
    show ?thesis
    proof (cases "write_type w = WTPut")
      case put: True
      obtain v where v: "load_data (sr_reader sr) (Key_from_raw u) w = Inr v"
        "(case write_short_value w of Some v \<Rightarrow> Some v | None \<Rightarrow> value_of ?e u (write_start_ts w)) = Some v"
        using load_data_eq [OF assms(3) c put] by blast
      then show ?thesis
        unfolding read unfolding read_value_def vis by (simp add: latest_value_def put sr_load_data_def)
    next
      case False
      then have "write_type w = WTDelete" using True by (auto simp: is_data_def)
      then show ?thesis unfolding read unfolding read_value_def vis by (simp add: latest_value_def)
    qed
  next
    case False
    have "c \<noteq> 0" using c wfv by (auto simp: wf_versions_def)
    then obtain t where t: "ts_prev c = Some t" by (auto simp: ts_prev_def word_greater_zero_iff)
    have "data ?vs c = None" using c False by (simp add: data_def)
    then have "latest (data ?vs) c = latest (data ?vs) t" by (rule latest_prev [where f = "data ?vs", OF _ t])
    then have eq: "visible ?vs (Some ?s) c = visible ?vs (Some ?s) t" by (rule visible_eq)
    have get: "sr_get sr (Key_from_raw u) t = Inr (read_value ?e u (Some ?s) t)"
      unfolding sr_get_def using assms(1,3) wfv fences by (intro reader_get_eq) simp_all
    have "latest_value sr (Key_from_raw u) c w True = Inr (read_value ?e u (Some ?s) t)"
      using False by (cases "write_type w") (simp_all add: latest_value_def t get is_data_def)
    then show ?thesis unfolding read unfolding read_value_def eq .
  qed
qed

lemma put_pessimistic_lock_pushes:
  assumes "wf_lock (PessimisticLock_to_lock p)"
  obtains txn' where "put_pessimistic_lock (Key_from_raw u) p is_new txn = (Inr (), txn')"
    "pushes u txn [PutPessimisticLock p] txn'"
  using assms by (cases is_new) (auto simp: put_pessimistic_lock_def push_new_lock_def pushes_def)

lemma PessimisticLock_to_lock_fields [simp]:
  "lock_type (PessimisticLock_to_lock p) = LTPessimistic"
  "lock_ts (PessimisticLock_to_lock p) = pl_start_ts p"
  "lock_for_update_ts (PessimisticLock_to_lock p) = pl_for_update_ts p"
  "lock_primary (PessimisticLock_to_lock p) = pl_primary p"
  "lock_min_commit_ts (PessimisticLock_to_lock p) = pl_min_commit_ts p"
  "lock_last_change (PessimisticLock_to_lock p) = pl_last_change p"
  by (simp_all add: PessimisticLock_to_lock_def Lock_new_def)

lemma wf_pessimistic_lock:
  "length (pl_primary p) < 2 ^ 64 \<Longrightarrow> wf_last_change (pl_last_change p) \<Longrightarrow> wf_lock (PessimisticLock_to_lock p)"
  by (simp add: wf_lock_def PessimisticLock_to_lock_def Lock_new_def)

lemma check_latest_Inr:
  assumes "check_latest sr ts0 (Key_from_raw u) rq nl c w = Inr (ci, lc, val)"
  shows "check_rolled_back sr (Key_from_raw u) c w = Inr ()" "wf_last_change lc"
    and "ci = (if pr_for_update_ts rq < c then Some \<lparr> conflict_start_ts = write_start_ts w, conflict_commit_ts = c \<rparr> else None)"
    and "pr_for_update_ts rq < c \<longrightarrow> pr_allow_lock_with_conflict rq"
    and "pr_need_value rq \<Longrightarrow> nl \<Longrightarrow> latest_value sr (Key_from_raw u) c w True = Inr val"
proof -
  note eq = assms [unfolded check_latest_def Let_def]
  show allow: "pr_for_update_ts rq < c \<longrightarrow> pr_allow_lock_with_conflict rq"
    using eq by (auto split: if_splits)
  then have "\<not> (pr_for_update_ts rq < c \<and> \<not> pr_allow_lock_with_conflict rq)" by simp
  note eq = eq [unfolded if_not_P [OF this]]
  obtain lc0 where *: "check_rolled_back sr (Key_from_raw u) c w = Inr ()"
    "next_last_change_info (Key_from_raw u) w ts0 sr c = Inr lc0"
    "(if pr_need_value rq \<or> pr_need_check_existence rq \<or> pr_for_update_ts rq < c
      then latest_value sr (Key_from_raw u) c w (nl \<or> pr_for_update_ts rq < c) else Inr None) = Inr val"
    "ci = (if pr_for_update_ts rq < c then Some \<lparr> conflict_start_ts = write_start_ts w, conflict_commit_ts = c \<rparr> else None)"
    "lc0 = lc"
    using eq by (elim res_bind_Inr) simp
  show "check_rolled_back sr (Key_from_raw u) c w = Inr ()" by (rule *(1))
  show "wf_last_change lc" using next_last_change_wf *(2,5) by blast
  show "ci = (if pr_for_update_ts rq < c then Some \<lparr> conflict_start_ts = write_start_ts w, conflict_commit_ts = c \<rparr> else None)"
    by (rule *(4))
  show "latest_value sr (Key_from_raw u) c w True = Inr val" if "pr_need_value rq" "nl"
    using *(3) that by simp
qed

lemma check_seek_facts:
  fixes sr u
  defines "vs \<equiv> versions (sr_engine sr) u"
  assumes "wf_engine (sr_engine sr)" "records_ok vs"
    and ck: "(case latest vs ts_max of
        Some (commit_ts, w) \<Rightarrow> check_latest sr t0 (Key_from_raw u) rq nl commit_ts w
      | None \<Rightarrow> Inr (None, LCNotExist, None)) = Inr (ci, lc, val)"
  shows "wf_last_change lc \<and> \<not> rolled_back vs (sr_start_ts sr) \<and>
    (\<forall>c w. vs c = Some w \<longrightarrow> c \<le> (case ci of Some info \<Rightarrow> conflict_commit_ts info | None \<Rightarrow> pr_for_update_ts rq)) \<and>
    (\<forall>info. ci = Some info \<longrightarrow> pr_for_update_ts rq < conflict_commit_ts info) \<and>
    (pr_need_value rq \<longrightarrow> nl \<longrightarrow> prewritable sr u \<longrightarrow> values_ok (sr_engine sr) u \<longrightarrow>
       val = read_value (sr_engine sr) u (Some (sr_start_ts sr)) ts_max)"
proof (cases "latest vs ts_max")
  case None
  then have none: "vs c = None" for c using latest_None [of vs ts_max] by simp
  have ci: "ci = None" "lc = LCNotExist" "val = None" using ck None by simp_all
  have "own vs (sr_start_ts sr) c = None" "data vs c = None" for c by (simp_all add: own_def data_def none)
  then have "latest (own vs (sr_start_ts sr)) ts_max = None" "latest (data vs) ts_max = None" by (simp_all add: latest_None)
  then have "\<not> rolled_back vs (sr_start_ts sr)" "read_value (sr_engine sr) u (Some (sr_start_ts sr)) ts_max = None"
    by (simp_all add: rolled_back_def commit_record_def none read_value_def visible_def vs_def [symmetric])
  note read = this
  show ?thesis
  proof (intro conjI allI impI)
    show "wf_last_change lc" by (simp add: ci)
    show "\<not> rolled_back vs (sr_start_ts sr)" by (rule read(1))
    show "c' \<le> (case ci of Some info \<Rightarrow> conflict_commit_ts info | None \<Rightarrow> pr_for_update_ts rq)"
      if "vs c' = Some w'" for c' w' using that by (simp add: none)
    show "pr_for_update_ts rq < conflict_commit_ts info" if "ci = Some info" for info using that by (simp add: ci)
    show "val = read_value (sr_engine sr) u (Some (sr_start_ts sr)) ts_max" by (simp add: ci read(2))
  qed
next
  case (Some cw)
  obtain c w where cw: "cw = (c, w)" by (cases cw)
  have l: "latest vs ts_max = Some (c, w)" using Some by (simp add: cw)
  note cl = check_latest_Inr [OF ck [unfolded Some cw option.case prod.case]]
  show ?thesis
  proof (intro conjI allI impI)
    show "wf_last_change lc" by (rule cl(2))
    show "\<not> rolled_back vs (sr_start_ts sr)" by (rule check_rolled_back_Inr [OF assms(2) assms(3) [unfolded vs_def] l [unfolded vs_def] cl(1), folded vs_def])
    show "c' \<le> (case ci of Some info \<Rightarrow> conflict_commit_ts info | None \<Rightarrow> pr_for_update_ts rq)"
      if "vs c' = Some w'" for c' w'
      using latest_max [OF l that] cl(3) by (auto intro: order.trans)
    show "pr_for_update_ts rq < conflict_commit_ts info" if "ci = Some info" for info
      using cl(3) that by (auto split: if_splits)
    show "val = read_value (sr_engine sr) u (Some (sr_start_ts sr)) ts_max"
      if "pr_need_value rq" nl "prewritable sr u" "values_ok (sr_engine sr) u"
      using cl(5) [OF that(1,2)] latest_value_eq [OF assms(2) that(3,4) l [unfolded vs_def]] by simp
  qed
qed

lemma acquire_new_success:
  assumes "wf_engine (sr_engine sr)" "records_ok (versions (sr_engine sr) u)" "length (pr_primary rq) < 2 ^ 64"
    and "\<not> pr_lock_only_if_exists rq"
    and "acquire_new_lock env sr (Key_from_raw u) rq nl txn = (Inr (res, ov), txn')"
  obtains p conflict val where "pushes u txn [PutPessimisticLock p] txn'"
    "pl_start_ts p = sr_start_ts sr" "pl_primary p = pr_primary rq" "pr_for_update_ts rq \<le> pl_for_update_ts p"
    "\<And>c w. versions (sr_engine sr) u c = Some w \<Longrightarrow> c \<le> pl_for_update_ts p"
    "\<not> rolled_back (versions (sr_engine sr) u) (sr_start_ts sr)"
    "res = new_success (pr_need_value rq) (pr_need_check_existence rq) conflict val"
    "conflict = (if pl_for_update_ts p = pr_for_update_ts rq then None else Some (pl_for_update_ts p))"
    "pr_need_value rq \<Longrightarrow> nl \<Longrightarrow> prewritable sr u \<Longrightarrow> values_ok (sr_engine sr) u \<Longrightarrow>
       val = read_value (sr_engine sr) u (Some (sr_start_ts sr)) ts_max"
proof -
  let ?vs = "versions (sr_engine sr) u" and ?s = "sr_start_ts sr"
  define seek where "seek = latest ?vs ts_max"
  have sk: "sr_seek_write sr (Key_from_raw u) ts_max = Inr seek"
    by (simp add: seek_def sr_seek_write_eq [OF assms(1)])
  define check where "check = (case seek of
      Some (commit_ts, w) \<Rightarrow> check_latest sr (txn_start_ts txn) (Key_from_raw u) rq nl commit_ts w
    | None \<Rightarrow> Inr (None, LCNotExist, None))"
  note eq = assms(5) [unfolded acquire_new_lock_def sk st_bind_Pair sum.case check_def [symmetric]]
  obtain ci lc val where ck: "check = Inr (ci, lc, val)" using eq by (cases check) auto
  have facts: "wf_last_change lc" "\<not> rolled_back ?vs ?s"
    "\<And>c w. ?vs c = Some w \<Longrightarrow> c \<le> (case ci of Some info \<Rightarrow> conflict_commit_ts info | None \<Rightarrow> pr_for_update_ts rq)"
    "\<And>info. ci = Some info \<Longrightarrow> pr_for_update_ts rq < conflict_commit_ts info"
    "pr_need_value rq \<Longrightarrow> nl \<Longrightarrow> prewritable sr u \<Longrightarrow> values_ok (sr_engine sr) u \<Longrightarrow>
       val = read_value (sr_engine sr) u (Some ?s) ts_max"
    using check_seek_facts [OF assms(1,2) ck [unfolded check_def seek_def]] by blast+
  define p where "p = \<lparr> pl_primary = pr_primary rq, pl_start_ts = ?s, pl_ttl = pr_lock_ttl rq,
      pl_for_update_ts = (case ci of Some info \<Rightarrow> conflict_commit_ts info | None \<Rightarrow> pr_for_update_ts rq),
      pl_min_commit_ts = pr_min_commit_ts rq, pl_last_change = (if env_last_change env then lc else LCUnknown),
      pl_is_locked_with_conflict = (ci \<noteq> None) \<rparr>"
  have wf: "wf_lock (PessimisticLock_to_lock p)"
    using assms(3) facts(1) by (intro wf_pessimistic_lock) (simp_all add: p_def)
  note eq = eq [unfolded ck sum.case prod.case Let_def st_bind_Pair, folded p_def]
  obtain ov' where ov: "load_old_value (pr_need_old_value rq) (nl \<or> ci \<noteq> None) val sr (Key_from_raw u)
      (case ci of Some info \<Rightarrow> conflict_commit_ts info | None \<Rightarrow> pr_for_update_ts rq) True
      (if pr_need_old_value rq then map_option snd seek else None) = Inr ov'"
    using eq by (auto split: sum.splits)
  obtain txn2 where put: "put_pessimistic_lock (Key_from_raw u) p True txn = (Inr (), txn2)"
    "pushes u txn [PutPessimisticLock p] txn2"
    by (rule put_pessimistic_lock_pushes [OF wf])
  have res: "res = new_success (pr_need_value rq) (pr_need_check_existence rq) (map_option conflict_commit_ts ci) val" "txn' = txn2"
    using eq [unfolded ov sum.case] assms(4) by (simp_all add: put(1))
  show ?thesis
  proof (rule that [of p "map_option conflict_commit_ts ci" val])
    show "pushes u txn [PutPessimisticLock p] txn'" using put(2) res(2) by simp
    show "pl_start_ts p = ?s" "pl_primary p = pr_primary rq" by (simp_all add: p_def)
    show "pr_for_update_ts rq \<le> pl_for_update_ts p"
      using facts(4) by (cases ci) (auto simp: p_def intro: less_imp_le)
    show "c \<le> pl_for_update_ts p" if "?vs c = Some w" for c w using facts(3) [OF that] by (simp add: p_def)
    show "map_option conflict_commit_ts ci = (if pl_for_update_ts p = pr_for_update_ts rq then None else Some (pl_for_update_ts p))"
      using facts(4) by (cases ci) (auto simp: p_def)
  qed (use facts(2,5) res(1) in simp_all)
qed

section \<open>Properties\<close>

lemma acquire_steps:
  assumes "wf_engine (sr_engine sr)" "plain_reader sr" "lock_of (sr_engine sr) u = None"
    and "\<not> pr_lock_only_if_exists rq"
    and "acquire_pessimistic_lock env sr (Key_from_raw u) rq txn = (Inr x, txn')"
  obtains cm' where "acquire_new_lock env sr (Key_from_raw u) rq
      (pr_need_value rq \<or> (pr_need_check_existence rq \<and> pr_need_old_value rq)) (txn\<lparr>txn_cm := cm'\<rparr>) = (Inr x, txn')"
proof -
  have lk: "sr_load_lock sr (Key_from_raw u) = Inr None"
    by (simp add: load_lock_plain [OF assms(1,2)] assms(3))
  have same: "txn = txn\<lparr>txn_cm := txn_cm txn\<rparr>" by simp
  show ?thesis
  proof (cases "pr_should_not_exist rq \<or> pr_need_value rq \<or> pr_need_check_existence rq")
    case True
    obtain r cm' where u: "update_max_ts (env_now env) (env_tso env) (pr_for_update_ts rq) (txn_cm txn) = (r, cm')" by force
    show ?thesis
      using assms(4,5) True that [of cm']
      by (cases r) (simp_all add: acquire_pessimistic_lock_def on_cm_def u lk Let_def)
  next
    case False
    then show ?thesis
      using assms(4,5) that [of "txn_cm txn"]
      by (simp add: acquire_pessimistic_lock_def lk Let_def)
  qed
qed

lemma acquire_success:
  assumes "wf_engine (sr_engine sr)" "plain_reader sr" "records_ok (versions (sr_engine sr) u)"
    and "lock_of (sr_engine sr) u = None" "length (pr_primary rq) < 2 ^ 64" "\<not> pr_lock_only_if_exists rq"
    and run: "run_action sr cm (\<lambda>sr. acquire_pessimistic_lock env sr (Key_from_raw u) rq) = Inr ((res, ov), e')"
  obtains p conflict val where "key_state_of e' u = (key_state_of (sr_engine sr) u)\<lparr>ks_lock := Some (PessimisticLock_to_lock p)\<rparr>"
    "\<And>u'. u' \<noteq> u \<Longrightarrow> key_state_of e' u' = key_state_of (sr_engine sr) u'"
    "pl_start_ts p = sr_start_ts sr" "pr_for_update_ts rq \<le> pl_for_update_ts p"
    "\<And>c w. versions (sr_engine sr) u c = Some w \<Longrightarrow> c \<le> pl_for_update_ts p"
    "\<not> rolled_back (versions (sr_engine sr) u) (sr_start_ts sr)"
    "res = new_success (pr_need_value rq) (pr_need_check_existence rq) conflict val"
    "conflict = (if pl_for_update_ts p = pr_for_update_ts rq then None else Some (pl_for_update_ts p))"
    "pr_need_value rq \<Longrightarrow> prewritable sr u \<Longrightarrow> values_ok (sr_engine sr) u \<Longrightarrow>
       val = read_value (sr_engine sr) u (Some (sr_start_ts sr)) ts_max"
proof -
  let ?txn = "MvccTxn_new (sr_start_ts sr) cm"
  let ?nl = "pr_need_value rq \<or> (pr_need_check_existence rq \<and> pr_need_old_value rq)"
  obtain txn' where a: "acquire_pessimistic_lock env sr (Key_from_raw u) rq ?txn = (Inr (res, ov), txn')"
    by (rule run_action_InrD [OF run])
  obtain cm' where n: "acquire_new_lock env sr (Key_from_raw u) rq ?nl (?txn\<lparr>txn_cm := cm'\<rparr>) = (Inr (res, ov), txn')"
    by (rule acquire_steps [OF assms(1,2,4,6) a])
  obtain p conflict val where p: "pushes u (?txn\<lparr>txn_cm := cm'\<rparr>) [PutPessimisticLock p] txn'"
    "pl_start_ts p = sr_start_ts sr" "pr_for_update_ts rq \<le> pl_for_update_ts p"
    "\<And>c w. versions (sr_engine sr) u c = Some w \<Longrightarrow> c \<le> pl_for_update_ts p"
    "\<not> rolled_back (versions (sr_engine sr) u) (sr_start_ts sr)"
    "res = new_success (pr_need_value rq) (pr_need_check_existence rq) conflict val"
    "conflict = (if pl_for_update_ts p = pr_for_update_ts rq then None else Some (pl_for_update_ts p))"
    "pr_need_value rq \<Longrightarrow> ?nl \<Longrightarrow> prewritable sr u \<Longrightarrow> values_ok (sr_engine sr) u \<Longrightarrow>
       val = read_value (sr_engine sr) u (Some (sr_start_ts sr)) ts_max"
    by (rule acquire_new_success [OF assms(1,3,5,6) n]) blast
  have push: "pushes u ?txn [PutPessimisticLock p] txn'" using p(1) by (simp add: pushes_def)
  note ok = run_action_success [where act = "\<lambda>sr. acquire_pessimistic_lock env sr (Key_from_raw u) rq", OF assms(1) run a push]
  show ?thesis
    by (rule that [OF _ _ p(2-7)]) (use ok(3,4) p(8) in simp_all)
qed

text \<open>C5: Pessimistic locks.  When a transaction gets the lock of an unlocked key, the lock's for update
  timestamp is at or above every record of the key, the transaction is not rolled back there, only
  the lock is written, and the value returned with the lock is the latest committed one; if the
  lock was taken over a newer write, the result says so with its timestamp.\<close>

theorem pessimistic_lock_acquired:
  assumes "wf_engine (sr_engine sr)" "plain_reader sr" "records_ok (versions (sr_engine sr) u)"
    and "lock_of (sr_engine sr) u = None" "length (pr_primary rq) < 2 ^ 64" "\<not> pr_lock_only_if_exists rq"
    and "run_action sr cm (\<lambda>sr. acquire_pessimistic_lock env sr (Key_from_raw u) rq) = Inr ((res, ov), e')"
  shows "\<exists>l. lock_of e' u = Some l \<and> lock_type l = LTPessimistic \<and> lock_ts l = sr_start_ts sr \<and>
    pr_for_update_ts rq \<le> lock_for_update_ts l \<and>
    (\<forall>c w. versions (sr_engine sr) u c = Some w \<longrightarrow> c \<le> lock_for_update_ts l) \<and>
    \<not> rolled_back (versions (sr_engine sr) u) (sr_start_ts sr) \<and>
    versions e' u = versions (sr_engine sr) u \<and> value_of e' u = value_of (sr_engine sr) u \<and>
    (\<forall>u'. u' \<noteq> u \<longrightarrow> key_state_of e' u' = key_state_of (sr_engine sr) u') \<and>
    (pr_need_value rq \<longrightarrow> prewritable sr u \<longrightarrow> values_ok (sr_engine sr) u \<longrightarrow>
      res = (if lock_for_update_ts l = pr_for_update_ts rq
        then PlValue (read_value (sr_engine sr) u (Some (sr_start_ts sr)) ts_max)
        else PlLockedWithConflict (read_value (sr_engine sr) u (Some (sr_start_ts sr)) ts_max) (lock_for_update_ts l)))"
proof -
  obtain p conflict val where ks: "key_state_of e' u = (key_state_of (sr_engine sr) u)\<lparr>ks_lock := Some (PessimisticLock_to_lock p)\<rparr>"
    and others: "\<And>u'. u' \<noteq> u \<Longrightarrow> key_state_of e' u' = key_state_of (sr_engine sr) u'"
    and p: "pl_start_ts p = sr_start_ts sr" "pr_for_update_ts rq \<le> pl_for_update_ts p"
    "\<And>c w. versions (sr_engine sr) u c = Some w \<Longrightarrow> c \<le> pl_for_update_ts p"
    "\<not> rolled_back (versions (sr_engine sr) u) (sr_start_ts sr)"
    and res: "res = new_success (pr_need_value rq) (pr_need_check_existence rq) conflict val"
    "conflict = (if pl_for_update_ts p = pr_for_update_ts rq then None else Some (pl_for_update_ts p))"
    "pr_need_value rq \<Longrightarrow> prewritable sr u \<Longrightarrow> values_ok (sr_engine sr) u \<Longrightarrow>
       val = read_value (sr_engine sr) u (Some (sr_start_ts sr)) ts_max"
    by (rule acquire_success [OF assms]) blast
  have "lock_of e' u = Some (PessimisticLock_to_lock p)" "versions e' u = versions (sr_engine sr) u"
    "value_of e' u = value_of (sr_engine sr) u"
    using arg_cong [OF ks, of ks_lock] arg_cong [OF ks, of ks_versions] arg_cong [OF ks, of ks_values] by simp_all
  then show ?thesis
    using p others res by (intro exI [of _ "PessimisticLock_to_lock p"]) (auto simp: new_success_def)
qed

definition sample_request :: pessimistic_request where
  "sample_request =
     \<lparr> pr_primary = [107], pr_should_not_exist = False, pr_lock_ttl = 3000, pr_for_update_ts = 30,
       pr_need_value = True, pr_need_check_existence = False, pr_min_commit_ts = 31, pr_need_old_value = False,
       pr_lock_only_if_exists = False, pr_allow_lock_with_conflict = False \<rparr>"

lemma values_ok_sample: "values_ok sample_store [107]"
  by (auto simp: values_ok_def versions_sample_store Write_new_def split: if_splits)

lemma acquire_sample:
  "\<exists>res ov e'. run_action (sample_snapshot 30) sample_cm (\<lambda>sr. acquire_pessimistic_lock sample_env sr (Key_from_raw [107]) sample_request) =
     Inr ((res, ov), e')"
proof -
  let ?sr = "sample_snapshot 30" and ?w = "(Write_new WTLock 15 None)\<lparr>write_last_change := LCExist 10 9\<rparr>"
  have wf: "wf_engine (sr_engine ?sr)" by (simp add: wf_sample_store)
  have seek: "sr_seek_write ?sr (Key_from_raw [107]) ts_max = Inr (Some (20, ?w))"
    by (simp add: sr_seek_write_eq [OF wf] latest_sample)
  have lock: "sr_load_lock ?sr (Key_from_raw [107]) = Inr None"
    by (simp add: load_lock_plain [OF wf] lock_of_sample)
  have l: "latest (versions (sr_engine ?sr) [107]) ts_max = Some (20, ?w)" by (simp add: latest_sample)
  have vals: "values_ok (sr_engine ?sr) [107]" by (simp add: values_ok_sample)
  note val = latest_value_eq [OF wf prewritable_sample vals l]
  obtain val where val: "latest_value ?sr (Key_from_raw [107]) 20 ?w True = Inr val" using val by blast
  have ck: "check_latest ?sr s (Key_from_raw [107]) sample_request True 20 ?w = Inr (None, LCExist 10 10, val)" for s
    by (simp add: check_latest_def Let_def sample_request_def check_rolled_back_def own_rollback_def check_data_constraint_def
        next_last_change_info_def make_exist_def is_zero_def val) (simp add: Write_new_def)
  let ?txn = "MvccTxn_new 30 sample_cm"
  let ?p = "\<lparr> pl_primary = [107], pl_start_ts = 30, pl_ttl = 3000, pl_for_update_ts = 30, pl_min_commit_ts = 31,
    pl_last_change = LCExist 10 10, pl_is_locked_with_conflict = False \<rparr>"
  obtain cm' where cm: "update_max_ts 0 None 30 sample_cm = (Inr (), cm')"
    by (simp add: update_max_ts_def sample_cm_def new_with_config_def is_max_def is_zero_def ts_max_def)
  have "wf_lock (PessimisticLock_to_lock ?p)" by (rule wf_pessimistic_lock) simp_all
  then obtain txn' where put: "put_pessimistic_lock (Key_from_raw [107]) ?p True (?txn\<lparr>txn_cm := cm'\<rparr>) = (Inr (), txn')"
    "pushes [107] (?txn\<lparr>txn_cm := cm'\<rparr>) [PutPessimisticLock ?p] txn'"
    by (rule put_pessimistic_lock_pushes)
  have "acquire_pessimistic_lock sample_env ?sr (Key_from_raw [107]) sample_request (MvccTxn_new (sr_start_ts ?sr) sample_cm) =
      (Inr (PlValue val, OldValueUnspecified), txn')"
    using put(1) ck
    by (simp add: acquire_pessimistic_lock_def on_cm_def sample_env_def cm lock acquire_new_lock_def seek Let_def
        load_old_value_def new_success_def) (simp add: sample_request_def cm)
  moreover have "pushes [107] (MvccTxn_new (sr_start_ts ?sr) sample_cm) [PutPessimisticLock ?p] txn'"
    using put(2) by (simp add: pushes_def)
  ultimately show ?thesis
    using run_action_pushes [where act = "\<lambda>sr. acquire_pessimistic_lock sample_env sr (Key_from_raw [107]) sample_request", OF wf]
    by blast
qed

theorem pessimistic_lock_acquired_witness:
  "\<exists>res ov e' l. run_action (sample_snapshot 30) sample_cm
      (\<lambda>sr. acquire_pessimistic_lock sample_env sr (Key_from_raw [107]) sample_request) = Inr ((res, ov), e') \<and>
    lock_of e' [107] = Some l \<and> lock_type l = LTPessimistic \<and> lock_ts l = 30"
proof -
  obtain res ov e' where run: "run_action (sample_snapshot 30) sample_cm
      (\<lambda>sr. acquire_pessimistic_lock sample_env sr (Key_from_raw [107]) sample_request) = Inr ((res, ov), e')"
    using acquire_sample by blast
  have pre: "wf_engine (sr_engine (sample_snapshot 30))" "plain_reader (sample_snapshot 30)"
    "records_ok (versions (sr_engine (sample_snapshot 30)) [107])" "lock_of (sr_engine (sample_snapshot 30)) [107] = None"
    "length (pr_primary sample_request) < 2 ^ 64" "\<not> pr_lock_only_if_exists sample_request"
    by (simp_all add: wf_sample_store records_ok_sample lock_of_sample sample_request_def)
  show ?thesis
    using pessimistic_lock_acquired [OF pre run] run by auto
qed

definition plain_request :: "pessimistic_request \<Rightarrow> bool" where
  "plain_request rq \<longleftrightarrow>
     \<not> pr_should_not_exist rq \<and> \<not> pr_need_value rq \<and> \<not> pr_need_check_existence rq \<and>
     \<not> pr_lock_only_if_exists rq \<and> \<not> pr_allow_lock_with_conflict rq"

lemma rolled_back_refused:
  assumes "wf_engine (sr_engine sr)" "records_ok (versions (sr_engine sr) u)"
    and "rolled_back (versions (sr_engine sr) u) (sr_start_ts sr)"
    and "latest (versions (sr_engine sr) u) ts_max = Some (c, w)"
  shows "check_rolled_back sr (Key_from_raw u) c w = Inl (PessimisticLockRolledBack (sr_start_ts sr) u)"
proof (cases "check_rolled_back sr (Key_from_raw u) c w")
  case (Inr x)
  then show ?thesis using check_rolled_back_Inr [OF assms(1,2,4)] assms(3) by simp
next
  case (Inl e)
  have c: "versions (sr_engine sr) u c = Some w" using assms(4) by (simp add: latest_Some)
  have "has_overlapped_rollback w \<or> write_start_ts w = c" if "own_rollback sr c w"
    using that records_okD(2) [OF assms(2) c] by (auto simp: own_rollback_def)
  then show ?thesis
    using Inl by (auto simp: check_rolled_back_def Let_def sr_seek_write_eq [OF assms(1)] split: if_splits option.splits)
qed

text \<open>C16: Refused pessimistic locks.  A plain request for a key that another transaction has locked, that
  the transaction has prewritten already, that was written after the for update timestamp, or on
  which the transaction was rolled back, gets the error that names the reason; repeating a request
  whose lock is there changes nothing.\<close>

theorem pessimistic_lock_refused:
  assumes "wf_engine (sr_engine sr)" "plain_reader sr" "records_ok (versions (sr_engine sr) u)" "plain_request rq"
  shows "(\<forall>l. lock_of (sr_engine sr) u = Some l \<longrightarrow>
      run_action sr cm (\<lambda>sr. acquire_pessimistic_lock env sr (Key_from_raw u) rq) =
        (if lock_ts l \<noteq> sr_start_ts sr then Inl (KeyIsLocked (into_lock_info l u))
         else if lock_type l \<noteq> LTPessimistic then Inl (LockTypeNotMatch (sr_start_ts sr) u False)
         else run_action sr cm (\<lambda>sr. acquire_on_own_lock sr (Key_from_raw u) rq False l)) \<and>
      (lock_ts l = sr_start_ts sr \<longrightarrow> lock_type l = LTPessimistic \<longrightarrow> pr_for_update_ts rq \<le> lock_for_update_ts l \<longrightarrow>
        \<not> pr_need_old_value rq \<longrightarrow>
        run_action sr cm (\<lambda>sr. acquire_pessimistic_lock env sr (Key_from_raw u) rq) =
          Inr ((PlEmpty, OldValueUnspecified), sr_engine sr))) \<and>
    (\<forall>c w. lock_of (sr_engine sr) u = None \<longrightarrow> latest (versions (sr_engine sr) u) ts_max = Some (c, w) \<longrightarrow>
      (pr_for_update_ts rq < c \<longrightarrow>
        run_action sr cm (\<lambda>sr. acquire_pessimistic_lock env sr (Key_from_raw u) rq) =
          Inl (WriteConflict (sr_start_ts sr) (write_start_ts w) c u (pr_primary rq) PessimisticRetry)) \<and>
      (c \<le> pr_for_update_ts rq \<and> rolled_back (versions (sr_engine sr) u) (sr_start_ts sr) \<longrightarrow>
        run_action sr cm (\<lambda>sr. acquire_pessimistic_lock env sr (Key_from_raw u) rq) =
          Inl (PessimisticLockRolledBack (sr_start_ts sr) u)))"
proof (intro conjI allI impI)
  let ?k = "Key_from_raw u"
  let ?run = "run_action sr cm (\<lambda>sr. acquire_pessimistic_lock env sr ?k rq)"
  have rq: "\<not> pr_should_not_exist rq" "\<not> pr_need_value rq" "\<not> pr_need_check_existence rq"
    "\<not> pr_lock_only_if_exists rq" "\<not> pr_allow_lock_with_conflict rq"
    using assms(4) by (simp_all add: plain_request_def)
  have own: "acquire_pessimistic_lock env sr ?k rq txn =
      (if lock_ts l \<noteq> sr_start_ts sr then (Inl (KeyIsLocked (into_lock_info l u)), txn)
       else if lock_type l \<noteq> LTPessimistic then (Inl (LockTypeNotMatch (sr_start_ts sr) u False), txn)
       else acquire_on_own_lock sr ?k rq False l txn)" if "lock_of (sr_engine sr) u = Some l" for l txn
    by (simp add: acquire_pessimistic_lock_def rq load_lock_plain [OF assms(1,2)] that is_pessimistic_lock_def Let_def)
  show "?run = (if lock_ts l \<noteq> sr_start_ts sr then Inl (KeyIsLocked (into_lock_info l u))
      else if lock_type l \<noteq> LTPessimistic then Inl (LockTypeNotMatch (sr_start_ts sr) u False)
      else run_action sr cm (\<lambda>sr. acquire_on_own_lock sr ?k rq False l))" if "lock_of (sr_engine sr) u = Some l" for l
    by (simp add: run_action_def own [OF that])
  show "?run = Inr ((PlEmpty, OldValueUnspecified), sr_engine sr)"
    if "lock_of (sr_engine sr) u = Some l" "lock_ts l = sr_start_ts sr" "lock_type l = LTPessimistic"
      "pr_for_update_ts rq \<le> lock_for_update_ts l" "\<not> pr_need_old_value rq" for l
    using that(2,3,5) leD [OF that(4)] by (intro run_action_nothing)
      (simp add: own [OF that(1)] acquire_on_own_lock_def rq Let_def locked_value_def load_old_value_def new_success_def)
  have new: "acquire_pessimistic_lock env sr ?k rq txn = acquire_new_lock env sr ?k rq False txn"
    if "lock_of (sr_engine sr) u = None" for txn
    by (simp add: acquire_pessimistic_lock_def rq load_lock_plain [OF assms(1,2)] that Let_def)
  show "?run = Inl (WriteConflict (sr_start_ts sr) (write_start_ts w) c u (pr_primary rq) PessimisticRetry)"
    if "lock_of (sr_engine sr) u = None" "latest (versions (sr_engine sr) u) ts_max = Some (c, w)" "pr_for_update_ts rq < c" for c w
    using that(3) by (intro run_action_error)
      (simp add: new [OF that(1)] acquire_new_lock_def sr_seek_write_eq [OF assms(1)] that(2) check_latest_def rq Let_def
        into_write_conflict_error_def)
  show "?run = Inl (PessimisticLockRolledBack (sr_start_ts sr) u)"
    if "lock_of (sr_engine sr) u = None" "latest (versions (sr_engine sr) u) ts_max = Some (c, w)"
      "c \<le> pr_for_update_ts rq \<and> rolled_back (versions (sr_engine sr) u) (sr_start_ts sr)" for c w
    using that(3) rolled_back_refused [OF assms(1,3) _ that(2)] leD [OF conjunct1 [OF that(3)]]
    by (intro run_action_error)
      (simp add: new [OF that(1)] acquire_new_lock_def sr_seek_write_eq [OF assms(1)] that(2) check_latest_def rq Let_def)
qed

theorem pessimistic_lock_refused_witness:
  "run_action (sample_snapshot 17) sample_cm (\<lambda>sr. acquire_pessimistic_lock sample_env sr (Key_from_raw [107])
      (sample_request\<lparr>pr_need_value := False, pr_for_update_ts := 18\<rparr>)) =
     Inl (WriteConflict 17 15 20 [107] [107] PessimisticRetry)"
proof -
  let ?rq = "sample_request\<lparr>pr_need_value := False, pr_for_update_ts := 18\<rparr>"
  have pre: "wf_engine (sr_engine (sample_snapshot 17))" "plain_reader (sample_snapshot 17)"
    "records_ok (versions (sr_engine (sample_snapshot 17)) [107])" "plain_request ?rq"
    by (simp_all add: wf_sample_store records_ok_sample plain_request_def sample_request_def)
  show ?thesis
    using pessimistic_lock_refused [where cm = sample_cm and env = sample_env, OF pre, THEN conjunct2]
    by (simp add: latest_sample lock_of_sample sample_request_def Write_new_def)
qed

end
