(* ===== verification/Gc_Action.thy ===== *)
theory Gc_Action
  imports Commit_Action
begin

text \<open>
  Garbage collection of the versions of one key, \<^verbatim>\<open>src/storage/txn/actions/gc.rs\<close>: the state machine
  over the versions from the newest to the oldest, and its loop.
\<close>

section \<open>The state machine\<close>

datatype gc_state = Rewind ts | RemoveIdempotent | RemoveAll "(ts \<times> write_record) option"

text \<open>The fields of \<^verbatim>\<open>struct Gc\<close> that change are the timestamp, the counters and the buffer.\<close>

definition gc_delete_write :: "key \<Rightarrow> write_record \<Rightarrow> ts \<Rightarrow> gc_info \<times> mvcc_txn \<Rightarrow> gc_info \<times> mvcc_txn" where
  "gc_delete_write k w t g =
     (case g of (info, txn) \<Rightarrow>
        let txn = delete_write k t txn;
            txn = (if write_type w = WTPut \<and> write_short_value w = None
                   then delete_value k (write_start_ts w) txn else txn) in
        (info\<lparr>deleted_versions := deleted_versions info + 1\<rparr>, txn))"

function gc_step :: "gc_state \<Rightarrow> key \<Rightarrow> write_record \<Rightarrow> ts \<Rightarrow> gc_info \<times> mvcc_txn \<Rightarrow> gc_state \<times> gc_info \<times> mvcc_txn" where
  "gc_step (Rewind safe_point) k w commit_ts g =
     (if commit_ts \<le> safe_point then gc_step RemoveIdempotent k w commit_ts g else (Rewind safe_point, g))"
| "gc_step RemoveIdempotent k w commit_ts g =
     (case write_type w of
        WTPut \<Rightarrow> (RemoveAll None, g)
      | WTDelete \<Rightarrow> (RemoveAll (Some (commit_ts, w)), g)
      | WTRollback \<Rightarrow> (RemoveIdempotent, gc_delete_write k w commit_ts g)
      | WTLock \<Rightarrow> (RemoveIdempotent, gc_delete_write k w commit_ts g))"
| "gc_step (RemoveAll latest_delete) k w commit_ts g = (RemoveAll latest_delete, gc_delete_write k w commit_ts g)"
  by pat_completeness auto
termination
  by (relation "measure (\<lambda>(st, _). case st of Rewind _ \<Rightarrow> 1 | _ \<Rightarrow> 0)") auto

text \<open>What happens after the last version.\<close>

definition gc_finish :: "gc_state \<Rightarrow> key \<Rightarrow> gc_info \<times> mvcc_txn \<Rightarrow> (mvcc_error + gc_info) \<times> mvcc_txn" where
  "gc_finish st k g =
     (case (case st of RemoveAll (Some (commit_ts, w)) \<Rightarrow> gc_delete_write k w commit_ts g | _ \<Rightarrow> g) of
        (info, txn) \<Rightarrow> (Inr (info\<lparr>is_completed := True\<rparr>), txn))"

function gc_run :: "mvcc_reader \<Rightarrow> key \<Rightarrow> ts \<Rightarrow> gc_state \<Rightarrow> gc_info \<times> mvcc_txn \<Rightarrow> (mvcc_error + gc_info) \<times> mvcc_txn" where
  "gc_run r k cur_ts st g =
     (case seek_write r k cur_ts of
        Inl e \<Rightarrow> (Inl e, snd g)
      | Inr None \<Rightarrow> gc_finish st k g
      | Inr (Some (commit_ts, w)) \<Rightarrow>
          (case ts_prev commit_ts of
             None \<Rightarrow> (Inl MPanic, snd g)
           | Some t \<Rightarrow>
               (let info = (fst g)\<lparr>found_versions := found_versions (fst g) + 1\<rparr>; txn = snd g in
                if MAX_TXN_WRITE_SIZE \<le> txn_write_size txn then (Inr info, txn)
                else
                  (case gc_step st k w commit_ts (info, txn) of
                     (st', g') \<Rightarrow> gc_run r k t st' g'))))"
  by pat_completeness auto
termination
  by (relation "measure (\<lambda>(r, k, t, st, g). unat t)") (auto dest!: seek_write_le intro: ts_prev_less)

declare gc_run.simps [simp del]

definition gc :: "mvcc_reader \<Rightarrow> key \<Rightarrow> ts \<Rightarrow> gc_info action" where
  "gc r k safe_point txn =
     gc_run r k ts_max (Rewind safe_point)
       (\<lparr> found_versions = 0, deleted_versions = 0, is_completed = False \<rparr>, txn)"

section \<open>What is collected\<close>

definition gc_ops :: "ts \<Rightarrow> write_record \<Rightarrow> key_op list" where
  "gc_ops c w = DelWrite c # (if write_type w = WTPut \<and> write_short_value w = None then [DelValue (write_start_ts w)] else [])"

definition gc_pushes :: "bytes \<Rightarrow> mvcc_txn \<Rightarrow> key_op list \<Rightarrow> mvcc_txn \<Rightarrow> bool" where
  "gc_pushes u txn ops txn' \<longleftrightarrow> pushes u txn ops txn' \<and> (ops = [] \<longrightarrow> txn' = txn)"

lemma gc_delete_pushes:
  assumes "gc_pushes u txn ops txn'" "gc_delete_write (Key_from_raw u) w c (info, txn') = (info', txn'')"
  shows "gc_pushes u txn (ops @ gc_ops c w) txn''" "is_completed info' = is_completed info"
  using assms by (auto simp: gc_delete_write_def gc_ops_def gc_pushes_def pushes_def delete_write_def delete_value_def Let_def split: if_splits)

definition deletions :: "(ts \<Rightarrow> write_record option) \<Rightarrow> ts \<Rightarrow> key_op list \<Rightarrow> bool" where
  "deletions vs sp ops \<longleftrightarrow>
     (\<forall>op \<in> set ops. (\<exists>c. op = DelWrite c \<and> vs c \<noteq> None \<and> c \<le> sp) \<or>
        (\<exists>c w. op = DelValue (write_start_ts w) \<and> vs c = Some w \<and> write_type w = WTPut \<and> DelWrite c \<in> set ops)) \<and>
     (\<forall>c w. DelWrite c \<in> set ops \<longrightarrow> vs c = Some w \<longrightarrow> write_type w = WTPut \<longrightarrow> write_short_value w = None \<longrightarrow>
        DelValue (write_start_ts w) \<in> set ops)"

lemma deletions_append:
  assumes "deletions vs sp ops" "vs c = Some w" "c \<le> sp"
  shows "deletions vs sp (ops @ gc_ops c w)"
  unfolding deletions_def
proof (rule conjI; (intro ballI)?)
  show "\<forall>c' w'. DelWrite c' \<in> set (ops @ gc_ops c w) \<longrightarrow> vs c' = Some w' \<longrightarrow> write_type w' = WTPut \<longrightarrow>
      write_short_value w' = None \<longrightarrow> DelValue (write_start_ts w') \<in> set (ops @ gc_ops c w)"
    using assms(1,2) unfolding deletions_def by (auto simp: gc_ops_def)
  fix op assume "op \<in> set (ops @ gc_ops c w)"
  then consider "op \<in> set ops" | "op = DelWrite c" | "op = DelValue (write_start_ts w)" "write_type w = WTPut"
    by (auto simp: gc_ops_def split: if_splits)
  then show "(\<exists>c. op = DelWrite c \<and> vs c \<noteq> None \<and> c \<le> sp) \<or>
      (\<exists>c' w'. op = DelValue (write_start_ts w') \<and> vs c' = Some w' \<and> write_type w' = WTPut \<and> DelWrite c' \<in> set (ops @ gc_ops c w))"
  proof cases
    case 1
    then show ?thesis using assms(1) unfolding deletions_def by fastforce
  next
    case 2
    then show ?thesis using assms(2,3) by simp
  next
    case 3
    then show ?thesis using assms(2) by (auto simp: gc_ops_def)
  qed
qed

lemma DelWrite_gc_ops [simp]: "DelWrite c' \<in> set (gc_ops c w) \<longleftrightarrow> c' = c"
  by (auto simp: gc_ops_def)

lemma deletions_Nil [simp]: "deletions vs sp []"
  by (simp add: deletions_def)

lemma deletions_below: "deletions vs sp ops \<Longrightarrow> DelWrite c \<in> set ops \<Longrightarrow> vs c \<noteq> None \<and> c \<le> sp"
  unfolding deletions_def by blast

definition gc_inv :: "(ts \<Rightarrow> write_record option) \<Rightarrow> ts \<Rightarrow> gc_state \<Rightarrow> ts \<Rightarrow> key_op list \<Rightarrow> bool" where
  "gc_inv vs sp st t ops \<longleftrightarrow>
     deletions vs sp ops \<and> (\<forall>c. DelWrite c \<in> set ops \<longrightarrow> t < c) \<and>
     (case st of
        Rewind sp' \<Rightarrow> sp' = sp \<and> ops = [] \<and> (\<forall>c. t < c \<longrightarrow> c \<le> sp \<longrightarrow> vs c = None)
      | RemoveIdempotent \<Rightarrow>
          t \<le> sp \<and> (\<forall>c. t < c \<longrightarrow> c \<le> sp \<longrightarrow> data vs c = None \<and> (vs c = None \<or> DelWrite c \<in> set ops))
      | RemoveAll x \<Rightarrow>
          \<exists>c0 w0. latest (data vs) sp = Some (c0, w0) \<and> t < c0 \<and> DelWrite c0 \<notin> set ops \<and>
            (\<forall>c. t < c \<longrightarrow> c \<le> sp \<longrightarrow> c \<noteq> c0 \<longrightarrow> vs c = None \<or> DelWrite c \<in> set ops) \<and>
            (case x of None \<Rightarrow> write_type w0 = WTPut | Some cw \<Rightarrow> cw = (c0, w0) \<and> write_type w0 = WTDelete))"

definition gc_safe :: "(ts \<Rightarrow> write_record option) \<Rightarrow> ts \<Rightarrow> key_op list \<Rightarrow> bool" where
  "gc_safe vs sp ops \<longleftrightarrow>
     deletions vs sp ops \<and>
     (\<forall>c0 w0. latest (data vs) sp = Some (c0, w0) \<longrightarrow> DelWrite c0 \<in> set ops \<longrightarrow>
        write_type w0 = WTDelete \<and> (\<forall>c \<le> sp. vs c = None \<or> DelWrite c \<in> set ops))"

definition gc_complete :: "(ts \<Rightarrow> write_record option) \<Rightarrow> ts \<Rightarrow> key_op list \<Rightarrow> bool" where
  "gc_complete vs sp ops \<longleftrightarrow>
     (\<forall>c w. c \<le> sp \<longrightarrow> vs c = Some w \<longrightarrow>
        DelWrite c \<in> set ops \<or> (write_type w = WTPut \<and> latest (data vs) sp = Some (c, w)))"

lemma gc_inv_safe:
  assumes "gc_inv vs sp st t ops"
  shows "gc_safe vs sp ops"
  unfolding gc_safe_def
proof (intro conjI allI impI)
  show "deletions vs sp ops" using assms by (simp add: gc_inv_def)
  have False if l: "latest (data vs) sp = Some (c0, w0)" "DelWrite c0 \<in> set ops" for c0 w0
  proof (cases st)
    case (Rewind x1)
    then show ?thesis using assms l(2) by (simp add: gc_inv_def)
  next
    case RemoveIdempotent
    moreover have "t < c0" using assms l(2) by (simp add: gc_inv_def)
    moreover have "c0 \<le> sp" "data vs c0 \<noteq> None" using l(1) by (auto simp: latest_Some)
    ultimately show ?thesis using assms by (auto simp: gc_inv_def)
  next
    case (RemoveAll x3)
    then show ?thesis using assms l by (auto simp: gc_inv_def)
  qed
  then show "write_type w0 = WTDelete" "c \<le> sp \<Longrightarrow> vs c = None \<or> DelWrite c \<in> set ops"
    if "latest (data vs) sp = Some (c0, w0)" "DelWrite c0 \<in> set ops" for c0 w0 c
    using that by blast+
qed

lemma latest_data_from:
  assumes "vs c = Some w" "is_data w" "c \<le> sp" "\<And>c'. c < c' \<Longrightarrow> c' \<le> sp \<Longrightarrow> data vs c' = None"
  shows "latest (data vs) sp = Some (c, w)"
  using assms by (auto simp: latest_Some data_Some)

lemma gc_idempotent_step:
  assumes del: "deletions vs sp ops" "\<And>c'. DelWrite c' \<in> set ops \<Longrightarrow> c < c'"
    and gap: "\<And>c'. c < c' \<Longrightarrow> c' \<le> sp \<Longrightarrow> data vs c' = None \<and> (vs c' = None \<or> DelWrite c' \<in> set ops)"
    and c: "vs c = Some w" "c \<le> sp" "ts_prev c = Some t'"
    and push: "gc_pushes u txn ops txn'" and step: "gc_step RemoveIdempotent (Key_from_raw u) w c (info, txn') = (st', info', txn'')"
  shows "\<exists>ops'. gc_pushes u txn ops' txn'' \<and> gc_inv vs sp st' t' ops' \<and> is_completed info' = is_completed info"
proof -
  have t': "t' < x \<longleftrightarrow> c \<le> x" for x using ts_prev_above [OF c(3)] .
  have le: "t' \<le> sp" using t' [of c] c(2) by auto
  have split: "x = c \<or> c < x" if "c \<le> x" for x using that by auto
  have ndel: "DelWrite c \<notin> set ops" using del(2) by blast
  have keep: "gc_inv vs sp (RemoveAll x) t' ops"
    if "is_data w" "case x of None \<Rightarrow> write_type w = WTPut | Some cw \<Rightarrow> cw = (c, w) \<and> write_type w = WTDelete" for x
    unfolding gc_inv_def
    using that del(1) latest_data_from [where vs = vs, OF c(1) that(1) c(2)] gap ndel
    by (auto simp: t' dest: del(2) split)
  have drop: "gc_inv vs sp RemoveIdempotent t' (ops @ gc_ops c w)" if "\<not> is_data w"
  proof -
    have "data vs x = None \<and> (vs x = None \<or> DelWrite x \<in> set (ops @ gc_ops c w))" if "c \<le> x" "x \<le> sp" for x
      using split [OF that(1)] gap [of x] that(2) \<open>\<not> is_data w\<close> c(1) by (auto simp: data_def)
    then show ?thesis
      unfolding gc_inv_def using le deletions_append [where vs = vs, OF del(1) c(1,2)] by (auto simp: t' dest: del(2))
  qed
  show ?thesis
  proof (cases "is_data w")
    case True
    then show ?thesis
      using step keep [of None] keep [of "Some (c, w)"] push
      by (cases "write_type w") (auto simp: is_data_def)
  next
    case False
    then have "gc_delete_write (Key_from_raw u) w c (info, txn') = (info', txn'')" "st' = RemoveIdempotent"
      using step by (cases "write_type w"; auto simp: is_data_def)+
    then show ?thesis using gc_delete_pushes [OF push] drop [OF False] by blast
  qed
qed

lemma gc_step_inv:
  assumes inv: "gc_inv vs sp st t ops" and l: "latest vs t = Some (c, w)" and t': "ts_prev c = Some t'"
    and push: "gc_pushes u txn ops txn'" and step: "gc_step st (Key_from_raw u) w c (info, txn') = (st', info', txn'')"
  shows "\<exists>ops'. gc_pushes u txn ops' txn'' \<and> gc_inv vs sp st' t' ops' \<and> is_completed info' = is_completed info"
proof -
  have c: "vs c = Some w" "c \<le> t" "\<And>c'. c < c' \<Longrightarrow> c' \<le> t \<Longrightarrow> vs c' = None"
    using l by (auto simp: latest_Some)
  have above: "t' < x \<longleftrightarrow> c \<le> x" for x using ts_prev_above [OF t'] .
  have del: "deletions vs sp ops" "\<And>c'. DelWrite c' \<in> set ops \<Longrightarrow> c < c'"
    using inv c(2) by (auto simp: gc_inv_def intro: order.strict_trans1)
  show ?thesis
  proof (cases st)
    case (Rewind sp')
    then have rw: "sp' = sp" "ops = []" "\<And>c. t < c \<Longrightarrow> c \<le> sp \<Longrightarrow> vs c = None" using inv by (auto simp: gc_inv_def)
    have none: "vs x = None" if "c < x" "x \<le> sp" for x
      using c(3) rw(3) that by (cases "x \<le> t") auto
    show ?thesis
    proof (cases "c \<le> sp")
      case True
      then have "gc_step RemoveIdempotent (Key_from_raw u) w c (info, txn') = (st', info', txn'')"
        using step by (simp add: Rewind rw(1))
      with True show ?thesis
        by (intro gc_idempotent_step [OF del _ c(1) _ t' push]) (auto simp: none data_def)
    next
      case False
      then have "st' = Rewind sp" "info' = info" "txn'' = txn'" using step by (simp_all add: Rewind rw(1))
      moreover have "gc_inv vs sp (Rewind sp) t' ops"
        using rw(2) False none by (auto simp: gc_inv_def above)
      ultimately show ?thesis using push by blast
    qed
  next
    case RemoveIdempotent
    then have "t \<le> sp" "\<And>c. t < c \<Longrightarrow> c \<le> sp \<Longrightarrow> data vs c = None \<and> (vs c = None \<or> DelWrite c \<in> set ops)"
      using inv by (auto simp: gc_inv_def)
    note ri = this
    have "data vs x = None \<and> (vs x = None \<or> DelWrite x \<in> set ops)" if "c < x" "x \<le> sp" for x
      using c(3) ri(2) that by (cases "x \<le> t") (auto simp: data_def)
    then show ?thesis
      using step ri(1) c(2) unfolding RemoveIdempotent
      by (intro gc_idempotent_step [OF del _ c(1) _ t' push]) auto
  next
    case (RemoveAll x)
    then obtain c0 w0 where ra: "latest (data vs) sp = Some (c0, w0)" "t < c0" "DelWrite c0 \<notin> set ops"
      "\<And>c. t < c \<Longrightarrow> c \<le> sp \<Longrightarrow> c \<noteq> c0 \<Longrightarrow> vs c = None \<or> DelWrite c \<in> set ops"
      "case x of None \<Rightarrow> write_type w0 = WTPut | Some cw \<Rightarrow> cw = (c0, w0) \<and> write_type w0 = WTDelete"
      using inv by (auto simp: gc_inv_def)
    have d: "gc_delete_write (Key_from_raw u) w c (info, txn') = (info', txn'')" "st' = RemoveAll x"
      using step by (auto simp: RemoveAll)
    have c0: "c < c0" "c \<le> sp" "c0 \<le> sp" using ra(1,2) c(2) by (auto simp: latest_Some)
    have gap: "vs y = None \<or> DelWrite y \<in> set (ops @ gc_ops c w)" if "c \<le> y" "y \<le> sp" "y \<noteq> c0" for y
    proof -
      from that(1) have "c = y \<or> c < y" by auto
      then consider "y = c" | "c < y" "y \<le> t" | "t < y" using leI [of t y] by blast
      then show ?thesis using c(3) [of y] ra(4) [of y] that by cases auto
    qed
    have "gc_inv vs sp (RemoveAll x) t' (ops @ gc_ops c w)"
      unfolding gc_inv_def using deletions_append [where vs = vs, OF del(1) c(1) c0(2)] del(2) ra(1,3,5) c0(1) gap
      by (auto simp: above intro: less_imp_le)
    then show ?thesis using gc_delete_pushes [OF push d(1)] d(2) by blast
  qed
qed
lemma gc_finish_ops:
  assumes inv: "gc_inv vs sp st t ops" and none: "\<And>c. c \<le> t \<Longrightarrow> vs c = None"
    and push: "gc_pushes u txn ops txn'" and fin: "gc_finish st (Key_from_raw u) (info, txn') = (r, txn'')"
  shows "\<exists>ops' info'. r = Inr info' \<and> is_completed info' \<and> gc_pushes u txn ops' txn'' \<and> gc_safe vs sp ops' \<and> gc_complete vs sp ops'"
proof -
  have keep: "\<exists>ops' info'. r = Inr info' \<and> is_completed info' \<and> gc_pushes u txn ops' txn'' \<and> gc_safe vs sp ops' \<and> gc_complete vs sp ops'"
    if "gc_finish st (Key_from_raw u) (info, txn') = (Inr (info\<lparr>is_completed := True\<rparr>), txn')" "gc_complete vs sp ops"
    using that fin push gc_inv_safe [OF inv] by auto
  have old: "c \<le> t \<or> t < c" for c :: ts by auto
  show ?thesis
  proof (cases st)
    case (Rewind sp')
    have "vs c = None" if "c \<le> sp" for c
      using old [of c] none [of c] inv that unfolding gc_inv_def Rewind by auto
    then show ?thesis by (intro keep) (simp_all add: gc_finish_def gc_complete_def Rewind)
  next
    case RemoveIdempotent
    have "vs c = None \<or> DelWrite c \<in> set ops" if "c \<le> sp" for c
      using old [of c] none [of c] inv that unfolding gc_inv_def RemoveIdempotent by auto
    then have "gc_complete vs sp ops" unfolding gc_complete_def by fastforce
    then show ?thesis by (intro keep) (simp_all add: gc_finish_def RemoveIdempotent)
  next
    case (RemoveAll x)
    then obtain c0 w0 where ra: "latest (data vs) sp = Some (c0, w0)" "DelWrite c0 \<notin> set ops"
      "\<And>c. t < c \<Longrightarrow> c \<le> sp \<Longrightarrow> c \<noteq> c0 \<Longrightarrow> vs c = None \<or> DelWrite c \<in> set ops"
      "case x of None \<Rightarrow> write_type w0 = WTPut | Some cw \<Rightarrow> cw = (c0, w0) \<and> write_type w0 = WTDelete"
      using inv by (auto simp: gc_inv_def)
    have gone: "vs c = None \<or> DelWrite c \<in> set ops" if "c \<le> sp" "c \<noteq> c0" for c
      using old [of c] none [of c] ra(3) [of c] that by blast
    have c0: "vs c0 = Some w0" "c0 \<le> sp" using ra(1) by (auto simp: latest_Some data_Some)
    show ?thesis
    proof (cases x)
      case None
      have "gc_complete vs sp ops" unfolding gc_complete_def using gone c0 ra(1,4) None by fastforce
      then show ?thesis by (intro keep) (simp_all add: gc_finish_def RemoveAll None)
    next
      case (Some cw)
      then have cw: "cw = (c0, w0)" "write_type w0 = WTDelete" using ra(4) by simp_all
      obtain info' txn1 where d: "gc_delete_write (Key_from_raw u) w0 c0 (info, txn') = (info', txn1)" by force
      have r: "r = Inr (info'\<lparr>is_completed := True\<rparr>)" "txn'' = txn1"
        using fin by (simp_all add: gc_finish_def RemoveAll Some cw(1) d)
      have all: "vs c = None \<or> DelWrite c \<in> set (ops @ gc_ops c0 w0)" if "c \<le> sp" for c
        using gone [OF that] by auto
      have "deletions vs sp (ops @ gc_ops c0 w0)"
        using inv c0 by (intro deletions_append) (simp_all add: gc_inv_def)
      then have "gc_safe vs sp (ops @ gc_ops c0 w0)" "gc_complete vs sp (ops @ gc_ops c0 w0)"
        using all cw(2) ra(1) unfolding gc_safe_def gc_complete_def by fastforce+
      then show ?thesis using gc_delete_pushes(1) [OF push d] r by (intro exI [of _ "ops @ gc_ops c0 w0"]) simp
    qed
  qed
qed

lemma gc_run_ops:
  assumes "wf_engine (rd_engine r)" "versions (rd_engine r) u 0 = None"
    and "gc_inv (versions (rd_engine r) u) sp st t ops" "gc_pushes u txn ops (snd g)" "\<not> is_completed (fst g)"
    and "gc_run r (Key_from_raw u) t st g = (res, txn'')"
  shows "\<exists>info ops'. res = Inr info \<and> gc_pushes u txn ops' txn'' \<and> gc_safe (versions (rd_engine r) u) sp ops' \<and>
    (is_completed info \<longrightarrow> gc_complete (versions (rd_engine r) u) sp ops') \<and>
    (\<not> is_completed info \<longrightarrow> MAX_TXN_WRITE_SIZE \<le> txn_write_size txn'')"
  using assms(3-)
proof (induction "unat t" arbitrary: t st g ops rule: less_induct)
  case less
  let ?vs = "versions (rd_engine r) u" and ?k = "Key_from_raw u"
  note inv = less.prems(1) and push = less.prems(2) and nc = less.prems(3)
  obtain info txn' where g: "g = (info, txn')" by (cases g)
  note run = less.prems(4) [unfolded g gc_run.simps [of r ?k t st] seek_write_eq [OF assms(1)] sum.case fst_conv snd_conv Let_def]
  show ?case
  proof (cases "latest ?vs t")
    case None
    then have none: "\<And>c. c \<le> t \<Longrightarrow> ?vs c = None" by (simp add: latest_None)
    have "gc_finish st ?k (info, txn') = (res, txn'')" using run by (simp add: None)
    then show ?thesis using gc_finish_ops [OF inv none push [unfolded g snd_conv]] by blast
  next
    case (Some cw)
    obtain c w where cw: "cw = (c, w)" by (cases cw)
    have l: "latest ?vs t = Some (c, w)" using Some by (simp add: cw)
    then have c: "?vs c = Some w" "c \<le> t" by (auto simp: latest_Some)
    then have "c \<noteq> 0" using assms(2) by auto
    then obtain t' where t': "ts_prev c = Some t'" by (auto simp: ts_prev_def word_greater_zero_iff)
    note run = run [unfolded l option.case prod.case t']
    show ?thesis
    proof (cases "MAX_TXN_WRITE_SIZE \<le> txn_write_size txn'")
      case True
      then show ?thesis using run push nc gc_inv_safe [OF inv] by (auto simp: g)
    next
      case False
      let ?info = "info\<lparr>found_versions := found_versions info + 1\<rparr>"
      obtain st' info' txn1 where step: "gc_step st ?k w c (?info, txn') = (st', info', txn1)"
        by (metis prod_cases3)
      obtain ops' where ops': "gc_pushes u txn ops' txn1" "gc_inv ?vs sp st' t' ops'" "is_completed info' = is_completed ?info"
        using gc_step_inv [OF inv l t' push [unfolded g snd_conv] step] by blast
      have "gc_run r ?k t' st' (info', txn1) = (res, txn'')" using run [unfolded if_not_P [OF False] step prod.case] .
      then show ?thesis
        using less.hyps [OF ts_prev_less [OF t' c(2)] ops'(2), of "(info', txn1)"] ops'(1,3) nc by (simp add: g)
    qed
  qed
qed

section \<open>Reads after a collection\<close>

lemma apply_deletions:
  assumes "\<forall>op \<in> set ops. (\<exists>c. op = DelWrite c) \<or> (\<exists>s. op = DelValue s)"
  shows "foldl apply_op ks ops =
    ks\<lparr>ks_versions := \<lambda>t. if DelWrite t \<in> set ops then None else ks_versions ks t,
       ks_values := \<lambda>s. if DelValue s \<in> set ops then None else ks_values ks s\<rparr>"
  using assms
proof (induction ops arbitrary: ks)
  case (Cons op ops)
  then have IH: "foldl apply_op ks' ops =
    ks'\<lparr>ks_versions := \<lambda>t. if DelWrite t \<in> set ops then None else ks_versions ks' t,
       ks_values := \<lambda>s. if DelValue s \<in> set ops then None else ks_values ks' s\<rparr>" for ks'
    by simp
  from Cons.prems consider c where "op = DelWrite c" | s where "op = DelValue s" by auto
  then show ?case
    by cases (auto simp: IH fun_upd_def intro!: key_state.equality)
qed simp

lemma deletions_only: "deletions vs sp ops \<Longrightarrow> \<forall>op \<in> set ops. (\<exists>c. op = DelWrite c) \<or> (\<exists>s. op = DelValue s)"
  unfolding deletions_def by blast

lemma latest_data_collected:
  fixes vs
  assumes safe: "gc_safe vs sp ops" and t: "sp \<le> t"
  defines "vs' \<equiv> \<lambda>c. if DelWrite c \<in> set ops then None else vs c"
  shows "latest (data vs') t = latest (data vs) t \<or>
    (latest (data vs') t = None \<and> (\<exists>c w. latest (data vs) t = Some (c, w) \<and> write_type w = WTDelete))"
proof (cases "latest (data vs) t")
  case None
  then have "latest (data vs') t = None" by (auto simp: latest_None vs'_def data_def)
  with None show ?thesis by simp
next
  case (Some cw)
  obtain c w where cw: "cw = (c, w)" by (cases cw)
  have c: "vs c = Some w" "is_data w" "c \<le> t" "\<And>c'. c < c' \<Longrightarrow> c' \<le> t \<Longrightarrow> data vs c' = None"
    using Some by (auto simp: cw latest_Some data_Some)
  have sub: "data vs' c' = None" if "data vs c' = None" for c' using that by (auto simp: vs'_def data_def)
  show ?thesis
  proof (cases "DelWrite c \<in> set ops")
    case False
    then have "data vs' c = Some w" using c(1,2) by (simp add: vs'_def data_def)
    then have "latest (data vs') t = Some (c, w)" using c(3,4) sub by (auto simp: latest_Some)
    then show ?thesis using Some by (simp add: cw)
  next
    case True
    then have "c \<le> sp" using safe deletions_below by (auto simp: gc_safe_def)
    then have "latest (data vs) sp = Some (c, w)"
      using c t by (auto simp: latest_Some data_Some intro: order.trans)
    then have del: "write_type w = WTDelete" "\<And>c'. c' \<le> sp \<Longrightarrow> vs c' = None \<or> DelWrite c' \<in> set ops"
      using safe True unfolding gc_safe_def by blast+
    have "data vs' c' = None" if "c' \<le> t" for c'
    proof (cases "c' \<le> sp")
      case True
      then show ?thesis using del(2) [OF True] by (auto simp: vs'_def data_def)
    next
      case False
      then have "c < c'" using \<open>c \<le> sp\<close> by simp
      then show ?thesis using c(4) that sub by blast
    qed
    then have "latest (data vs') t = None" by (simp add: latest_None)
    then show ?thesis using Some del(1) by (simp add: cw)
  qed
qed

definition put_starts_unique :: "(ts \<Rightarrow> write_record option) \<Rightarrow> bool" where
  "put_starts_unique vs \<longleftrightarrow>
     (\<forall>c c' w w'. vs c = Some w \<longrightarrow> vs c' = Some w' \<longrightarrow> write_type w = WTPut \<longrightarrow> write_type w' = WTPut \<longrightarrow>
        write_start_ts w = write_start_ts w' \<longrightarrow> c = c')"

lemma ks_read_collected:
  assumes safe: "gc_safe (ks_versions ks) sp ops" and "put_starts_unique (ks_versions ks)" "sp \<le> t"
  shows "ks_read (foldl apply_op ks ops) l t = ks_read ks l t"
proof -
  let ?vs = "ks_versions ks"
  have del: "deletions ?vs sp ops" using safe by (simp add: gc_safe_def)
  let ?ks = "foldl apply_op ks ops"
  note ks = apply_deletions [OF deletions_only [OF del], of ks]
  have vs': "ks_versions ?ks = (\<lambda>c. if DelWrite c \<in> set ops then None else ?vs c)" by (simp add: ks)
  from latest_data_collected [OF safe assms(3)]
  have same: "latest (data (ks_versions ?ks)) t = latest (data ?vs) t \<or>
    (latest (data (ks_versions ?ks)) t = None \<and> (\<exists>c w. latest (data ?vs) t = Some (c, w) \<and> write_type w = WTDelete))"
    unfolding vs' .
  then have vis: "visible (ks_versions ?ks) l t = visible ?vs l t"
    by (auto simp: visible_def)
  show ?thesis
  proof (cases "visible ?vs l t")
    case None
    then show ?thesis by (simp add: ks_read_def vis)
  next
    case (Some wc)
    obtain w c where wc: "wc = (w, c)" by (cases wc)
    have v: "?vs c = Some w" "write_type w = WTPut" using visible_Some [OF Some [unfolded wc]] by simp_all
    have "ks_versions ?ks c = Some w" using visible_Some [of "ks_versions ?ks" l t w c] Some by (simp add: vis wc)
    then have kept: "DelWrite c \<notin> set ops" by (auto simp: vs')
    have "DelValue (write_start_ts w) \<notin> set ops"
    proof
      assume "DelValue (write_start_ts w) \<in> set ops"
      then obtain c' w' where "?vs c' = Some w'" "write_type w' = WTPut" "write_start_ts w' = write_start_ts w"
        "DelWrite c' \<in> set ops"
        using del unfolding deletions_def by fastforce
      then show False using assms(2) v kept unfolding put_starts_unique_def by metis
    qed
    then have "ks_values ?ks (write_start_ts w) = ks_values ks (write_start_ts w)" by (simp add: ks)
    then show ?thesis by (cases "write_short_value w") (simp_all add: ks_read_def vis Some wc)
  qed
qed

lemma gc_runs:
  assumes "wf_engine (sr_engine sr)" "versions (sr_engine sr) u 0 = None"
  obtains info e' ops where "run_action sr cm (\<lambda>sr. gc (sr_reader sr) (Key_from_raw u) sp) = Inr (info, e')"
    "wf_engine e'" "key_state_of e' u = foldl apply_op (key_state_of (sr_engine sr) u) ops"
    "\<And>u'. u' \<noteq> u \<Longrightarrow> key_state_of e' u' = key_state_of (sr_engine sr) u'"
    "gc_safe (versions (sr_engine sr) u) sp ops"
    "is_completed info \<Longrightarrow> gc_complete (versions (sr_engine sr) u) sp ops"
    "\<not> is_completed info \<Longrightarrow> ops \<noteq> []"
proof -
  let ?txn = "MvccTxn_new (sr_start_ts sr) cm" and ?info = "\<lparr> found_versions = 0, deleted_versions = 0, is_completed = False \<rparr>"
  let ?vs = "versions (sr_engine sr) u" and ?act = "\<lambda>sr. gc (sr_reader sr) (Key_from_raw u) sp"
  obtain res txn' where run: "?act sr ?txn = (res, txn')" by force
  have inv: "gc_inv ?vs sp (Rewind sp) ts_max []" by (simp add: gc_inv_def ts_max_def)
  have push: "gc_pushes u ?txn [] (snd (?info, ?txn))" by (simp add: gc_pushes_def)
  obtain info ops where ops: "res = Inr info" "gc_pushes u ?txn ops txn'" "gc_safe ?vs sp ops"
    "is_completed info \<Longrightarrow> gc_complete ?vs sp ops" "\<not> is_completed info \<Longrightarrow> MAX_TXN_WRITE_SIZE \<le> txn_write_size txn'"
    using gc_run_ops [OF assms inv push _ run [unfolded gc_def]] by auto
  have ne: "ops \<noteq> []" if "\<not> is_completed info"
    using ops(2) ops(5) [OF that] by (auto simp: gc_pushes_def MvccTxn_new_def MAX_TXN_WRITE_SIZE_def)
  have "pushes u ?txn ops txn'" using ops(2) by (simp add: gc_pushes_def)
  from run_action_ops [where act = ?act, OF assms(1) run [unfolded ops(1)] this]
  show ?thesis using that ops(3,4) ne by metis
qed

text \<open>C6: Collecting the versions of a key below a safe point is safe and complete: it never fails,
  every read at or above the safe point returns what it returned before, the lock and the other keys
  are untouched, nothing above the safe point is removed, the long value of a removed write is removed
  with it, and when the collection reports completion the only version left at or below the safe point
  is the newest one, a put.\<close>

theorem gc_correct:
  assumes "wf_engine (sr_engine sr)" "versions (sr_engine sr) u 0 = None" "put_starts_unique (versions (sr_engine sr) u)"
  shows "\<exists>info e'. run_action sr cm (\<lambda>sr. gc (sr_reader sr) (Key_from_raw u) sp) = Inr (info, e') \<and> wf_engine e' \<and>
    (\<forall>l t. sp \<le> t \<longrightarrow> read_value e' u l t = read_value (sr_engine sr) u l t) \<and>
    (\<forall>u'. u' \<noteq> u \<longrightarrow> key_state_of e' u' = key_state_of (sr_engine sr) u') \<and> lock_of e' u = lock_of (sr_engine sr) u \<and>
    (\<forall>c. versions e' u c = versions (sr_engine sr) u c \<or> (c \<le> sp \<and> versions e' u c = None)) \<and>
    (\<forall>c w. versions (sr_engine sr) u c = Some w \<and> versions e' u c = None \<and> write_type w = WTPut \<and>
       write_short_value w = None \<longrightarrow> value_of e' u (write_start_ts w) = None) \<and>
    (is_completed info \<longrightarrow> (\<forall>c w. c \<le> sp \<and> versions e' u c = Some w \<longrightarrow>
       write_type w = WTPut \<and> latest (data (versions (sr_engine sr) u)) sp = Some (c, w)))"
proof -
  let ?e = "sr_engine sr"
  let ?vs = "versions ?e u"
  obtain info e' ops where run: "run_action sr cm (\<lambda>sr. gc (sr_reader sr) (Key_from_raw u) sp) = Inr (info, e')"
    "wf_engine e'" "key_state_of e' u = foldl apply_op (key_state_of ?e u) ops"
    "\<And>u'. u' \<noteq> u \<Longrightarrow> key_state_of e' u' = key_state_of ?e u'" "gc_safe ?vs sp ops"
    "is_completed info \<Longrightarrow> gc_complete ?vs sp ops"
    by (rule gc_runs [OF assms(1,2), where cm = cm and sp = sp]) metis
  have del: "deletions ?vs sp ops" using run(5) by (simp add: gc_safe_def)
  note ks = run(3) [unfolded apply_deletions [OF deletions_only [OF del]]]
  have vs': "versions e' u c = (if DelWrite c \<in> set ops then None else ?vs c)" for c
    using arg_cong [OF ks, of ks_versions] by (simp add: fun_eq_iff)
  have vals: "value_of e' u s = (if DelValue s \<in> set ops then None else value_of ?e u s)" for s
    using arg_cong [OF ks, of ks_values] by (simp add: fun_eq_iff)
  have "lock_of e' u = lock_of ?e u" using arg_cong [OF ks, of ks_lock] by simp
  moreover have "read_value e' u l t = read_value ?e u l t" if "sp \<le> t" for l t
    unfolding read_value_ks run(3)
    by (rule ks_read_collected [where ops = ops, OF _ _ that]) (simp_all add: run(5) assms(3))
  moreover have "versions e' u c = ?vs c \<or> (c \<le> sp \<and> versions e' u c = None)" for c
    using deletions_below [OF del, of c] by (simp add: vs')
  moreover have "value_of e' u (write_start_ts w) = None"
    if "?vs c = Some w \<and> versions e' u c = None \<and> write_type w = WTPut \<and> write_short_value w = None" for c w
    using that del unfolding deletions_def by (auto simp: vs' vals split: if_splits)
  moreover have "write_type w = WTPut \<and> latest (data ?vs) sp = Some (c, w)"
    if "is_completed info" "c \<le> sp \<and> versions e' u c = Some w" for c w
    using run(6) [OF that(1)] that(2) unfolding gc_complete_def by (auto simp: vs' split: if_splits)
  ultimately show ?thesis using run(1,2,4) by blast
qed

lemma sample_gc:
  "versions sample_store [107] 0 = None" "put_starts_unique (versions sample_store [107])"
  by (auto simp: versions_sample_store put_starts_unique_def Write_new_def)

theorem gc_correct_witness:
  "\<exists>info e'. run_action (sample_snapshot 0) sample_cm (\<lambda>sr. gc (sr_reader sr) (Key_from_raw [107]) 30) = Inr (info, e') \<and>
     read_value e' [107] (Some 40) 40 = Some [42]"
proof -
  obtain info e' where
    "run_action (sample_snapshot 0) sample_cm (\<lambda>sr. gc (sr_reader sr) (Key_from_raw [107]) 30) = Inr (info, e')"
    "\<forall>l t. 30 \<le> t \<longrightarrow> read_value e' [107] l t = read_value sample_store [107] l t"
    using gc_correct [of "sample_snapshot 0" "[107]" sample_cm 30] by (auto simp: wf_sample_store sample_gc)
  then show ?thesis by (simp add: read_sample)
qed

end
