(* ===== verification/Txn_Latch.thy ===== *)
theory Txn_Latch
  imports Prelude "HOL-Library.Log_Nat"
begin

text \<open>
  The latches that serialise commands on the same keys, \<^verbatim>\<open>src/storage/txn/latch.rs\<close>, what an
  operation on a slot does to the queue of commands of a hash, and what releasing does to all queues.  \<^verbatim>\<open>None\<close> is a panic.
\<close>

unbundle bit_operations_syntax

section \<open>One latch\<close>

type_synonym cid = u64

record latch = waiting :: "(u64 \<times> cid) option list"

definition Latch_new :: latch where
  "Latch_new = \<lparr> waiting = [] \<rparr>"

fun first_req :: "u64 \<Rightarrow> (u64 \<times> cid) option list \<Rightarrow> cid option" where
  "first_req hash [] = None"
| "first_req hash (None # ws) = first_req hash ws"
| "first_req hash (Some (h, cid) # ws) = (if h = hash then Some cid else first_req hash ws)"

definition get_first_req_by_hash :: "latch \<Rightarrow> u64 \<Rightarrow> cid option" where
  "get_first_req_by_hash la hash = first_req hash (waiting la)"

text \<open>The capacity of the deque has no effect.\<close>

definition maybe_shrink :: "latch \<Rightarrow> latch" where
  "maybe_shrink la = la\<lparr>waiting := dropWhile (\<lambda>item. item = None) (waiting la)\<rparr>"

fun take_first :: "u64 \<Rightarrow> (u64 \<times> cid) option list \<Rightarrow> (u64 \<times> cid) option \<times> (u64 \<times> cid) option list" where
  "take_first key_hash [] = (None, [])"
| "take_first key_hash (None # ws) = (case take_first key_hash ws of (r, ws') \<Rightarrow> (r, None # ws'))"
| "take_first key_hash (Some (v, c) # ws) =
     (if v = key_hash then (Some (v, c), None # ws)
      else (case take_first key_hash ws of (r, ws') \<Rightarrow> (r, Some (v, c) # ws')))"

definition pop_front :: "u64 \<Rightarrow> latch \<Rightarrow> (u64 \<times> cid) option \<times> latch" where
  "pop_front key_hash la =
     (case waiting la of
        [] \<Rightarrow> (None, la)
      | Some (k, c) # ws \<Rightarrow>
          if k = key_hash then (Some (k, c), maybe_shrink (la\<lparr>waiting := ws\<rparr>))
          else (case take_first key_hash (Some (k, c) # ws) of (r, ws') \<Rightarrow> (r, la\<lparr>waiting := ws'\<rparr>))
      | None # ws \<Rightarrow> (case take_first key_hash ws of (r, ws') \<Rightarrow> (r, la\<lparr>waiting := ws'\<rparr>)))"

definition wait_for_wake :: "u64 \<Rightarrow> cid \<Rightarrow> latch \<Rightarrow> latch" where
  "wait_for_wake key_hash cid la = la\<lparr>waiting := waiting la @ [Some (key_hash, cid)]\<rparr>"

definition push_preemptive :: "u64 \<Rightarrow> cid \<Rightarrow> latch \<Rightarrow> latch" where
  "push_preemptive key_hash cid la = la\<lparr>waiting := Some (key_hash, cid) # waiting la\<rparr>"

section \<open>The latches of a command\<close>

record latch_lock =
  required_hashes :: "u64 list"
  owned_count :: nat

text \<open>The hash function of the standard library is an argument.\<close>

definition latch_lock_new :: "('k \<Rightarrow> u64) \<Rightarrow> 'k list \<Rightarrow> latch_lock" where
  "latch_lock_new hash ks = \<lparr> required_hashes = remdups_adj (sort (map hash ks)), owned_count = 0 \<rparr>"

definition acquired :: "latch_lock \<Rightarrow> bool" where
  "acquired lk \<longleftrightarrow> length (required_hashes lk) = owned_count lk"

definition force_assume_acquired :: "latch_lock \<Rightarrow> latch_lock" where
  "force_assume_acquired lk = lk\<lparr>owned_count := length (required_hashes lk)\<rparr>"

definition is_write_lock :: "latch_lock \<Rightarrow> bool" where
  "is_write_lock lk \<longleftrightarrow> required_hashes lk \<noteq> []"

section \<open>The array of latches\<close>

record latches =
  slots :: "latch list"
  latches_size :: nat

text \<open>The number of slots comes from the configuration; above \<open>2 ^ 63\<close> the code would overflow here.\<close>

definition next_power_of_two :: "nat \<Rightarrow> nat" where
  "next_power_of_two n = 2 ^ floorlog 2 (n - 1)"

definition Latches_new :: "nat \<Rightarrow> latches" where
  "Latches_new n = (let size = next_power_of_two n in \<lparr> slots = replicate size Latch_new, latches_size = size \<rparr>)"

definition slot_index :: "latches \<Rightarrow> u64 \<Rightarrow> nat" where
  "slot_index L hash = unat hash AND (latches_size L - 1)"

definition lock_latch :: "latches \<Rightarrow> u64 \<Rightarrow> latch option" where
  "lock_latch L hash = (if slot_index L hash < length (slots L) then Some (slots L ! slot_index L hash) else None)"

definition set_latch :: "latches \<Rightarrow> u64 \<Rightarrow> latch \<Rightarrow> latches" where
  "set_latch L hash la = L\<lparr>slots := (slots L)[slot_index L hash := la]\<rparr>"

text \<open>One visit of a slot while acquiring; the result tells whether the latch is acquired.\<close>

definition acquire_slot :: "latches \<Rightarrow> u64 \<Rightarrow> cid \<Rightarrow> (latches \<times> bool) option" where
  "acquire_slot L key_hash who =
     (case lock_latch L key_hash of
        None \<Rightarrow> None
      | Some la \<Rightarrow>
          (case get_first_req_by_hash la key_hash of
             Some cid \<Rightarrow>
               if cid = who then Some (L, True)
               else Some (set_latch L key_hash (wait_for_wake key_hash who la), False)
           | None \<Rightarrow> Some (set_latch L key_hash (wait_for_wake key_hash who la), True)))"

fun acquire_loop :: "latches \<Rightarrow> cid \<Rightarrow> u64 list \<Rightarrow> nat \<Rightarrow> (latches \<times> nat) option" where
  "acquire_loop L who [] acquired_count = Some (L, acquired_count)"
| "acquire_loop L who (h # hs) acquired_count =
     (case acquire_slot L h who of
        None \<Rightarrow> None
      | Some (L', True) \<Rightarrow> acquire_loop L' who hs (acquired_count + 1)
      | Some (L', False) \<Rightarrow> Some (L', acquired_count))"

definition acquire :: "latches \<Rightarrow> latch_lock \<Rightarrow> cid \<Rightarrow> (latches \<times> latch_lock \<times> bool) option" where
  "acquire L lk who =
     (if owned_count lk \<le> length (required_hashes lk) then
        (case acquire_loop L who (drop (owned_count lk) (required_hashes lk)) 0 of
           None \<Rightarrow> None
         | Some (L', n) \<Rightarrow>
             (let lk' = lk\<lparr>owned_count := owned_count lk + n\<rparr> in Some (L', lk', acquired lk')))
      else None)"

text \<open>
  One visit of a slot while releasing: the command that takes the latch over when it is one of those
  kept, else the command to wake up; and what remains of the iterator over the latches to keep.
\<close>

definition release_slot ::
    "latches \<Rightarrow> u64 \<Rightarrow> cid \<Rightarrow> cid option \<Rightarrow> u64 list \<Rightarrow> (latches \<times> cid option \<times> u64 list) option" where
  "release_slot L key_hash who keep_for keep_it =
     (case lock_latch L key_hash of
        None \<Rightarrow> None
      | Some la \<Rightarrow>
          (case pop_front key_hash la of
             (None, _) \<Rightarrow> None
           | (Some (v, front), la') \<Rightarrow>
               if front \<noteq> who \<or> v \<noteq> key_hash then None
               else
                 (let wake = Some (set_latch L key_hash la', get_first_req_by_hash la' key_hash, keep_it) in
                  case keep_it of
                    [] \<Rightarrow> wake
                  | next_keep_hash # rest \<Rightarrow>
                      if next_keep_hash < key_hash then None
                      else if next_keep_hash = key_hash then
                        (case keep_for of
                           None \<Rightarrow> None
                         | Some cid \<Rightarrow> Some (set_latch L key_hash (push_preemptive key_hash cid la'), None, rest))
                      else wake)))"

fun release_loop ::
    "latches \<Rightarrow> cid \<Rightarrow> cid option \<Rightarrow> u64 list \<Rightarrow> u64 list \<Rightarrow> cid list \<Rightarrow> (latches \<times> cid list) option" where
  "release_loop L who keep_for keep_it [] wakeup_list = (if keep_it = [] then Some (L, wakeup_list) else None)"
| "release_loop L who keep_for keep_it (h # hs) wakeup_list =
     (case release_slot L h who keep_for keep_it of
        None \<Rightarrow> None
      | Some (L', wakeup, keep_it') \<Rightarrow>
          release_loop L' who keep_for keep_it' hs
            (wakeup_list @ (case wakeup of Some c \<Rightarrow> [c] | None \<Rightarrow> [])))"

definition release ::
    "latches \<Rightarrow> latch_lock \<Rightarrow> cid \<Rightarrow> (cid \<times> latch_lock) option \<Rightarrow> (latches \<times> cid list) option" where
  "release L lk who keep_latches_for_next_cmd =
     (if owned_count lk \<le> length (required_hashes lk) then
        release_loop L who (map_option fst keep_latches_for_next_cmd)
          (case keep_latches_for_next_cmd of Some (_, next_lk) \<Rightarrow> required_hashes next_lk | None \<Rightarrow> [])
          (take (owned_count lk) (required_hashes lk)) []
      else None)"

section \<open>The queue of a hash\<close>

fun reqs :: "u64 \<Rightarrow> (u64 \<times> cid) option list \<Rightarrow> cid list" where
  "reqs h [] = []"
| "reqs h (None # ws) = reqs h ws"
| "reqs h (Some (h', c) # ws) = (if h' = h then c # reqs h ws else reqs h ws)"

lemma reqs_append [simp]: "reqs h (ws @ vs) = reqs h ws @ reqs h vs"
  by (induction h ws rule: reqs.induct) simp_all

lemma first_req_reqs: "first_req h ws = (case reqs h ws of [] \<Rightarrow> None | c # _ \<Rightarrow> Some c)"
  by (induction h ws rule: first_req.induct) simp_all

lemma reqs_dropWhile [simp]: "reqs h (dropWhile (\<lambda>x. x = None) ws) = reqs h ws"
  by (induction h ws rule: reqs.induct) simp_all

lemma take_first_reqs:
  "take_first h ws = (r, ws') \<Longrightarrow>
   r = (case reqs h ws of [] \<Rightarrow> None | c # _ \<Rightarrow> Some (h, c)) \<and> reqs h ws' = tl (reqs h ws) \<and>
   (\<forall>h'. h' \<noteq> h \<longrightarrow> reqs h' ws' = reqs h' ws)"
  by (induction h ws arbitrary: r ws' rule: take_first.induct) (auto split: prod.splits if_splits)

lemma pop_front_reqs:
  assumes "pop_front h la = (r, la')"
  shows "r = (case reqs h (waiting la) of [] \<Rightarrow> None | c # _ \<Rightarrow> Some (h, c))"
    "reqs h (waiting la') = tl (reqs h (waiting la))" "h' \<noteq> h \<Longrightarrow> reqs h' (waiting la') = reqs h' (waiting la)"
proof -
  have "r = (case reqs h (waiting la) of [] \<Rightarrow> None | c # _ \<Rightarrow> Some (h, c)) \<and>
      reqs h (waiting la') = tl (reqs h (waiting la)) \<and> (h' \<noteq> h \<longrightarrow> reqs h' (waiting la') = reqs h' (waiting la))"
  proof (cases "waiting la")
    case Nil
    then show ?thesis using assms by (auto simp: pop_front_def)
  next
    case (Cons x ws)
    show ?thesis
    proof (cases x)
      case None
      obtain ws' where "take_first h ws = (r, ws')" "la' = la\<lparr>waiting := ws'\<rparr>"
        using assms by (auto simp: pop_front_def Cons None split: prod.splits)
      with take_first_reqs [OF this(1)] show ?thesis by (simp add: Cons None)
    next
      case (Some p)
      obtain k c where p: "p = (k, c)" by (cases p)
      show ?thesis
      proof (cases "k = h")
        case True
        then show ?thesis using assms by (auto simp: pop_front_def Cons Some p maybe_shrink_def)
      next
        case False
        obtain ws' where "take_first h (waiting la) = (r, ws')" "la' = la\<lparr>waiting := ws'\<rparr>"
          using assms False by (auto simp: pop_front_def Cons Some p split: prod.splits)
        with take_first_reqs [OF this(1)] show ?thesis by simp
      qed
    qed
  qed
  then show "r = (case reqs h (waiting la) of [] \<Rightarrow> None | c # _ \<Rightarrow> Some (h, c))"
    "reqs h (waiting la') = tl (reqs h (waiting la))" "h' \<noteq> h \<Longrightarrow> reqs h' (waiting la') = reqs h' (waiting la)"
    by simp_all
qed

definition wf_latches :: "latches \<Rightarrow> bool" where
  "wf_latches L \<longleftrightarrow> (\<exists>k. latches_size L = 2 ^ k) \<and> length (slots L) = latches_size L"

definition latch_queue :: "latches \<Rightarrow> u64 \<Rightarrow> cid list" where
  "latch_queue L h = reqs h (waiting (slots L ! slot_index L h))"

lemma slot_index_less: "wf_latches L \<Longrightarrow> slot_index L h < length (slots L)"
proof -
  assume wf: "wf_latches L"
  then obtain k where k: "latches_size L = 2 ^ k" by (auto simp: wf_latches_def)
  have "slot_index L h = take_bit k (unat h)"
    by (simp add: slot_index_def k take_bit_eq_mask mask_eq_exp_minus_1)
  also have "\<dots> < 2 ^ k" by (rule take_bit_nat_less_exp)
  finally show ?thesis using wf k by (simp add: wf_latches_def)
qed

lemma wf_Latches_new: "wf_latches (Latches_new n)" "latch_queue (Latches_new n) h = []"
proof -
  show wf: "wf_latches (Latches_new n)"
    by (auto simp: wf_latches_def Latches_new_def next_power_of_two_def Let_def)
  have "slots (Latches_new n) ! slot_index (Latches_new n) h = Latch_new"
    using slot_index_less [OF wf, of h] by (simp add: Latches_new_def Let_def)
  then show "latch_queue (Latches_new n) h = []" by (simp add: latch_queue_def Latch_new_def)
qed

lemma set_latch_wf [simp]: "wf_latches (set_latch L h la) = wf_latches L"
  by (simp add: wf_latches_def set_latch_def)

lemma latch_queue_set:
  assumes "wf_latches L" "\<And>h'. h' \<noteq> h \<Longrightarrow> reqs h' (waiting la) = reqs h' (waiting (slots L ! slot_index L h))"
  shows "latch_queue (set_latch L h la) = (latch_queue L)(h := reqs h (waiting la))"
proof
  fix h'
  have idx: "slot_index (L\<lparr>slots := xs\<rparr>) h' = slot_index L h'" for xs by (simp add: slot_index_def)
  show "latch_queue (set_latch L h la) h' = ((latch_queue L)(h := reqs h (waiting la))) h'"
    using slot_index_less [OF assms(1), of h] assms(2) [of h']
    by (cases "slot_index L h' = slot_index L h") (auto simp: latch_queue_def idx set_latch_def)
qed

lemma acquire_slot_queue:
  assumes "wf_latches L"
  shows "case latch_queue L h of
      [] \<Rightarrow> \<exists>L'. acquire_slot L h c = Some (L', True) \<and> wf_latches L' \<and> latch_queue L' = (latch_queue L)(h := [c])
    | x # xs \<Rightarrow>
        if x = c then acquire_slot L h c = Some (L, True)
        else \<exists>L'. acquire_slot L h c = Some (L', False) \<and> wf_latches L' \<and>
          latch_queue L' = (latch_queue L)(h := latch_queue L h @ [c])"
proof -
  let ?la = "slots L ! slot_index L h"
  have la: "lock_latch L h = Some ?la" using slot_index_less [OF assms] by (simp add: lock_latch_def)
  have first: "get_first_req_by_hash ?la h = (case latch_queue L h of [] \<Rightarrow> None | c # _ \<Rightarrow> Some c)"
    by (simp add: get_first_req_by_hash_def first_req_reqs latch_queue_def)
  have "latch_queue (set_latch L h (wait_for_wake h c ?la)) = (latch_queue L)(h := latch_queue L h @ [c])"
    by (subst latch_queue_set [OF assms]) (auto simp: wait_for_wake_def latch_queue_def)
  then show ?thesis
    by (auto simp: acquire_slot_def la first assms split: list.split)
qed

lemma release_slot_queue:
  assumes "wf_latches L" "latch_queue L h = c # q" "\<And>k. k \<in> set ks \<Longrightarrow> h \<le> k" "ks \<noteq> [] \<Longrightarrow> d \<noteq> None"
  shows "\<exists>L'. wf_latches L' \<and>
    (if ks \<noteq> [] \<and> hd ks = h
     then release_slot L h c d ks = Some (L', None, tl ks) \<and> latch_queue L' = (latch_queue L)(h := the d # q)
     else release_slot L h c d ks = Some (L', (case q of [] \<Rightarrow> None | x # _ \<Rightarrow> Some x), ks) \<and>
       latch_queue L' = (latch_queue L)(h := q))"
proof -
  let ?la = "slots L ! slot_index L h"
  have la: "lock_latch L h = Some ?la" using slot_index_less [OF assms(1)] by (simp add: lock_latch_def)
  obtain r la' where pop: "pop_front h ?la = (r, la')" by force
  note p = pop_front_reqs [OF pop]
  have r: "r = Some (h, c)" "reqs h (waiting la') = q" using p(1,2) assms(2) by (simp_all add: latch_queue_def)
  have first: "get_first_req_by_hash la' h = (case q of [] \<Rightarrow> None | x # _ \<Rightarrow> Some x)"
    by (simp add: get_first_req_by_hash_def first_req_reqs r(2))
  have q1: "latch_queue (set_latch L h la') = (latch_queue L)(h := q)"
    by (subst latch_queue_set [OF assms(1)]) (simp_all add: p(3) r(2))
  have q2: "latch_queue (set_latch L h (push_preemptive h e la')) = (latch_queue L)(h := e # q)" for e
    by (subst latch_queue_set [OF assms(1)]) (simp_all add: push_preemptive_def p(3) r(2))
  show ?thesis
  proof (cases ks)
    case Nil
    then show ?thesis using q1 assms(1) by (auto simp: release_slot_def la pop r(1) first)
  next
    case (Cons k ks')
    then obtain e where e: "d = Some e" using assms(4) by auto
    have "\<not> k < h" using assms(3) [of k] by (simp add: Cons)
    then show ?thesis
      using q1 q2 [of e] assms(1) by (cases "k = h") (auto simp: release_slot_def la pop r(1) first e Cons)
  qed
qed

section \<open>Releasing\<close>

text \<open>The latches kept for the next command, and the wake up of a slot that is not kept.\<close>

definition kept_hashes :: "(cid \<times> latch_lock) option \<Rightarrow> u64 list" where
  "kept_hashes keep = (case keep of Some (_, next_lk) \<Rightarrow> required_hashes next_lk | None \<Rightarrow> [])"

definition released_queue :: "u64 list \<Rightarrow> u64 list \<Rightarrow> cid option \<Rightarrow> (u64 \<Rightarrow> cid list) \<Rightarrow> u64 \<Rightarrow> cid list" where
  "released_queue hs ks d Q h =
     (if h \<notin> set hs then Q h else if h \<in> set ks then the d # tl (Q h) else tl (Q h))"

lemma release_loop_queues:
  assumes "wf_latches L" "sorted_wrt (<) hs" "sorted_wrt (<) ks" "set ks \<subseteq> set hs" "ks \<noteq> [] \<Longrightarrow> d \<noteq> None"
    and "\<And>h. h \<in> set hs \<Longrightarrow> \<exists>q. latch_queue L h = c # q"
  shows "\<exists>L'. release_loop L c d ks hs ws =
      Some (L', ws @ concat (map (\<lambda>h. take 1 (tl (latch_queue L h))) (filter (\<lambda>h. h \<notin> set ks) hs))) \<and>
    wf_latches L' \<and> latch_queue L' = released_queue hs ks d (latch_queue L)"
  using assms
proof (induction hs arbitrary: L ks ws)
  case Nil
  then show ?case by (auto simp: released_queue_def)
next
  case (Cons h hs)
  obtain q where q: "latch_queue L h = c # q" using Cons.prems(6) [of h] by auto
  have h: "h \<notin> set hs" "\<And>k. k \<in> set ks \<Longrightarrow> h \<le> k" using Cons.prems(2,4) by (auto simp: less_imp_le)
  have kept: "h \<in> set ks \<longleftrightarrow> ks \<noteq> [] \<and> hd ks = h"
    using Cons.prems(3) h(2) by (cases ks) (auto simp: leD)
  obtain L1 where L1: "wf_latches L1"
    "if ks \<noteq> [] \<and> hd ks = h
     then release_slot L h c d ks = Some (L1, None, tl ks) \<and> latch_queue L1 = (latch_queue L)(h := the d # q)
     else release_slot L h c d ks = Some (L1, (case q of [] \<Rightarrow> None | x # _ \<Rightarrow> Some x), ks) \<and>
       latch_queue L1 = (latch_queue L)(h := q)"
    using release_slot_queue [OF Cons.prems(1) q h(2) Cons.prems(5)] by blast
  let ?ks = "if h \<in> set ks then tl ks else ks"
  have ks: "sorted_wrt (<) ?ks" "set ?ks = set ks - {h}"
    using Cons.prems(3) kept by (cases ks; force)+
  have Q1: "latch_queue L1 h' = latch_queue L h'" if "h' \<noteq> h" for h' using L1(2) that by (simp split: if_splits)
  have Q2: "latch_queue L1 h' = latch_queue L h'" if "h' \<in> set hs" for h' using Q1 [of h'] that h(1) by metis
  have slot: "release_slot L h c d ks = Some (L1, (if h \<in> set ks then None else case q of [] \<Rightarrow> None | x # _ \<Rightarrow> Some x), ?ks)"
    and Qh: "latch_queue L1 h = (if h \<in> set ks then the d # q else q)"
    using L1(2) unfolding kept by (simp_all split: if_splits)
  let ?w = "if h \<in> set ks then [] else take 1 q"
  have heads: "\<exists>q. latch_queue L1 h' = c # q" if "h' \<in> set hs" for h'
    using Cons.prems(6) [of h'] that by (simp add: Q2)
  have d: "d \<noteq> None" if "?ks \<noteq> []" using that by (intro Cons.prems(5)) (auto split: if_splits)
  obtain L' where L': "release_loop L1 c d ?ks hs (ws @ ?w) = Some (L', (ws @ ?w) @
      concat (map (\<lambda>h. take 1 (tl (latch_queue L1 h))) (filter (\<lambda>h. h \<notin> set ?ks) hs)))"
    "wf_latches L'" "latch_queue L' = released_queue hs ?ks d (latch_queue L1)"
    using Cons.IH [OF L1(1) _ ks(1) _ d heads, of "ws @ ?w"] Cons.prems(2,4) ks(2) by auto
  have "map (\<lambda>h. take 1 (tl (latch_queue L1 h))) (filter (\<lambda>h. h \<notin> set ?ks) hs) =
      map (\<lambda>h. take 1 (tl (latch_queue L h))) (filter (\<lambda>h. h \<notin> set ks) hs)"
    using h(1) unfolding ks(2) by (intro map_cong filter_cong) (auto simp: Q2)
  moreover have "(case (if h \<in> set ks then None else case q of [] \<Rightarrow> None | x # _ \<Rightarrow> Some x) of Some c \<Rightarrow> [c] | None \<Rightarrow> []) = ?w"
    by (cases q) simp_all
  moreover have "latch_queue L' = released_queue (h # hs) ks d (latch_queue L)"
    unfolding L'(3) released_queue_def ks(2) using h(1) Qh q by (auto simp: fun_eq_iff Q1 Q2)
  ultimately show ?case using L'(1,2) by (auto simp: slot q)
qed

text \<open>C21: Releasing.  A command that stands at the head of its latches can release them.  Of each latch kept
  for the next command that command becomes the head, without anyone being woken up; from each other
  latch the command is removed and the one behind it is in the list of those to wake up, in the order of
  the hashes; no other queue changes.\<close>

theorem release_correct:
  assumes "wf_latches L" "owned_count lk \<le> length (required_hashes lk)"
    and "sorted_wrt (<) (required_hashes lk)" "sorted_wrt (<) (kept_hashes keep)"
    and "set (kept_hashes keep) \<subseteq> set (take (owned_count lk) (required_hashes lk))"
    and "\<And>h. h \<in> set (take (owned_count lk) (required_hashes lk)) \<Longrightarrow> \<exists>q. latch_queue L h = c # q"
  shows "\<exists>L'. release L lk c keep = Some (L',
      concat (map (\<lambda>h. take 1 (tl (latch_queue L h)))
        (filter (\<lambda>h. h \<notin> set (kept_hashes keep)) (take (owned_count lk) (required_hashes lk))))) \<and>
    wf_latches L' \<and>
    (\<forall>h. latch_queue L' h =
      (if h \<notin> set (take (owned_count lk) (required_hashes lk)) then latch_queue L h
       else if h \<in> set (kept_hashes keep) then fst (the keep) # tl (latch_queue L h)
       else tl (latch_queue L h)))"
proof -
  have d: "map_option fst keep \<noteq> None" if "kept_hashes keep \<noteq> []"
    using that by (auto simp: kept_hashes_def split: option.splits)
  have e: "the (map_option fst keep) = fst (the keep)" if "h \<in> set (kept_hashes keep)" for h
    using that by (cases keep) (simp_all add: kept_hashes_def)
  from release_loop_queues [OF assms(1) sorted_wrt_take [OF assms(3)] assms(4,5) d assms(6), of "[]"] e
  show ?thesis using assms(2) by (auto simp: release_def kept_hashes_def [symmetric] released_queue_def)
qed

section \<open>Samples\<close>

definition sample_lock :: "u64 \<Rightarrow> nat \<Rightarrow> latch_lock" where
  "sample_lock h n = \<lparr> required_hashes = [h], owned_count = n \<rparr>"

definition sample_latches :: "(u64 \<times> cid) option list \<Rightarrow> latches" where
  "sample_latches ws = \<lparr> slots = [\<lparr> waiting = ws \<rparr>], latches_size = 1 \<rparr>"

lemma sample_slot:
  "slot_index (sample_latches ws) h = 0" "lock_latch (sample_latches ws) h = Some \<lparr> waiting = ws \<rparr>"
  "set_latch (sample_latches ws) h \<lparr> waiting = vs \<rparr> = sample_latches vs" "Latches_new (Suc 0) = sample_latches []"
  by (simp_all add: slot_index_def lock_latch_def set_latch_def sample_latches_def Latches_new_def Latch_new_def
      next_power_of_two_def floorlog_def)

theorem release_correct_witness:
  "\<exists>L'. release (sample_latches [Some (1, 7), Some (2, 7), Some (1, 8), Some (2, 9)]) \<lparr> required_hashes = [1, 2], owned_count = 2 \<rparr> 7
      (Some (5, sample_lock 2 0)) = Some (L', [8]) \<and> latch_queue L' 1 = [8] \<and> latch_queue L' 2 = [5, 9]"
proof -
  let ?L = "sample_latches [Some (1, 7), Some (2, 7), Some (1, 8), Some (2, 9)]"
  let ?lk = "\<lparr> required_hashes = [1, 2], owned_count = 2 \<rparr>" and ?keep = "Some (5 :: cid, sample_lock 2 0)"
  have q: "latch_queue ?L 1 = [7, 8]" "latch_queue ?L 2 = [7, 9]"
    by (simp_all add: latch_queue_def sample_slot) (simp_all add: sample_latches_def)
  have wf: "wf_latches ?L" by (auto simp: wf_latches_def sample_latches_def intro: exI [of _ 0])
  have k: "kept_hashes ?keep = [2]" by (simp add: kept_hashes_def sample_lock_def)
  have h: "\<exists>q. latch_queue ?L h = 7 # q" if "h \<in> set (take (owned_count ?lk) (required_hashes ?lk))" for h
    using that q by auto
  from release_correct [of ?L ?lk ?keep 7, OF wf _ _ _ _ h] show ?thesis
    by (auto simp: k q)
qed

end
