(* ===== verification/Scheduler_Latches.thy ===== *)
theory Scheduler_Latches
  imports Txn_Latch
begin

text \<open>
  How the scheduler of \<^verbatim>\<open>src/storage/txn/scheduler.rs\<close> acquires the latches of a command, waits for
  them, is woken up, hands them over and releases them.  A slot is guarded by a mutex, so the atomic
  steps of concurrent commands are the visits of single slots.  Shown are mutual exclusion, the same
  order in all queues, and that no command waits forever.
\<close>

section \<open>The scheduler's use of the latches\<close>

text \<open>
  A command is acquiring (with the number of latches acquired in this call), waiting to be woken up,
  holding all its latches while it is processed, releasing (the hashes still to release and the command
  that takes over latches with those still to hand over), or it is a command to which latches are
  being handed over (with the number received).  The mutex of the task slot is held during a call of
  \<^verbatim>\<open>acquire\<close>, so a wake up finds the command waiting.  The commands to wake up are pending from the
  visit of the slot on; the code delivers the list after the last slot.
\<close>

datatype task_state =
    Acquiring latch_lock nat
  | Waiting latch_lock
  | Holding latch_lock
  | Releasing "u64 list" "(cid \<times> u64 list) option"
  | Inheriting latch_lock nat

record sched =
  sched_latches :: latches
  tasks :: "cid \<rightharpoonup> task_state"
  pending :: "cid list"

definition sched_init :: "nat \<Rightarrow> sched" where
  "sched_init n = \<lparr> sched_latches = Latches_new n, tasks = Map.empty, pending = [] \<rparr>"

text \<open>
  The calls of \<^verbatim>\<open>acquire\<close> when a command is scheduled or woken up, slot by slot, and what the result
  decides.
\<close>

inductive sched_acquire :: "sched \<Rightarrow> sched \<Rightarrow> bool" where
  acquire_next_step:
    "\<lbrakk> tasks s c = Some (Acquiring lk n); owned_count lk + n < length (required_hashes lk);
       acquire_slot (sched_latches s) (required_hashes lk ! (owned_count lk + n)) c = Some (L, True) \<rbrakk> \<Longrightarrow>
     sched_acquire s (s\<lparr>sched_latches := L, tasks := (tasks s)(c \<mapsto> Acquiring lk (n + 1))\<rparr>)"
| acquire_wait_step:
    "\<lbrakk> tasks s c = Some (Acquiring lk n); owned_count lk + n < length (required_hashes lk);
       acquire_slot (sched_latches s) (required_hashes lk ! (owned_count lk + n)) c = Some (L, False) \<rbrakk> \<Longrightarrow>
     sched_acquire s (s\<lparr>sched_latches := L, tasks := (tasks s)(c \<mapsto> Waiting (lk\<lparr>owned_count := owned_count lk + n\<rparr>))\<rparr>)"
| acquire_done_step:
    "\<lbrakk> tasks s c = Some (Acquiring lk n); owned_count lk + n = length (required_hashes lk) \<rbrakk> \<Longrightarrow>
     sched_acquire s (s\<lparr>tasks := (tasks s)(c \<mapsto> Holding (lk\<lparr>owned_count := owned_count lk + n\<rparr>))\<rparr>)"

text \<open>
  A command that is woken up tries again, or has expired and releases what it owns and the latch it was
  woken up for.
\<close>

inductive acquire_lock_on_wakeup :: "sched \<Rightarrow> sched \<Rightarrow> bool" where
  wake_up_step:
    "\<lbrakk> c \<in> set (pending s); tasks s c = Some (Waiting lk) \<rbrakk> \<Longrightarrow>
     acquire_lock_on_wakeup s (s\<lparr>tasks := (tasks s)(c \<mapsto> Acquiring lk 0), pending := remove1 c (pending s)\<rparr>)"
| wake_up_expired_step:
    "\<lbrakk> c \<in> set (pending s); tasks s c = Some (Waiting lk) \<rbrakk> \<Longrightarrow>
     acquire_lock_on_wakeup s
       (s\<lparr>tasks := (tasks s)(c \<mapsto> Releasing (take (owned_count lk + 1) (required_hashes lk)) None),
          pending := remove1 c (pending s)\<rparr>)"

text \<open>
  A command that is processed ends without a successor.  The other ends of a command, on an error
  and after a read, release the latches by the same call.
\<close>

inductive command_finished :: "sched \<Rightarrow> sched \<Rightarrow> bool" where
  finish_command_step:
    "tasks s c = Some (Holding lk) \<Longrightarrow>
     command_finished s (s\<lparr>tasks := (tasks s)(c \<mapsto> Releasing (take (owned_count lk) (required_hashes lk)) None)\<rparr>)"

text \<open>The call of \<^verbatim>\<open>release\<close>, slot by slot.\<close>

inductive release_latches :: "sched \<Rightarrow> sched \<Rightarrow> bool" where
  release_next_step:
    "\<lbrakk> tasks s c = Some (Releasing (h # hs) None);
       release_slot (sched_latches s) h c None [] = Some (L, w, []) \<rbrakk> \<Longrightarrow>
     release_latches s (s\<lparr>sched_latches := L, tasks := (tasks s)(c \<mapsto> Releasing hs None),
       pending := pending s @ (case w of Some x \<Rightarrow> [x] | None \<Rightarrow> [])\<rparr>)"
| release_next_keep_step:
    "\<lbrakk> tasks s c = Some (Releasing (h # hs) (Some (d, ks))); tasks s d = Some (Inheriting lk n);
       release_slot (sched_latches s) h c (Some d) ks = Some (L, w, ks') \<rbrakk> \<Longrightarrow>
     release_latches s (s\<lparr>sched_latches := L,
       tasks := (tasks s)(c \<mapsto> Releasing hs (Some (d, ks')),
         d \<mapsto> Inheriting lk (length (required_hashes lk) - length ks')),
       pending := pending s @ (case w of Some x \<Rightarrow> [x] | None \<Rightarrow> [])\<rparr>)"
| release_done_step:
    "tasks s c = Some (Releasing [] None) \<Longrightarrow>
     release_latches s (s\<lparr>tasks := (tasks s)(c := None)\<rparr>)"

text \<open>After a hand over the next command is scheduled with its latches assumed to be acquired.\<close>

inductive schedule_next :: "sched \<Rightarrow> sched \<Rightarrow> bool" where
  release_done_keep_step:
    "\<lbrakk> tasks s c = Some (Releasing [] (Some (d, []))); tasks s d = Some (Inheriting lk n) \<rbrakk> \<Longrightarrow>
     schedule_next s (s\<lparr>tasks := (tasks s)(c := None, d \<mapsto> Acquiring (force_assume_acquired lk) 0)\<rparr>)"

text \<open>The steps of the commands that are there.\<close>

inductive sched_work :: "sched \<Rightarrow> sched \<Rightarrow> bool" where
  work_acquire: "sched_acquire s s' \<Longrightarrow> sched_work s s'"
| work_wake_up: "acquire_lock_on_wakeup s s' \<Longrightarrow> sched_work s s'"
| work_finish: "command_finished s s' \<Longrightarrow> sched_work s s'"
| work_release: "release_latches s s' \<Longrightarrow> sched_work s s'"
| work_next: "schedule_next s s' \<Longrightarrow> sched_work s s'"

lemmas acquire_next = acquire_next_step [THEN work_acquire]
lemmas acquire_wait = acquire_wait_step [THEN work_acquire]
lemmas acquire_done = acquire_done_step [THEN work_acquire]
lemmas wake_up = wake_up_step [THEN work_wake_up]
lemmas wake_up_expired = wake_up_expired_step [THEN work_wake_up]
lemmas finish_command = finish_command_step [THEN work_finish]
lemmas release_next = release_next_step [THEN work_release]
lemmas release_next_keep = release_next_keep_step [THEN work_release]
lemmas release_done = release_done_step [THEN work_release]
lemmas release_done_keep = release_done_keep_step [THEN work_next]

text \<open>
  New commands, and commands that take over some of the latches of a finished one; the latches
  handed over are among those released, as \<^verbatim>\<open>release\<close> requires.
\<close>

inductive schedule_command :: "(bytes \<Rightarrow> u64) \<Rightarrow> sched \<Rightarrow> sched \<Rightarrow> bool" for hash where
  new_command:
    "tasks s c = None \<Longrightarrow>
     schedule_command hash s (s\<lparr>tasks := (tasks s)(c \<mapsto> Acquiring (latch_lock_new hash ks) 0)\<rparr>)"

inductive hand_over_latches :: "(bytes \<Rightarrow> u64) \<Rightarrow> sched \<Rightarrow> sched \<Rightarrow> bool" for hash where
  hand_over:
    "\<lbrakk> tasks s c = Some (Holding lk); tasks s d = None; lk' = latch_lock_new hash ks;
       set (required_hashes lk') \<subseteq> set (required_hashes lk) \<rbrakk> \<Longrightarrow>
     hand_over_latches hash s (s\<lparr>tasks := (tasks s)
       (c \<mapsto> Releasing (take (owned_count lk) (required_hashes lk)) (Some (d, required_hashes lk')),
        d \<mapsto> Inheriting lk' 0)\<rparr>)"

inductive sched_arrive :: "(bytes \<Rightarrow> u64) \<Rightarrow> sched \<Rightarrow> sched \<Rightarrow> bool" for hash where
  arrive_command: "schedule_command hash s s' \<Longrightarrow> sched_arrive hash s s'"
| arrive_hand_over: "hand_over_latches hash s s' \<Longrightarrow> sched_arrive hash s s'"

inductive sched_reachable :: "(bytes \<Rightarrow> u64) \<Rightarrow> nat \<Rightarrow> sched \<Rightarrow> bool" for hash n where
  reach_init: "sched_reachable hash n (sched_init n)"
| reach_work: "sched_reachable hash n s \<Longrightarrow> sched_work s s' \<Longrightarrow> sched_reachable hash n s'"
| reach_arrive: "sched_reachable hash n s \<Longrightarrow> sched_arrive hash s s' \<Longrightarrow> sched_reachable hash n s'"

section \<open>The invariant\<close>

definition at_head :: "(u64 \<Rightarrow> cid list) \<Rightarrow> cid \<Rightarrow> u64 \<Rightarrow> bool" where
  "at_head Q c h \<longleftrightarrow> (\<exists>q. Q h = c # q)"

text \<open>The latches a command owns, and the one it asks for.\<close>

fun owns :: "task_state \<Rightarrow> u64 set" where
  "owns (Acquiring lk n) = set (take (owned_count lk + n) (required_hashes lk))"
| "owns (Waiting lk) = set (take (owned_count lk) (required_hashes lk))"
| "owns (Holding lk) = set (take (owned_count lk) (required_hashes lk))"
| "owns (Releasing hs keep) = set hs"
| "owns (Inheriting lk n) = set (take n (required_hashes lk))"

fun claims :: "task_state \<Rightarrow> u64 option" where
  "claims (Acquiring lk n) =
     (if owned_count lk + n < length (required_hashes lk) then Some (required_hashes lk ! (owned_count lk + n)) else None)"
| "claims (Waiting lk) = Some (required_hashes lk ! owned_count lk)"
| "claims _ = None"

abbreviation strict :: "u64 list \<Rightarrow> bool" where
  "strict hs \<equiv> sorted_wrt (<) hs"

fun task_wf :: "task_state \<Rightarrow> bool" where
  "task_wf (Acquiring lk n) \<longleftrightarrow> strict (required_hashes lk) \<and> owned_count lk + n \<le> length (required_hashes lk)"
| "task_wf (Waiting lk) \<longleftrightarrow> strict (required_hashes lk) \<and> owned_count lk < length (required_hashes lk)"
| "task_wf (Holding lk) \<longleftrightarrow> strict (required_hashes lk) \<and> owned_count lk = length (required_hashes lk)"
| "task_wf (Releasing hs keep) \<longleftrightarrow>
     strict hs \<and> (case keep of None \<Rightarrow> True | Some (d, ks) \<Rightarrow> strict ks \<and> set ks \<subseteq> set hs)"
| "task_wf (Inheriting lk n) \<longleftrightarrow> strict (required_hashes lk) \<and> n \<le> length (required_hashes lk)"

fun is_waiting :: "task_state \<Rightarrow> bool" where
  "is_waiting (Waiting lk) = True"
| "is_waiting _ = False"

definition task_inv :: "(u64 \<Rightarrow> cid list) \<Rightarrow> cid set \<Rightarrow> cid \<Rightarrow> task_state \<Rightarrow> bool" where
  "task_inv Q P c t \<longleftrightarrow>
     task_wf t \<and> (\<forall>h \<in> owns t. at_head Q c h) \<and>
     (\<forall>h. claims t = Some h \<longrightarrow>
        (if is_waiting t then c \<in> set (Q h) \<and> (at_head Q c h \<longrightarrow> c \<in> P) else c \<in> set (Q h) \<longrightarrow> at_head Q c h)) \<and>
     (c \<in> P \<longrightarrow> is_waiting t \<and> (\<forall>h. claims t = Some h \<longrightarrow> at_head Q c h))"

definition queues_inv :: "(u64 \<Rightarrow> cid list) \<Rightarrow> (cid \<rightharpoonup> task_state) \<Rightarrow> bool" where
  "queues_inv Q T \<longleftrightarrow>
     (\<forall>h. distinct (Q h) \<and> (\<forall>c \<in> set (Q h). \<exists>t. T c = Some t \<and> (h \<in> owns t \<or> claims t = Some h)))"

definition keeps_inv :: "(cid \<rightharpoonup> task_state) \<Rightarrow> bool" where
  "keeps_inv T \<longleftrightarrow>
     (\<forall>c hs d ks. T c = Some (Releasing hs (Some (d, ks))) \<longrightarrow>
        (\<exists>lk n. T d = Some (Inheriting lk n) \<and> ks = drop n (required_hashes lk)) \<and>
        (\<forall>c' hs' ks'. T c' = Some (Releasing hs' (Some (d, ks'))) \<longrightarrow> c' = c)) \<and>
     (\<forall>d lk n. T d = Some (Inheriting lk n) \<longrightarrow> (\<exists>c hs ks. T c = Some (Releasing hs (Some (d, ks)))))"

definition sched_inv :: "sched \<Rightarrow> bool" where
  "sched_inv s \<longleftrightarrow>
     wf_latches (sched_latches s) \<and> finite (dom (tasks s)) \<and> distinct (pending s) \<and> set (pending s) \<subseteq> dom (tasks s) \<and>
     (\<forall>c t. tasks s c = Some t \<longrightarrow> task_inv (latch_queue (sched_latches s)) (set (pending s)) c t) \<and>
     queues_inv (latch_queue (sched_latches s)) (tasks s) \<and> keeps_inv (tasks s)"

lemma sched_invI:
  assumes "wf_latches (sched_latches s)" "finite (dom (tasks s))" "distinct (pending s)" "set (pending s) \<subseteq> dom (tasks s)"
    "\<And>c t. tasks s c = Some t \<Longrightarrow> task_inv (latch_queue (sched_latches s)) (set (pending s)) c t"
    "queues_inv (latch_queue (sched_latches s)) (tasks s)" "keeps_inv (tasks s)"
  shows "sched_inv s"
  using assms by (simp add: sched_inv_def)

lemma sched_invD:
  assumes "sched_inv s"
  shows "wf_latches (sched_latches s)" "finite (dom (tasks s))" "distinct (pending s)" "set (pending s) \<subseteq> dom (tasks s)"
    "tasks s c = Some t \<Longrightarrow> task_inv (latch_queue (sched_latches s)) (set (pending s)) c t"
    "queues_inv (latch_queue (sched_latches s)) (tasks s)" "keeps_inv (tasks s)"
  using assms by (simp_all add: sched_inv_def)

text \<open>What a command does not see of the steps of others.\<close>

lemma task_inv_cong:
  assumes "task_inv Q P c t" "\<And>h. at_head Q' c h = at_head Q c h" "\<And>h. c \<in> set (Q' h) \<longleftrightarrow> c \<in> set (Q h)" "c \<in> P' \<longleftrightarrow> c \<in> P"
  shows "task_inv Q' P' c t"
  using assms unfolding task_inv_def by simp

lemma at_head_append: "e \<noteq> c \<Longrightarrow> at_head (Q(h := Q h @ [c])) e h' = at_head Q e h'"
  by (cases "Q h") (auto simp: at_head_def)

lemma at_head_cons: "Q h = c # q \<Longrightarrow> e \<noteq> c \<Longrightarrow> e \<noteq> d \<Longrightarrow> at_head (Q(h := d # q)) e h' = at_head Q e h'"
  by (auto simp: at_head_def)

lemma strict_nth_not_taken: "strict hs \<Longrightarrow> n < length hs \<Longrightarrow> hs ! n \<notin> set (take n hs)"
  by (auto simp: in_set_conv_nth sorted_wrt_iff_nth_less) (metis order.irrefl)

lemma strict_take: "strict hs \<Longrightarrow> strict (take n hs)"
  by (simp add: sorted_wrt_take)

lemma owns_claims_disjoint: "task_wf t \<Longrightarrow> claims t = Some h \<Longrightarrow> h \<notin> owns t"
  by (cases t) (auto simp: strict_nth_not_taken split: if_splits)

lemma take_Suc_set: "n < length hs \<Longrightarrow> set (take (Suc n) hs) = insert (hs ! n) (set (take n hs))"
  by (simp add: take_Suc_conv_app_nth)

fun plain_task :: "task_state \<Rightarrow> bool" where
  "plain_task (Releasing hs (Some k)) = False"
| "plain_task (Inheriting lk n) = False"
| "plain_task _ = True"

lemma plain_taskD: "plain_task t \<Longrightarrow> t \<noteq> Releasing hs (Some k) \<and> t \<noteq> Inheriting lk n"
  by auto

lemma keeps_inv_upd:
  assumes "keeps_inv T" "case T c of None \<Rightarrow> True | Some t \<Rightarrow> plain_task t" "case t' of None \<Rightarrow> True | Some t \<Rightarrow> plain_task t"
  shows "keeps_inv (T(c := t'))"
proof -
  have R: "(T(c := t')) e = Some (Releasing hs (Some k)) \<longleftrightarrow> T e = Some (Releasing hs (Some k))" for e hs k
    using assms(2,3) by (auto dest: plain_taskD split: option.splits)
  have I: "(T(c := t')) e = Some (Inheriting lk n) \<longleftrightarrow> T e = Some (Inheriting lk n)" for e lk n
    using assms(2,3) by (auto dest: plain_taskD split: option.splits)
  show ?thesis using assms(1) unfolding keeps_inv_def R I .
qed

text \<open>A step that changes one command.\<close>

lemma sched_inv_step:
  assumes inv: "sched_inv s" and s': "sched_latches s' = L" "tasks s' = (tasks s)(c \<mapsto> t')" "pending s' = P"
    and L: "wf_latches L" and P: "distinct P" "set P \<subseteq> insert c (dom (tasks s))"
    and own: "task_inv (latch_queue L) (set P) c t'"
    and others: "\<And>e te. e \<noteq> c \<Longrightarrow> tasks s e = Some te \<Longrightarrow> task_inv (latch_queue (sched_latches s)) (set (pending s)) e te \<Longrightarrow>
      task_inv (latch_queue L) (set P) e te"
    and q: "\<And>h. distinct (latch_queue L h)" "\<And>h. c \<in> set (latch_queue L h) \<Longrightarrow> h \<in> owns t' \<or> claims t' = Some h"
      "\<And>e h. e \<noteq> c \<Longrightarrow> e \<in> set (latch_queue L h) \<Longrightarrow> e \<in> set (latch_queue (sched_latches s) h)"
    and keep: "case tasks s c of None \<Rightarrow> True | Some t \<Rightarrow> plain_task t" "plain_task t'"
  shows "sched_inv s'"
proof (rule sched_invI)
  show "wf_latches (sched_latches s')" "distinct (pending s')" "set (pending s') \<subseteq> dom (tasks s')"
    using L P by (auto simp: s')
  show "finite (dom (tasks s'))" using sched_invD(2) [OF inv] by (simp add: s')
  show "task_inv (latch_queue (sched_latches s')) (set (pending s')) e te" if "tasks s' e = Some te" for e te
    using that own others sched_invD(5) [OF inv] by (cases "e = c") (auto simp: s')
  show "keeps_inv (tasks s')" unfolding s' using sched_invD(7) [OF inv] keep by (intro keeps_inv_upd) auto
  show "queues_inv (latch_queue (sched_latches s')) (tasks s')"
    unfolding queues_inv_def s'
  proof (intro allI conjI ballI)
    show "distinct (latch_queue L h)" for h by (rule q(1))
    fix h e assume e: "e \<in> set (latch_queue L h)"
    show "\<exists>t. ((tasks s)(c \<mapsto> t')) e = Some t \<and> (h \<in> owns t \<or> claims t = Some h)"
      using q(2) [of h] q(3) [of e h] e sched_invD(6) [OF inv] unfolding queues_inv_def by (cases "e = c") auto
  qed
qed

lemma queue_memberD:
  "sched_inv s \<Longrightarrow> c \<in> set (latch_queue (sched_latches s) h) \<Longrightarrow> tasks s c = Some t \<Longrightarrow> h \<in> owns t \<or> claims t = Some h"
  using sched_invD(6) unfolding queues_inv_def by fastforce

lemma queue_distinct: "sched_inv s \<Longrightarrow> distinct (latch_queue (sched_latches s) h)"
  using sched_invD(6) unfolding queues_inv_def by blast

lemma at_head_member: "at_head Q c h \<Longrightarrow> c \<in> set (Q h)"
  by (auto simp: at_head_def)

text \<open>A step that leaves the queues alone and does not change what the command holds.\<close>

lemma sched_inv_local:
  assumes inv: "sched_inv s" and s': "sched_latches s' = sched_latches s" "tasks s' = (tasks s)(c \<mapsto> t')"
      "pending s' = remove1 c (pending s)"
    and t: "tasks s c = Some t" "plain_task t" "plain_task t'" "\<not> is_waiting t'"
    and own: "task_wf t'" "owns t \<union> set_option (claims t) \<subseteq> owns t' \<union> set_option (claims t')"
      "owns t' \<subseteq> owns t \<union> set_option (claims t)"
      "\<And>h. claims t = Some h \<Longrightarrow> c \<in> set (latch_queue (sched_latches s) h) \<Longrightarrow> at_head (latch_queue (sched_latches s)) c h"
      "\<And>h. claims t = Some h \<Longrightarrow> h \<in> owns t' \<Longrightarrow> at_head (latch_queue (sched_latches s)) c h"
  shows "sched_inv s'"
proof -
  let ?Q = "latch_queue (sched_latches s)"
  note ti = sched_invD(5) [OF inv t(1)]
  have P: "set (remove1 c (pending s)) = set (pending s) - {c}" using sched_invD(3) [OF inv] by simp
  have head: "at_head ?Q c h" if "h \<in> owns t'" for h
    using that own(3,5) ti unfolding task_inv_def by auto
  have "task_inv ?Q (set (remove1 c (pending s))) c t'"
    unfolding task_inv_def P using own(1,4) head t(4) ti queue_memberD [OF inv _ t(1)]
    unfolding task_inv_def by (auto dest: at_head_member)
  then show ?thesis
  proof (intro sched_inv_step [OF inv s'])
    show "h \<in> owns t' \<or> claims t' = Some h" if "c \<in> set (?Q h)" for h
      using queue_memberD [OF inv that t(1)] own(2) by auto
  qed (use t sched_invD [OF inv] queue_distinct [OF inv] in \<open>auto simp: P intro: task_inv_cong dest: in_set_remove1\<close>)
qed

lemma not_pending:
  assumes "sched_inv s" "tasks s c = Some t" "\<not> is_waiting t"
  shows "remove1 c (pending s) = pending s"
  using sched_invD(5) [OF assms(1,2)] assms(3) by (intro remove1_idem) (auto simp: task_inv_def)

section \<open>Every step keeps the invariant\<close>

lemma inv_acquire_done:
  assumes inv: "sched_inv s" and t: "tasks s c = Some (Acquiring lk n)" "owned_count lk + n = length (required_hashes lk)"
  shows "sched_inv (s\<lparr>tasks := (tasks s)(c \<mapsto> Holding (lk\<lparr>owned_count := owned_count lk + n\<rparr>))\<rparr>)"
  using sched_invD(5) [OF inv t(1)] t not_pending [OF inv t(1)]
  by (intro sched_inv_local [OF inv _ _ _ t(1)]) (auto simp: task_inv_def)

lemma inv_finish_command:
  assumes inv: "sched_inv s" and t: "tasks s c = Some (Holding lk)"
  shows "sched_inv (s\<lparr>tasks := (tasks s)(c \<mapsto> Releasing (take (owned_count lk) (required_hashes lk)) None)\<rparr>)"
  using sched_invD(5) [OF inv t] not_pending [OF inv t]
  by (intro sched_inv_local [OF inv _ _ _ t]) (auto simp: task_inv_def)

lemma inv_wake_up:
  assumes inv: "sched_inv s" and t: "c \<in> set (pending s)" "tasks s c = Some (Waiting lk)"
  shows "sched_inv (s\<lparr>tasks := (tasks s)(c \<mapsto> Acquiring lk 0), pending := remove1 c (pending s)\<rparr>)"
  using sched_invD(5) [OF inv t(2)] t(1)
  by (intro sched_inv_local [OF inv _ _ _ t(2)]) (auto simp: task_inv_def)

lemma inv_wake_up_expired:
  assumes inv: "sched_inv s" and t: "c \<in> set (pending s)" "tasks s c = Some (Waiting lk)"
  shows "sched_inv (s\<lparr>tasks := (tasks s)(c \<mapsto> Releasing (take (owned_count lk + 1) (required_hashes lk)) None),
       pending := remove1 c (pending s)\<rparr>)"
  using sched_invD(5) [OF inv t(2)] t(1)
  by (intro sched_inv_local [OF inv _ _ _ t(2)]) (auto simp: task_inv_def take_Suc_set strict_take)

lemma claim_new:
  assumes inv: "sched_inv s" and t: "tasks s c = Some (Acquiring lk n)" "owned_count lk + n < length (required_hashes lk)"
    and h: "h = required_hashes lk ! (owned_count lk + n)" "\<not> at_head (latch_queue (sched_latches s)) c h"
  shows "c \<notin> set (latch_queue (sched_latches s) h)"
  using sched_invD(5) [OF inv t(1)] t(2) h by (auto simp: task_inv_def)

lemma inv_enqueue:
  assumes inv: "sched_inv s" and t: "tasks s c = Some (Acquiring lk n)" "owned_count lk + n < length (required_hashes lk)"
    and h: "h = required_hashes lk ! (owned_count lk + n)" "latch_queue (sched_latches s) h = []"
    and L: "wf_latches L" "latch_queue L = (latch_queue (sched_latches s))(h := [c])"
  shows "sched_inv (s\<lparr>sched_latches := L\<rparr>)"
proof -
  let ?Q = "latch_queue (sched_latches s)"
  note ti = sched_invD(5) [OF inv t(1)]
  have Q': "latch_queue L = ?Q(h := ?Q h @ [c])" using L(2) h(2) by simp
  show ?thesis
  proof (rule sched_inv_step [OF inv _ _ _ L(1)])
    show "task_inv (latch_queue L) (set (pending s)) c (Acquiring lk n)"
      using ti unfolding task_inv_def L(2) by (auto simp: at_head_def)
    show "task_inv (latch_queue L) (set (pending s)) e te"
      if "e \<noteq> c" "tasks s e = Some te" "task_inv ?Q (set (pending s)) e te" for e te
      by (rule task_inv_cong [OF that(3)]) (auto simp: Q' at_head_append [OF that(1)] that(1))
  qed (use t h L(2) sched_invD [OF inv] queue_distinct [OF inv] in \<open>auto split: if_splits dest: queue_memberD [OF inv _ t(1)]\<close>)
qed

lemma inv_acquire_next:
  assumes inv: "sched_inv s" and t: "tasks s c = Some (Acquiring lk n)" "owned_count lk + n < length (required_hashes lk)"
    and slot: "acquire_slot (sched_latches s) (required_hashes lk ! (owned_count lk + n)) c = Some (L, True)"
  shows "sched_inv (s\<lparr>sched_latches := L, tasks := (tasks s)(c \<mapsto> Acquiring lk (n + 1))\<rparr>)"
proof -
  let ?h = "required_hashes lk ! (owned_count lk + n)" and ?s = "s\<lparr>sched_latches := L\<rparr>"
  let ?Q = "latch_queue (sched_latches s)"
  have q: "sched_inv ?s \<and> at_head (latch_queue L) c ?h"
  proof (cases "?Q ?h")
    case Nil
    then have "wf_latches L" "latch_queue L = ?Q(?h := [c])"
      using acquire_slot_queue [OF sched_invD(1) [OF inv], of ?h c] slot by auto
    then show ?thesis using inv_enqueue [OF inv t refl Nil] by (simp add: at_head_def)
  next
    case (Cons x xs)
    then have "x = c" "L = sched_latches s"
      using acquire_slot_queue [OF sched_invD(1) [OF inv], of ?h c] slot by (auto split: if_splits)
    then show ?thesis using inv Cons by (simp add: at_head_def)
  qed
  have t1: "tasks ?s c = Some (Acquiring lk n)" using t(1) by simp
  have wf: "task_wf (Acquiring lk n)" using sched_invD(5) [OF inv t(1)] by (simp add: task_inv_def)
  show ?thesis
    using q t(2) wf not_pending [OF inv t(1)]
    by (intro sched_inv_local [OF conjunct1 [OF q] _ _ _ t1]) (auto simp: take_Suc_set)
qed

lemma inv_acquire_wait:
  assumes inv: "sched_inv s" and t: "tasks s c = Some (Acquiring lk n)" "owned_count lk + n < length (required_hashes lk)"
    and slot: "acquire_slot (sched_latches s) (required_hashes lk ! (owned_count lk + n)) c = Some (L, False)"
  shows "sched_inv (s\<lparr>sched_latches := L, tasks := (tasks s)(c \<mapsto> Waiting (lk\<lparr>owned_count := owned_count lk + n\<rparr>))\<rparr>)"
proof -
  let ?h = "required_hashes lk ! (owned_count lk + n)"
  let ?Q = "latch_queue (sched_latches s)"
  obtain x xs where x: "?Q ?h = x # xs" "x \<noteq> c" "wf_latches L" "latch_queue L = ?Q(?h := ?Q ?h @ [c])"
    using acquire_slot_queue [OF sched_invD(1) [OF inv], of ?h c] slot
    by (cases "?Q ?h") (auto split: if_splits)
  note ti = sched_invD(5) [OF inv t(1)]
  have new: "c \<notin> set (?Q ?h)" using claim_new [OF inv t refl] x(1,2) by (auto simp: at_head_def)
  show ?thesis
  proof (rule sched_inv_step [OF inv _ _ _ x(3)])
    show "task_inv (latch_queue L) (set (pending s)) c (Waiting (lk\<lparr>owned_count := owned_count lk + n\<rparr>))"
      using ti t(2) x(1,2) unfolding task_inv_def x(4) by (auto simp: at_head_def)
    show "task_inv (latch_queue L) (set (pending s)) e te"
      if "e \<noteq> c" "tasks s e = Some te" "task_inv ?Q (set (pending s)) e te" for e te
      by (rule task_inv_cong [OF that(3)]) (auto simp: x(4) at_head_append [OF that(1)] that(1))
  qed (use t new x(4) sched_invD [OF inv] queue_distinct [OF inv] in \<open>auto split: if_splits dest: queue_memberD [OF inv _ t(1)]\<close>)
qed

text \<open>The command behind the owner of a latch waits for it and has not been woken up.\<close>

lemma next_waits:
  assumes inv: "sched_inv s" and q: "latch_queue (sched_latches s) h = c # x # r"
  obtains lk where "tasks s x = Some (Waiting lk)" "claims (Waiting lk) = Some h" "x \<notin> set (pending s)"
proof -
  let ?Q = "latch_queue (sched_latches s)"
  obtain t where t: "tasks s x = Some t" "h \<in> owns t \<or> claims t = Some h"
    using sched_invD(6) [OF inv] q unfolding queues_inv_def by (metis list.set_intros)
  note ti = sched_invD(5) [OF inv t(1), unfolded task_inv_def]
  have "c \<noteq> x" using queue_distinct [OF inv, of h] q by auto
  then have nh: "\<not> at_head ?Q x h" using q by (simp add: at_head_def)
  then have cl: "claims t = Some h" using t(2) ti by blast
  have "is_waiting t" using ti cl nh q by (auto split: if_splits)
  then obtain lk where "t = Waiting lk" by (cases t) auto
  moreover have "x \<notin> set (pending s)" using ti cl nh by blast
  ultimately show ?thesis using that t(1) cl by blast
qed

definition woken :: "cid list \<Rightarrow> cid list" where
  "woken q = (case q of [] \<Rightarrow> [] | x # _ \<Rightarrow> [x])"

lemma woken_eq: "(case (case q of [] \<Rightarrow> None | x # _ \<Rightarrow> Some x) of Some x \<Rightarrow> [x] | None \<Rightarrow> []) = woken q"
  by (simp add: woken_def split: list.split)

lemma woken_pending:
  assumes inv: "sched_inv s" and q: "latch_queue (sched_latches s) h = c # q"
  shows "distinct (pending s @ woken q)" "set (pending s @ woken q) \<subseteq> dom (tasks s)" "c \<notin> set (woken q)"
proof -
  have "distinct (pending s @ woken q) \<and> set (pending s @ woken q) \<subseteq> dom (tasks s) \<and> c \<notin> set (woken q)"
  proof (cases q)
    case Nil
    then show ?thesis using sched_invD(3,4) [OF inv] by (simp add: woken_def)
  next
    case (Cons x r)
    obtain lk where "tasks s x = Some (Waiting lk)" "x \<notin> set (pending s)"
      by (rule next_waits [OF inv q [unfolded Cons]])
    moreover have "c \<noteq> x" using queue_distinct [OF inv, of h] q by (auto simp: Cons)
    ultimately show ?thesis using sched_invD(3,4) [OF inv] by (auto simp: woken_def Cons)
  qed
  then show "distinct (pending s @ woken q)" "set (pending s @ woken q) \<subseteq> dom (tasks s)" "c \<notin> set (woken q)"
    by blast+
qed

lemma release_others:
  assumes inv: "sched_inv s" and q: "latch_queue (sched_latches s) h = c # q"
    and e: "e \<noteq> c" "tasks s e = Some te"
  shows "task_inv ((latch_queue (sched_latches s))(h := q)) (set (pending s @ woken q)) e te"
proof (cases "\<exists>r. q = e # r")
  case True
  then obtain r where r: "q = e # r" by blast
  obtain lk where lk: "tasks s e = Some (Waiting lk)" "claims (Waiting lk) = Some h" "e \<notin> set (pending s)"
    by (rule next_waits [OF inv q [unfolded r]])
  then have te: "te = Waiting lk" using e(2) by simp
  note ti = sched_invD(5) [OF inv e(2), unfolded te task_inv_def]
  show ?thesis using ti lk(2) unfolding te task_inv_def by (auto simp: r at_head_def woken_def)
next
  case False
  have ti: "task_inv (latch_queue (sched_latches s)) (set (pending s)) e te" by (rule sched_invD(5) [OF inv e(2)])
  have "e \<notin> set (woken q)" using False by (auto simp: woken_def split: list.splits)
  then show ?thesis by (intro task_inv_cong [OF ti]) (use q e(1) False in \<open>auto simp: at_head_def\<close>)
qed

lemma inv_release_next:
  assumes inv: "sched_inv s" and t: "tasks s c = Some (Releasing (h # hs) None)"
    and slot: "release_slot (sched_latches s) h c None [] = Some (L, w, [])"
  shows "sched_inv (s\<lparr>sched_latches := L, tasks := (tasks s)(c \<mapsto> Releasing hs None),
       pending := pending s @ (case w of Some x \<Rightarrow> [x] | None \<Rightarrow> [])\<rparr>)"
proof -
  let ?Q = "latch_queue (sched_latches s)"
  note ti = sched_invD(5) [OF inv t, unfolded task_inv_def]
  obtain q where q: "?Q h = c # q" using ti by (auto simp: at_head_def)
  have L: "wf_latches L" "latch_queue L = ?Q(h := q)" "w = (case q of [] \<Rightarrow> None | x # _ \<Rightarrow> Some x)"
    using release_slot_queue [OF sched_invD(1) [OF inv] q, of "[]" None] slot by auto
  have d: "distinct (c # q)" using queue_distinct [OF inv, of h] q by simp
  have nh: "h \<notin> set hs" using ti by auto
  have "task_inv (latch_queue L) (set (pending s @ woken q)) c (Releasing hs None)"
    using ti nh woken_pending(3) [OF inv q] unfolding task_inv_def L(2) by (auto simp: at_head_def)
  then show ?thesis
    unfolding L(3) woken_eq
    by (intro sched_inv_step [OF inv _ _ _ L(1)])
      (use t d q L(2) release_others [OF inv q] woken_pending [OF inv q] queue_distinct [OF inv] in
        \<open>auto split: if_splits dest: queue_memberD [OF inv _ t]\<close>)
qed

lemma inv_release_done:
  assumes inv: "sched_inv s" and t: "tasks s c = Some (Releasing [] None)"
  shows "sched_inv (s\<lparr>tasks := (tasks s)(c := None)\<rparr>)"
proof (rule sched_invI)
  let ?Q = "latch_queue (sched_latches s)"
  note ti = sched_invD(5) [OF inv t, unfolded task_inv_def]
  have no: "c \<notin> set (?Q h)" for h using queue_memberD [OF inv _ t, of h] by auto
  show "keeps_inv (tasks (s\<lparr>tasks := (tasks s)(c := None)\<rparr>))"
    using keeps_inv_upd [OF sched_invD(7) [OF inv], of c None] t by simp
  show "queues_inv (latch_queue (sched_latches (s\<lparr>tasks := (tasks s)(c := None)\<rparr>))) (tasks (s\<lparr>tasks := (tasks s)(c := None)\<rparr>))"
    using sched_invD(6) [OF inv] no unfolding queues_inv_def by auto
  show "set (pending (s\<lparr>tasks := (tasks s)(c := None)\<rparr>)) \<subseteq> dom (tasks (s\<lparr>tasks := (tasks s)(c := None)\<rparr>))"
    using sched_invD(4) [OF inv] ti by auto
qed (use sched_invD [OF inv] in \<open>auto split: if_splits\<close>)

lemma strict_lock_new: "strict (required_hashes (latch_lock_new hash ks))" "owned_count (latch_lock_new hash ks) = 0"
proof -
  have "strict (remdups_adj hs)" if "sorted hs" for hs :: "u64 list"
    using that by (induction hs rule: remdups_adj.induct) (auto simp: order.strict_iff_order)
  then show "strict (required_hashes (latch_lock_new hash ks))"
    by (simp add: latch_lock_new_def)
qed (simp add: latch_lock_new_def)

lemma unknown_command:
  assumes inv: "sched_inv s" and "tasks s c = None"
  shows "c \<notin> set (latch_queue (sched_latches s) h)" "c \<notin> set (pending s)"
  using sched_invD(4,6) [OF inv] assms(2) unfolding queues_inv_def by force+

lemma inv_new_command:
  assumes inv: "sched_inv s" and c: "tasks s c = None"
  shows "sched_inv (s\<lparr>tasks := (tasks s)(c \<mapsto> Acquiring (latch_lock_new hash ks) 0)\<rparr>)"
proof (rule sched_inv_step [OF inv])
  show "task_inv (latch_queue (sched_latches s)) (set (pending s)) c (Acquiring (latch_lock_new hash ks) 0)"
    using unknown_command [OF inv c] strict_lock_new [of hash ks] by (auto simp: task_inv_def)
qed (use c sched_invD [OF inv] queue_distinct [OF inv] unknown_command [OF inv c] in auto)

text \<open>Handing latches over.\<close>

lemma keeps_invD:
  assumes "keeps_inv T"
  shows "T c = Some (Releasing hs (Some (d, ks))) \<Longrightarrow> \<exists>lk n. T d = Some (Inheriting lk n) \<and> ks = drop n (required_hashes lk)"
    "T c = Some (Releasing hs (Some (d, ks))) \<Longrightarrow> T c' = Some (Releasing hs' (Some (d, ks'))) \<Longrightarrow> c' = c"
    "T d = Some (Inheriting lk n) \<Longrightarrow> \<exists>c hs ks. T c = Some (Releasing hs (Some (d, ks)))"
  using assms unfolding keeps_inv_def by blast+

lemma keepsD:
  assumes inv: "sched_inv s" and c: "tasks s c = Some (Releasing hs (Some (d, ks)))"
  obtains lk n where "tasks s d = Some (Inheriting lk n)" "ks = drop n (required_hashes lk)" "d \<noteq> c"
    "strict (required_hashes lk)" "n \<le> length (required_hashes lk)"
proof -
  obtain lk n where d: "tasks s d = Some (Inheriting lk n)" "ks = drop n (required_hashes lk)"
    using keeps_invD(1) [OF sched_invD(7) [OF inv] c] by blast
  moreover have "d \<noteq> c" using c d(1) by auto
  moreover have "task_wf (Inheriting lk n)" using sched_invD(5) [OF inv d(1)] by (simp add: task_inv_def)
  ultimately show ?thesis using that by simp
qed

lemma keeps_inv_move:
  assumes k: "keeps_inv T" and c: "T c = Some (Releasing hs (Some (d, ks)))" and dc: "d \<noteq> c"
    and ks': "ks' = drop n' (required_hashes lk)"
  shows "keeps_inv (T(c \<mapsto> Releasing hs' (Some (d, ks')), d \<mapsto> Inheriting lk n'))"
proof -
  let ?T = "T(c \<mapsto> Releasing hs' (Some (d, ks')), d \<mapsto> Inheriting lk n')"
  have uniq: "c' = c" if "T c' = Some (Releasing hs2 (Some (d, ks2)))" for c' hs2 ks2
    using keeps_invD(2) [OF k c that] .
  have nod: "T d \<noteq> Some (Releasing hs2 k2)" for hs2 k2
    using keeps_invD(1) [OF k c] by auto
  have R: "?T e = Some (Releasing hs2 (Some (d2, ks2))) \<longleftrightarrow>
      (if e = c then hs2 = hs' \<and> d2 = d \<and> ks2 = ks' else T e = Some (Releasing hs2 (Some (d2, ks2))))" for e hs2 d2 ks2
    using nod dc by auto
  have I: "?T e = Some (Inheriting lk2 n2) \<longleftrightarrow>
      (if e = d then lk2 = lk \<and> n2 = n' else T e = Some (Inheriting lk2 n2))" for e lk2 n2
    using c dc by auto
  show ?thesis
    unfolding keeps_inv_def R I
  proof (intro conjI allI impI)
    fix e hs2 d2 ks2
    assume e: "if e = c then hs2 = hs' \<and> d2 = d \<and> ks2 = ks' else T e = Some (Releasing hs2 (Some (d2, ks2)))"
    show "\<exists>lk2 n2. (if d2 = d then lk2 = lk \<and> n2 = n' else T d2 = Some (Inheriting lk2 n2)) \<and> ks2 = drop n2 (required_hashes lk2)"
    proof (cases "e = c")
      case True
      then show ?thesis using e ks' by auto
    next
      case False
      then have "T e = Some (Releasing hs2 (Some (d2, ks2)))" using e by simp
      moreover from this have "d2 \<noteq> d" using uniq False by blast
      ultimately show ?thesis using keeps_invD(1) [OF k] by simp
    qed
    show "c' = e" if "if c' = c then hs3 = hs' \<and> d2 = d \<and> ks3 = ks' else T c' = Some (Releasing hs3 (Some (d2, ks3)))" for c' hs3 ks3
    proof (cases "e = c")
      case True
      then show ?thesis using e that uniq by (cases "c' = c") auto
    next
      case False
      then have e': "T e = Some (Releasing hs2 (Some (d2, ks2)))" using e by simp
      then have "d2 \<noteq> d" using uniq False by blast
      then have "T c' = Some (Releasing hs3 (Some (d2, ks3)))" using that by (simp split: if_splits)
      then show ?thesis using keeps_invD(2) [OF k e'] by blast
    qed
  next
    fix e lk2 n2
    assume e: "if e = d then lk2 = lk \<and> n2 = n' else T e = Some (Inheriting lk2 n2)"
    show "\<exists>c2 hs2 ks2. if c2 = c then hs2 = hs' \<and> e = d \<and> ks2 = ks' else T c2 = Some (Releasing hs2 (Some (e, ks2)))"
    proof (cases "e = d")
      case True
      then show ?thesis by (intro exI [of _ c]) simp
    next
      case False
      then have "T e = Some (Inheriting lk2 n2)" using e by simp
      then obtain c2 hs2 ks2 where c2: "T c2 = Some (Releasing hs2 (Some (e, ks2)))"
        using keeps_invD(3) [OF k] by blast
      then have "c2 \<noteq> c" using c False by auto
      then show ?thesis using c2 by (intro exI [of _ c2]) simp
    qed
  qed
qed

lemma sched_inv_two:
  assumes inv: "sched_inv s" and s': "sched_latches s' = L" "tasks s' = (tasks s)(c \<mapsto> t, d \<mapsto> u)" "pending s' = P"
    and L: "wf_latches L" and P: "distinct P" "set P \<subseteq> insert c (insert d (dom (tasks s)))" and dc: "d \<noteq> c"
    and own: "task_inv (latch_queue L) (set P) c t" "task_inv (latch_queue L) (set P) d u"
    and others: "\<And>e te. e \<noteq> c \<Longrightarrow> e \<noteq> d \<Longrightarrow> tasks s e = Some te \<Longrightarrow>
      task_inv (latch_queue (sched_latches s)) (set (pending s)) e te \<Longrightarrow> task_inv (latch_queue L) (set P) e te"
    and q: "\<And>h. distinct (latch_queue L h)" "\<And>h. c \<in> set (latch_queue L h) \<Longrightarrow> h \<in> owns t \<or> claims t = Some h"
      "\<And>h. d \<in> set (latch_queue L h) \<Longrightarrow> h \<in> owns u \<or> claims u = Some h"
      "\<And>e h. e \<noteq> c \<Longrightarrow> e \<noteq> d \<Longrightarrow> e \<in> set (latch_queue L h) \<Longrightarrow> e \<in> set (latch_queue (sched_latches s) h)"
    and keep: "keeps_inv (tasks s')"
  shows "sched_inv s'"
proof (rule sched_invI)
  show "wf_latches (sched_latches s')" "distinct (pending s')" "set (pending s') \<subseteq> dom (tasks s')"
    using L P by (auto simp: s')
  show "finite (dom (tasks s'))" using sched_invD(2) [OF inv] by (simp add: s')
  show "task_inv (latch_queue (sched_latches s')) (set (pending s')) e te" if "tasks s' e = Some te" for e te
    using that own others sched_invD(5) [OF inv] by (auto simp: s' split: if_splits)
  show "queues_inv (latch_queue (sched_latches s')) (tasks s')"
    unfolding queues_inv_def s'
  proof (intro allI conjI ballI)
    show "distinct (latch_queue L h)" for h by (rule q(1))
    fix h e assume e: "e \<in> set (latch_queue L h)"
    then consider "e = c" | "e = d" | "e \<noteq> c" "e \<noteq> d" "e \<in> set (latch_queue (sched_latches s) h)" using q(4) by blast
    then show "\<exists>t'. ((tasks s)(c \<mapsto> t, d \<mapsto> u)) e = Some t' \<and> (h \<in> owns t' \<or> claims t' = Some h)"
    proof cases
      case 3
      then show ?thesis using sched_invD(6) [OF inv] unfolding queues_inv_def by auto
    qed (use e q(2,3) [of h] dc in auto)
  qed
qed (rule keep)

lemma inv_hand_over:
  assumes inv: "sched_inv s" and t: "tasks s c = Some (Holding lk)" "tasks s d = None"
    and lk': "strict (required_hashes lk')" "set (required_hashes lk') \<subseteq> set (required_hashes lk)"
  shows "sched_inv (s\<lparr>tasks := (tasks s)
       (c \<mapsto> Releasing (take (owned_count lk) (required_hashes lk)) (Some (d, required_hashes lk')),
        d \<mapsto> Inheriting lk' 0)\<rparr>)"
proof -
  let ?s = "s\<lparr>tasks := (tasks s)
       (c \<mapsto> Releasing (take (owned_count lk) (required_hashes lk)) (Some (d, required_hashes lk')),
        d \<mapsto> Inheriting lk' 0)\<rparr>"
  note ti = sched_invD(5) [OF inv t(1), unfolded task_inv_def]
  note new = unknown_command [OF inv t(2)]
  have dc: "d \<noteq> c" using t by auto
  have nd: "tasks s e \<noteq> Some (Releasing hs (Some (d, ks)))" for e hs ks
    using keeps_invD(1) [OF sched_invD(7) [OF inv], of e hs d ks] t(2) by auto
  have "keeps_inv ((tasks s)
       (c \<mapsto> Releasing (take (owned_count lk) (required_hashes lk)) (Some (d, required_hashes lk')), d \<mapsto> Inheriting lk' 0))"
    unfolding keeps_inv_def
  proof (intro conjI allI impI)
    fix e hs2 d2 ks2
    let ?T = "(tasks s)(c \<mapsto> Releasing (take (owned_count lk) (required_hashes lk)) (Some (d, required_hashes lk')), d \<mapsto> Inheriting lk' 0)"
    assume e: "?T e = Some (Releasing hs2 (Some (d2, ks2)))"
    show "\<exists>lk n. ?T d2 = Some (Inheriting lk n) \<and> ks2 = drop n (required_hashes lk)"
    proof (cases "e = c")
      case False
      then have e': "tasks s e = Some (Releasing hs2 (Some (d2, ks2)))" using e by (auto split: if_splits)
      moreover from this have "d2 \<noteq> d" using nd by blast
      moreover obtain lk2 n2 where d2: "tasks s d2 = Some (Inheriting lk2 n2)" "ks2 = drop n2 (required_hashes lk2)"
        using keeps_invD(1) [OF sched_invD(7) [OF inv] e'] by blast
      moreover have "d2 \<noteq> c" using d2(1) t(1) by auto
      ultimately show ?thesis by simp
    qed (use e dc in auto)
    show "c' = e" if "?T c' = Some (Releasing hs3 (Some (d2, ks3)))" for c' hs3 ks3
    proof (cases "e = c \<or> c' = c")
      case True
      then show ?thesis using e that dc nd by (auto split: if_splits)
    next
      case False
      then have "tasks s e = Some (Releasing hs2 (Some (d2, ks2)))" "tasks s c' = Some (Releasing hs3 (Some (d2, ks3)))"
        using e that by (auto split: if_splits)
      then show ?thesis by (rule keeps_invD(2) [OF sched_invD(7) [OF inv]])
    qed
  next
    fix e lk2 n2
    let ?T = "(tasks s)(c \<mapsto> Releasing (take (owned_count lk) (required_hashes lk)) (Some (d, required_hashes lk')), d \<mapsto> Inheriting lk' 0)"
    assume e: "?T e = Some (Inheriting lk2 n2)"
    show "\<exists>c2 hs2 ks2. ?T c2 = Some (Releasing hs2 (Some (e, ks2)))"
    proof (cases "e = d")
      case True
      then show ?thesis using dc by (intro exI [of _ c]) simp
    next
      case False
      then have "tasks s e = Some (Inheriting lk2 n2)" using e by (auto split: if_splits)
      then obtain c2 hs2 ks2 where "tasks s c2 = Some (Releasing hs2 (Some (e, ks2)))"
        using keeps_invD(3) [OF sched_invD(7) [OF inv]] by blast
      then show ?thesis using t by (intro exI [of _ c2]) auto
    qed
  qed
  note keep = this
  show ?thesis
  proof (rule sched_inv_two [where s = s and c = c and d = d and L = "sched_latches s" and P = "pending s", OF inv])
    let ?Q = "latch_queue (sched_latches s)"
    show "task_inv ?Q (set (pending s)) c (Releasing (take (owned_count lk) (required_hashes lk)) (Some (d, required_hashes lk')))"
      using ti lk' by (simp add: task_inv_def)
    show "task_inv ?Q (set (pending s)) d (Inheriting lk' 0)"
      using new lk'(1) by (simp add: task_inv_def)
    show "set (pending s) \<subseteq> insert c (insert d (dom (tasks s)))" using sched_invD(4) [OF inv] by blast
    show "h \<in> owns (Releasing (take (owned_count lk) (required_hashes lk)) (Some (d, required_hashes lk'))) \<or>
        claims (Releasing (take (owned_count lk) (required_hashes lk)) (Some (d, required_hashes lk'))) = Some h"
      if "c \<in> set (?Q h)" for h
      using queue_memberD [OF inv that t(1)] by simp
    show "keeps_inv (tasks ?s)" using keep by simp
  qed (use dc new queue_distinct [OF inv] sched_invD(1,3) [OF inv] in simp_all)
qed

lemma strict_subset_tail:
  assumes "strict ks" "strict (h # hs)" "set ks \<subseteq> set (h # hs)"
  shows "ks \<noteq> [] \<and> hd ks = h \<Longrightarrow> set (tl ks) \<subseteq> set hs" "\<not> (ks \<noteq> [] \<and> hd ks = h) \<Longrightarrow> set ks \<subseteq> set hs"
  using assms by (cases ks; fastforce)+

lemma inv_release_keep:
  assumes inv: "sched_inv s" and t: "tasks s c = Some (Releasing (h # hs) (Some (d, ks)))" "tasks s d = Some (Inheriting lk n)"
    and ks: "ks = drop n (required_hashes lk)" "ks \<noteq> []" "hd ks = h"
    and q: "latch_queue (sched_latches s) h = c # q"
    and L: "wf_latches L" "latch_queue L = (latch_queue (sched_latches s))(h := d # q)"
    and s': "sched_latches s' = L" "pending s' = pending s"
      "tasks s' = (tasks s)(c \<mapsto> Releasing hs (Some (d, tl ks)), d \<mapsto> Inheriting lk (Suc n))"
  shows "sched_inv s'"
proof -
  let ?Q = "latch_queue (sched_latches s)"
  note tc = sched_invD(5) [OF inv t(1), unfolded task_inv_def]
  note td = sched_invD(5) [OF inv t(2), unfolded task_inv_def]
  have dc: "d \<noteq> c" using t by auto
  have n: "n < length (required_hashes lk)" using ks(1,2) by (cases "n < length (required_hashes lk)") auto
  have hn: "required_hashes lk ! n = h" using ks n by (simp add: hd_drop_conv_nth)
  have nh: "h \<notin> set hs" "h \<notin> set (take n (required_hashes lk))"
    using tc td strict_nth_not_taken [OF _ n] hn by auto
  have nd: "d \<notin> set (?Q h)" using queue_memberD [OF inv _ t(2), of h] nh(2) by auto
  have dist: "distinct (c # q)" using queue_distinct [OF inv, of h] q by simp
  show ?thesis
  proof (rule sched_inv_two [OF inv s'(1,3,2) L(1)])
    show "task_inv (latch_queue L) (set (pending s)) c (Releasing hs (Some (d, tl ks)))"
      using tc nh(1) ks(2,3) strict_subset_tail(1) [of ks h hs] unfolding task_inv_def L(2)
      by (cases ks) (auto simp: at_head_def)
    show "task_inv (latch_queue L) (set (pending s)) d (Inheriting lk (Suc n))"
      using td n hn unfolding task_inv_def L(2) by (auto simp: at_head_def take_Suc_set)
    show "task_inv (latch_queue L) (set (pending s)) e te"
      if "e \<noteq> c" "e \<noteq> d" "tasks s e = Some te" "task_inv ?Q (set (pending s)) e te" for e te
      by (rule task_inv_cong [OF that(4)]) (use that(1,2) q in \<open>auto simp: L(2) at_head_def\<close>)
    show "keeps_inv (tasks s')"
      unfolding s'(3) by (rule keeps_inv_move [OF sched_invD(7) [OF inv] t(1) dc]) (simp add: ks(1) drop_Suc tl_drop)
    show "distinct (latch_queue L x)" for x
      using queue_distinct [OF inv, of x] dist nd q by (simp add: L(2))
    show "x \<in> owns (Releasing hs (Some (d, tl ks))) \<or> claims (Releasing hs (Some (d, tl ks))) = Some x"
      if "c \<in> set (latch_queue L x)" for x
      using that dist dc queue_memberD [OF inv _ t(1), of x] by (auto simp: L(2) split: if_splits)
    show "x \<in> owns (Inheriting lk (Suc n)) \<or> claims (Inheriting lk (Suc n)) = Some x"
      if "d \<in> set (latch_queue L x)" for x
      using that hn n queue_memberD [OF inv _ t(2), of x] by (auto simp: L(2) take_Suc_set split: if_splits)
  qed (use dc sched_invD(3,4) [OF inv] q in \<open>auto simp: L(2) split: if_splits\<close>)
qed

lemma inv_release_skip:
  assumes inv: "sched_inv s" and t: "tasks s c = Some (Releasing (h # hs) (Some (d, ks)))" "tasks s d = Some (Inheriting lk n)"
    and ks: "ks = drop n (required_hashes lk)" "\<not> (ks \<noteq> [] \<and> hd ks = h)"
    and q: "latch_queue (sched_latches s) h = c # q"
    and L: "wf_latches L" "latch_queue L = (latch_queue (sched_latches s))(h := q)"
    and s': "sched_latches s' = L" "pending s' = pending s @ woken q"
      "tasks s' = (tasks s)(c \<mapsto> Releasing hs (Some (d, ks)), d \<mapsto> Inheriting lk n)"
  shows "sched_inv s'"
proof -
  let ?Q = "latch_queue (sched_latches s)"
  note tc = sched_invD(5) [OF inv t(1), unfolded task_inv_def]
  have dc: "d \<noteq> c" using t by auto
  have nh: "h \<notin> set hs" using tc by auto
  have dist: "distinct (c # q)" using queue_distinct [OF inv, of h] q by simp
  show ?thesis
  proof (rule sched_inv_two [OF inv s'(1,3,2) L(1)])
    show "task_inv (latch_queue L) (set (pending s @ woken q)) c (Releasing hs (Some (d, ks)))"
      using tc nh strict_subset_tail(2) [of ks h hs] ks(2) woken_pending(3) [OF inv q] unfolding task_inv_def L(2)
      by (auto simp: at_head_def)
    show "task_inv (latch_queue L) (set (pending s @ woken q)) d (Inheriting lk n)"
      using release_others [OF inv q dc t(2)] by (simp add: L(2))
    show "task_inv (latch_queue L) (set (pending s @ woken q)) e te" if "e \<noteq> c" "tasks s e = Some te" for e te
      using release_others [OF inv q that] by (simp add: L(2))
    show "keeps_inv (tasks s')"
      unfolding s'(3) by (rule keeps_inv_move [OF sched_invD(7) [OF inv] t(1) dc ks(1)])
    show "distinct (latch_queue L x)" for x
      using queue_distinct [OF inv, of x] dist by (simp add: L(2))
    show "x \<in> owns (Releasing hs (Some (d, ks))) \<or> claims (Releasing hs (Some (d, ks))) = Some x"
      if "c \<in> set (latch_queue L x)" for x
      using that dist queue_memberD [OF inv _ t(1), of x] by (auto simp: L(2) split: if_splits)
    show "x \<in> owns (Inheriting lk n) \<or> claims (Inheriting lk n) = Some x" if "d \<in> set (latch_queue L x)" for x
      using that queue_memberD [OF inv _ t(2), of x] q by (auto simp: L(2) split: if_splits)
  qed (use dc woken_pending [OF inv q] q in \<open>auto simp: L(2) split: if_splits\<close>)
qed

text \<open>A slot of a releasing command can always be released.\<close>

lemma release_slot_plain:
  assumes inv: "sched_inv s" and t: "tasks s c = Some (Releasing (h # hs) None)"
  obtains q L where "latch_queue (sched_latches s) h = c # q" "wf_latches L"
    "release_slot (sched_latches s) h c None [] = Some (L, (case q of [] \<Rightarrow> None | x # _ \<Rightarrow> Some x), [])"
    "latch_queue L = (latch_queue (sched_latches s))(h := q)"
proof -
  obtain q where q: "latch_queue (sched_latches s) h = c # q"
    using sched_invD(5) [OF inv t] by (auto simp: task_inv_def at_head_def)
  show ?thesis using release_slot_queue [OF sched_invD(1) [OF inv] q, of "[]" None] that [OF q] by auto
qed

lemma release_slot_keep:
  assumes inv: "sched_inv s" and t: "tasks s c = Some (Releasing (h # hs) (Some (d, ks)))"
  obtains (keep) q L where "ks \<noteq> [] \<and> hd ks = h" "latch_queue (sched_latches s) h = c # q" "wf_latches L"
      "release_slot (sched_latches s) h c (Some d) ks = Some (L, None, tl ks)"
      "latch_queue L = (latch_queue (sched_latches s))(h := d # q)"
    | (skip) q L where "\<not> (ks \<noteq> [] \<and> hd ks = h)" "latch_queue (sched_latches s) h = c # q" "wf_latches L"
      "release_slot (sched_latches s) h c (Some d) ks = Some (L, (case q of [] \<Rightarrow> None | x # _ \<Rightarrow> Some x), ks)"
      "latch_queue L = (latch_queue (sched_latches s))(h := q)"
proof -
  note tc = sched_invD(5) [OF inv t, unfolded task_inv_def]
  obtain q where q: "latch_queue (sched_latches s) h = c # q" using tc by (auto simp: at_head_def)
  have "h \<le> k" if "k \<in> set ks" for k using that tc by (auto simp: less_imp_le)
  then obtain L where L: "wf_latches L"
    "if ks \<noteq> [] \<and> hd ks = h
     then release_slot (sched_latches s) h c (Some d) ks = Some (L, None, tl ks) \<and>
       latch_queue L = (latch_queue (sched_latches s))(h := the (Some d) # q)
     else release_slot (sched_latches s) h c (Some d) ks = Some (L, (case q of [] \<Rightarrow> None | x # _ \<Rightarrow> Some x), ks) \<and>
       latch_queue L = (latch_queue (sched_latches s))(h := q)"
    using release_slot_queue [OF sched_invD(1) [OF inv] q, of ks "Some d"] by blast
  show ?thesis
  proof (cases "ks \<noteq> [] \<and> hd ks = h")
    case True
    show ?thesis by (rule keep [OF True q L(1)]) (use L(2) [unfolded if_P [OF True]] in simp_all)
  next
    case False
    show ?thesis by (rule skip [OF False q L(1)]) (use L(2) [unfolded if_not_P [OF False]] in simp_all)
  qed
qed

lemma inv_release_next_keep:
  assumes inv: "sched_inv s" and t: "tasks s c = Some (Releasing (h # hs) (Some (d, ks)))" "tasks s d = Some (Inheriting lk n)"
    and slot: "release_slot (sched_latches s) h c (Some d) ks = Some (L, w, ks')"
  shows "sched_inv (s\<lparr>sched_latches := L,
       tasks := (tasks s)(c \<mapsto> Releasing hs (Some (d, ks')), d \<mapsto> Inheriting lk (length (required_hashes lk) - length ks')),
       pending := pending s @ (case w of Some x \<Rightarrow> [x] | None \<Rightarrow> [])\<rparr>)"
proof -
  have ks: "ks = drop n (required_hashes lk)" "n \<le> length (required_hashes lk)"
    by (rule keepsD [OF inv t(1)], use t(2) in simp)+
  from inv t(1) show ?thesis
  proof (cases rule: release_slot_keep)
    case (keep q L0)
    have L: "L = L0" "w = None" "ks' = tl ks" using keep(4) slot by simp_all
    have "length (required_hashes lk) - length ks' = Suc n"
      using keep(1) ks(1) by (cases "n < length (required_hashes lk)") (auto simp: L(3))
    then show ?thesis
      using keep(1) by (intro inv_release_keep [OF inv t(1) t(2) ks(1) _ _ keep(2,3,5)]) (simp_all add: L)
  next
    case (skip q L0)
    have L: "L = L0" "w = (case q of [] \<Rightarrow> None | x # _ \<Rightarrow> Some x)" "ks' = ks" using skip(4) slot by simp_all
    have "length (required_hashes lk) - length ks' = n" using ks by (simp add: L(3))
    then show ?thesis
      by (intro inv_release_skip [OF inv t(1) t(2) ks(1) skip(1,2,3,5)]) (simp_all add: L woken_eq)
  qed
qed

lemma keeps_inv_end:
  assumes k: "keeps_inv T" and c: "T c = Some (Releasing hs (Some (d, ks)))" and dc: "d \<noteq> c" and u: "plain_task u"
  shows "keeps_inv (T(c \<mapsto> Releasing hs' None, d \<mapsto> u))"
proof -
  let ?T = "T(c \<mapsto> Releasing hs' None, d \<mapsto> u)"
  obtain lk0 n0 where d: "T d = Some (Inheriting lk0 n0)" using keeps_invD(1) [OF k c] by blast
  have uniq: "e = c" if "T e = Some (Releasing hs2 (Some (d, ks2)))" for e hs2 ks2
    using keeps_invD(2) [OF k c that] .
  have R: "?T e = Some (Releasing hs2 (Some (d2, ks2))) \<longleftrightarrow> d2 \<noteq> d \<and> T e = Some (Releasing hs2 (Some (d2, ks2)))" for e hs2 d2 ks2
  proof (cases "e = c \<or> e = d")
    case True
    then show ?thesis using plain_taskD [OF u, of hs2 "(d2, ks2)"] c d dc by auto
  next
    case False
    then show ?thesis using uniq by (cases "d2 = d") auto
  qed
  have I: "?T e = Some (Inheriting lk2 n2) \<longleftrightarrow> e \<noteq> d \<and> T e = Some (Inheriting lk2 n2)" for e lk2 n2
    using plain_taskD [OF u, of _ _ lk2 n2] c by (cases "e = d"; cases "e = c") auto
  show ?thesis
    unfolding keeps_inv_def R I
  proof (intro conjI allI impI; elim conjE)
    fix e hs2 d2 ks2 assume e: "d2 \<noteq> d" "T e = Some (Releasing hs2 (Some (d2, ks2)))"
    show "\<exists>lk n. (d2 \<noteq> d \<and> T d2 = Some (Inheriting lk n)) \<and> ks2 = drop n (required_hashes lk)"
      using keeps_invD(1) [OF k e(2)] e(1) by blast
    show "c' = e" if "T c' = Some (Releasing hs3 (Some (d2, ks3)))" for c' hs3 ks3
      using keeps_invD(2) [OF k e(2) that] .
  next
    fix e lk2 n2 assume e: "e \<noteq> d" "T e = Some (Inheriting lk2 n2)"
    show "\<exists>c hs ks. e \<noteq> d \<and> T c = Some (Releasing hs (Some (e, ks)))"
      using keeps_invD(3) [OF k e(2)] e(1) by blast
  qed
qed

lemma inv_release_done_keep:
  assumes inv: "sched_inv s" and t: "tasks s c = Some (Releasing [] (Some (d, [])))" "tasks s d = Some (Inheriting lk n)"
  shows "sched_inv (s\<lparr>tasks := (tasks s)(c := None, d \<mapsto> Acquiring (force_assume_acquired lk) 0)\<rparr>)"
proof -
  have dc: "d \<noteq> c" using t by auto
  note tc = sched_invD(5) [OF inv t(1), unfolded task_inv_def]
  note td = sched_invD(5) [OF inv t(2), unfolded task_inv_def]
  have n: "n = length (required_hashes lk)" by (rule keepsD [OF inv t(1)]) (use t(2) in auto)
  let ?s = "s\<lparr>tasks := (tasks s)(c \<mapsto> Releasing [] None, d \<mapsto> Acquiring (force_assume_acquired lk) 0)\<rparr>"
  let ?Q = "latch_queue (sched_latches s)"
  have keep: "keeps_inv (tasks ?s)"
    using keeps_inv_end [OF sched_invD(7) [OF inv] t(1) dc] by simp
  have "sched_inv ?s"
  proof (rule sched_inv_two [where s = s and c = c and d = d and L = "sched_latches s" and P = "pending s", OF inv])
    show "task_inv ?Q (set (pending s)) c (Releasing [] None)" using tc by (simp add: task_inv_def)
    show "task_inv ?Q (set (pending s)) d (Acquiring (force_assume_acquired lk) 0)"
      using td n by (simp add: task_inv_def force_assume_acquired_def)
    show "set (pending s) \<subseteq> insert c (insert d (dom (tasks s)))" using sched_invD(4) [OF inv] by blast
    show "h \<in> owns (Releasing [] None) \<or> claims (Releasing [] None) = Some h" if "c \<in> set (?Q h)" for h
      using queue_memberD [OF inv that t(1)] by simp
    show "h \<in> owns (Acquiring (force_assume_acquired lk) 0) \<or> claims (Acquiring (force_assume_acquired lk) 0) = Some h"
      if "d \<in> set (?Q h)" for h
      using queue_memberD [OF inv that t(2)] n by (simp add: force_assume_acquired_def)
    show "keeps_inv (tasks ?s)" by (rule keep)
  qed (use dc queue_distinct [OF inv] sched_invD(1,3) [OF inv] in simp_all)
  from inv_release_done [OF this, of c] show ?thesis using dc by (simp add: fun_upd_twist)
qed

lemmas inv_work =
  inv_acquire_next inv_acquire_wait inv_acquire_done inv_wake_up inv_wake_up_expired inv_finish_command
  inv_release_next inv_release_next_keep inv_release_done inv_release_done_keep

lemma sched_work_inv: "sched_work s s' \<Longrightarrow> sched_inv s \<Longrightarrow> sched_inv s'"
  by (elim sched_work.cases sched_acquire.cases acquire_lock_on_wakeup.cases command_finished.cases
      release_latches.cases schedule_next.cases; hypsubst; rule inv_work; assumption)

lemma sched_arrive_inv: "sched_arrive hash s s' \<Longrightarrow> sched_inv s \<Longrightarrow> sched_inv s'"
  by (elim sched_arrive.cases schedule_command.cases hand_over_latches.cases)
    (auto intro: inv_new_command inv_hand_over strict_lock_new)

lemma sched_reachable_inv: "sched_reachable hash n s \<Longrightarrow> sched_inv s"
proof (induction rule: sched_reachable.induct)
  case reach_init
  show ?case
    by (simp add: sched_inv_def sched_init_def wf_Latches_new queues_inv_def keeps_inv_def)
qed (auto intro: sched_work_inv sched_arrive_inv)

section \<open>Every command makes progress\<close>

text \<open>Commands that wait for each other wait for ever greater hashes.\<close>

lemma waiting_commands_progress:
  assumes inv: "sched_inv s" and ne: "tasks s \<noteq> Map.empty" and all: "\<And>c t. tasks s c = Some t \<Longrightarrow> is_waiting t"
  shows "\<exists>c lk. c \<in> set (pending s) \<and> tasks s c = Some (Waiting lk)"
proof -
  let ?Q = "latch_queue (sched_latches s)" and ?cl = "\<lambda>c. the (claims (the (tasks s c)))"
  have fin: "finite (dom (tasks s))" "dom (tasks s) \<noteq> {}" using sched_invD(2) [OF inv] ne by auto
  obtain c where c: "c \<in> dom (tasks s)" "\<And>d. d \<in> dom (tasks s) \<Longrightarrow> ?cl d \<le> ?cl c"
  proof -
    have "Max (?cl ` dom (tasks s)) \<in> ?cl ` dom (tasks s)" by (rule Max_in) (use fin in simp_all)
    then obtain c where c: "c \<in> dom (tasks s)" "Max (?cl ` dom (tasks s)) = ?cl c" by (rule imageE)
    have "?cl d \<le> ?cl c" if "d \<in> dom (tasks s)" for d
      unfolding c(2) [symmetric] by (rule Max_ge) (use fin(1) that in simp_all)
    with c(1) show ?thesis using that by blast
  qed
  have waiting: "\<exists>lk. t = Waiting lk" if "is_waiting t" for t using that by (cases t) simp_all
  obtain t0 where "tasks s c = Some t0" using c(1) by blast
  then obtain lk where t: "tasks s c = Some (Waiting lk)" using waiting [OF all] by blast
  let ?h = "required_hashes lk ! owned_count lk"
  have "c \<in> set (?Q ?h)" using sched_invD(5) [OF inv t] by (simp add: task_inv_def)
  then obtain x q where q: "?Q ?h = x # q" by (cases "?Q ?h") auto
  have x: "at_head ?Q x ?h" using q by (simp add: at_head_def)
  obtain tx where tx: "tasks s x = Some tx" "?h \<in> owns tx \<or> claims tx = Some ?h"
    using sched_invD(6) [OF inv] q unfolding queues_inv_def by fastforce
  then obtain lkx where lkx: "tx = Waiting lkx" using waiting [OF all] by blast
  note ti = sched_invD(5) [OF inv tx(1), unfolded lkx task_inv_def]
  have "?h \<notin> owns tx"
  proof
    assume "?h \<in> owns tx"
    then obtain i where i: "i < owned_count lkx" "required_hashes lkx ! i = ?h"
      using ti by (auto simp: lkx in_set_conv_nth)
    then have "?h < required_hashes lkx ! owned_count lkx"
      using ti sorted_wrt_nth_less [of "(<)" "required_hashes lkx" i "owned_count lkx"] by simp
    moreover have "required_hashes lkx ! owned_count lkx \<le> ?h"
      using c(2) [of x] tx(1) t by (auto simp: lkx)
    ultimately show False by simp
  qed
  then have "claims tx = Some ?h" using tx(2) by blast
  then have "x \<in> set (pending s)" using ti x by (simp add: lkx)
  then show ?thesis using tx(1) lkx by blast
qed

lemma releasing_progress:
  assumes inv: "sched_inv s" and t: "tasks s c = Some (Releasing hs keep)"
  shows "\<exists>s'. sched_work s s'"
proof (cases hs)
  case Nil
  show ?thesis
  proof (cases keep)
    case None
    then show ?thesis using release_done [of s c] t Nil by blast
  next
    case (Some k)
    obtain d ks where k: "k = (d, ks)" by (cases k)
    have "ks = []" using sched_invD(5) [OF inv t] by (simp add: task_inv_def Nil Some k)
    moreover obtain lk n where "tasks s d = Some (Inheriting lk n)"
      by (rule keepsD [OF inv t [unfolded Some k]])
    ultimately show ?thesis using release_done_keep [of s c d lk n] t by (auto simp: Nil Some k)
  qed
next
  case (Cons h hs')
  note t' = t [unfolded Cons]
  show ?thesis
  proof (cases keep)
    case None
    obtain q L where "release_slot (sched_latches s) h c None [] = Some (L, (case q of [] \<Rightarrow> None | x # _ \<Rightarrow> Some x), [])"
      by (rule release_slot_plain [OF inv t' [unfolded None]])
    then show ?thesis using release_next [OF t' [unfolded None]] by blast
  next
    case (Some k)
    obtain d ks where k: "k = (d, ks)" by (cases k)
    obtain lk n where d: "tasks s d = Some (Inheriting lk n)"
      by (rule keepsD [OF inv t [unfolded Some k]])
    have "\<exists>L w ks'. release_slot (sched_latches s) h c (Some d) ks = Some (L, w, ks')"
      by (rule release_slot_keep [OF inv t' [unfolded Some k]]) blast+
    then show ?thesis using release_next_keep [OF t' [unfolded Some k] d] by blast
  qed
qed

lemma sched_progress:
  assumes inv: "sched_inv s" and ne: "tasks s \<noteq> Map.empty"
  shows "\<exists>s'. sched_work s s'"
proof (cases "\<forall>c t. tasks s c = Some t \<longrightarrow> is_waiting t")
  case True
  then obtain c lk where "c \<in> set (pending s)" "tasks s c = Some (Waiting lk)"
    using waiting_commands_progress [OF inv ne] by blast
  then show ?thesis using wake_up by blast
next
  case False
  then obtain c t where t: "tasks s c = Some t" "\<not> is_waiting t" by blast
  show ?thesis
  proof (cases t)
    case (Acquiring lk n)
    note t' = t(1) [unfolded Acquiring]
    have "owned_count lk + n \<le> length (required_hashes lk)"
      using sched_invD(5) [OF inv t'] by (simp add: task_inv_def)
    then consider "owned_count lk + n < length (required_hashes lk)" | "owned_count lk + n = length (required_hashes lk)" by linarith
    then show ?thesis
    proof cases
      case 1
      have "\<exists>L b. acquire_slot (sched_latches s) (required_hashes lk ! (owned_count lk + n)) c = Some (L, b)"
        using acquire_slot_queue [OF sched_invD(1) [OF inv], of "required_hashes lk ! (owned_count lk + n)" c]
        by (auto split: list.splits if_splits)
      then obtain L b where "acquire_slot (sched_latches s) (required_hashes lk ! (owned_count lk + n)) c = Some (L, b)" by blast
      then show ?thesis using acquire_next [OF t' 1] acquire_wait [OF t' 1] by (cases b) auto
    next
      case 2
      then show ?thesis using acquire_done [OF t'] by blast
    qed
  next
    case (Waiting lk)
    then show ?thesis using t(2) by simp
  next
    case (Holding lk)
    then show ?thesis using finish_command t(1) by blast
  next
    case (Releasing hs keep)
    then show ?thesis using releasing_progress [OF inv] t(1) by blast
  next
    case (Inheriting lk n)
    then obtain c' hs ks where "tasks s c' = Some (Releasing hs (Some (c, ks)))"
      using keeps_invD(3) [OF sched_invD(7) [OF inv]] t(1) by blast
    then show ?thesis by (rule releasing_progress [OF inv])
  qed
qed

section \<open>No command works forever\<close>

definition task_work :: "(u64 \<Rightarrow> cid list) \<Rightarrow> cid \<Rightarrow> task_state \<Rightarrow> nat" where
  "task_work Q c t =
     (case t of
        Acquiring lk n \<Rightarrow>
          3 * (length (required_hashes lk) - (owned_count lk + n)) + length (required_hashes lk) +
          (if \<exists>h. claims t = Some h \<and> c \<in> set (Q h) then 1 else 3)
      | Waiting lk \<Rightarrow> 3 * (length (required_hashes lk) - owned_count lk) + length (required_hashes lk) + 2
      | Holding lk \<Rightarrow> length (required_hashes lk) + 2
      | Releasing hs keep \<Rightarrow> length hs + 1
      | Inheriting lk n \<Rightarrow> length (required_hashes lk) + 4)"

lemma task_work_simps [simp]:
  "task_work Q c (Acquiring lk n) =
     3 * (length (required_hashes lk) - (owned_count lk + n)) + length (required_hashes lk) +
     (if \<exists>h. claims (Acquiring lk n) = Some h \<and> c \<in> set (Q h) then 1 else 3)"
  "task_work Q c (Waiting lk) = 3 * (length (required_hashes lk) - owned_count lk) + length (required_hashes lk) + 2"
  "task_work Q c (Holding lk) = length (required_hashes lk) + 2"
  "task_work Q c (Releasing hs keep) = length hs + 1"
  "task_work Q c (Inheriting lk n) = length (required_hashes lk) + 4"
  by (simp_all add: task_work_def)

definition cmd_work :: "sched \<Rightarrow> cid \<Rightarrow> nat" where
  "cmd_work s c = (case tasks s c of None \<Rightarrow> 0 | Some t \<Rightarrow> task_work (latch_queue (sched_latches s)) c t)"

definition work_left :: "sched \<Rightarrow> nat" where
  "work_left s = (\<Sum>c \<in> dom (tasks s). cmd_work s c)"

lemma work_left_less:
  assumes "finite (dom (tasks s))" "dom (tasks s') \<subseteq> dom (tasks s)" "\<And>e. cmd_work s' e \<le> cmd_work s e" "cmd_work s' c < cmd_work s c"
  shows "work_left s' < work_left s"
proof -
  have "c \<in> dom (tasks s)" using assms(4) by (auto simp: cmd_work_def split: option.splits)
  have "work_left s' = (\<Sum>c \<in> dom (tasks s). cmd_work s' c)"
    unfolding work_left_def using assms(1,2)
    by (intro sum.mono_neutral_left) (auto simp: cmd_work_def split: option.splits)
  also have "\<dots> < work_left s"
    unfolding work_left_def using assms \<open>c \<in> dom (tasks s)\<close> by (intro sum_strict_mono_ex1) auto
  finally show ?thesis .
qed

text \<open>A command only sees its own entries.\<close>

lemma task_work_cong:
  "(\<And>h. c \<in> set (Q' h) \<longleftrightarrow> c \<in> set (Q h)) \<Longrightarrow> task_work Q' c t = task_work Q c t"
  by (cases t) simp_all

lemma work_step:
  assumes inv: "sched_inv s" and s': "tasks s' = (tasks s)(c \<mapsto> t')" and t: "tasks s c = Some t"
    and q: "\<And>e h. e \<noteq> c \<Longrightarrow> e \<in> set (latch_queue (sched_latches s') h) \<longleftrightarrow> e \<in> set (latch_queue (sched_latches s) h)"
    and less: "task_work (latch_queue (sched_latches s')) c t' < task_work (latch_queue (sched_latches s)) c t"
  shows "work_left s' < work_left s"
proof (rule work_left_less [OF sched_invD(2) [OF inv]])
  show "dom (tasks s') \<subseteq> dom (tasks s)" using t by (auto simp: s')
  show "cmd_work s' c < cmd_work s c" using less t by (simp add: cmd_work_def s')
  show "cmd_work s' e \<le> cmd_work s e" for e
    using less t task_work_cong [OF q, of e] by (cases "e = c") (auto simp: cmd_work_def s' split: option.split)
qed

lemma work_acquire_next:
  assumes inv: "sched_inv s" and t: "tasks s c = Some (Acquiring lk n)" "owned_count lk + n < length (required_hashes lk)"
    and slot: "acquire_slot (sched_latches s) (required_hashes lk ! (owned_count lk + n)) c = Some (L, True)"
  shows "work_left (s\<lparr>sched_latches := L, tasks := (tasks s)(c \<mapsto> Acquiring lk (n + 1))\<rparr>) < work_left s"
proof (rule work_step [OF inv _ t(1)])
  let ?h = "required_hashes lk ! (owned_count lk + n)"
  show "e \<in> set (latch_queue (sched_latches (s\<lparr>sched_latches := L, tasks := (tasks s)(c \<mapsto> Acquiring lk (n + 1))\<rparr>)) h) \<longleftrightarrow>
      e \<in> set (latch_queue (sched_latches s) h)" if "e \<noteq> c" for e h
    using acquire_slot_queue [OF sched_invD(1) [OF inv], of ?h c] slot that
    by (cases "latch_queue (sched_latches s) ?h") (auto split: if_splits)
  have "3 * (length (required_hashes lk) - (owned_count lk + n)) =
      3 * (length (required_hashes lk) - (owned_count lk + (n + 1))) + 3" using t(2) by simp
  then show "task_work (latch_queue (sched_latches (s\<lparr>sched_latches := L, tasks := (tasks s)(c \<mapsto> Acquiring lk (n + 1))\<rparr>))) c
      (Acquiring lk (n + 1)) < task_work (latch_queue (sched_latches s)) c (Acquiring lk n)"
    unfolding task_work_simps by (simp only:) (simp split: if_split)
qed simp

lemma work_acquire_wait:
  assumes inv: "sched_inv s" and t: "tasks s c = Some (Acquiring lk n)" "owned_count lk + n < length (required_hashes lk)"
    and slot: "acquire_slot (sched_latches s) (required_hashes lk ! (owned_count lk + n)) c = Some (L, False)"
  shows "work_left (s\<lparr>sched_latches := L, tasks := (tasks s)(c \<mapsto> Waiting (lk\<lparr>owned_count := owned_count lk + n\<rparr>))\<rparr>) < work_left s"
proof (rule work_step [OF inv _ t(1)])
  let ?h = "required_hashes lk ! (owned_count lk + n)" and ?Q = "latch_queue (sched_latches s)"
  obtain x xs where x: "?Q ?h = x # xs" "x \<noteq> c" "latch_queue L = ?Q(?h := ?Q ?h @ [c])"
    using acquire_slot_queue [OF sched_invD(1) [OF inv], of ?h c] slot
    by (cases "?Q ?h") (auto split: if_splits)
  show "e \<in> set (latch_queue (sched_latches (s\<lparr>sched_latches := L, tasks := (tasks s)(c \<mapsto> Waiting (lk\<lparr>owned_count := owned_count lk + n\<rparr>))\<rparr>)) h) \<longleftrightarrow>
      e \<in> set (?Q h)" if "e \<noteq> c" for e h
    using that by (simp add: x(3))
  have "c \<notin> set (?Q ?h)" using claim_new [OF inv t refl] x(1,2) by (auto simp: at_head_def)
  then show "task_work (latch_queue (sched_latches (s\<lparr>sched_latches := L, tasks := (tasks s)(c \<mapsto> Waiting (lk\<lparr>owned_count := owned_count lk + n\<rparr>))\<rparr>))) c
      (Waiting (lk\<lparr>owned_count := owned_count lk + n\<rparr>)) < task_work ?Q c (Acquiring lk n)"
    using t(2) by simp
qed simp

lemma work_release_next:
  assumes inv: "sched_inv s" and t: "tasks s c = Some (Releasing (h # hs) None)"
    and slot: "release_slot (sched_latches s) h c None [] = Some (L, w, [])"
    and s': "tasks s' = (tasks s)(c \<mapsto> Releasing hs None)" "sched_latches s' = L"
  shows "work_left s' < work_left s"
proof (rule work_step [OF inv s'(1) t])
  show "e \<in> set (latch_queue (sched_latches s') x) \<longleftrightarrow> e \<in> set (latch_queue (sched_latches s) x)" if "e \<noteq> c" for e x
    by (rule release_slot_plain [OF inv t]) (use that slot in \<open>simp add: s'(2)\<close>)
qed simp

lemma work_two:
  assumes inv: "sched_inv s" and s': "tasks s' = (tasks s)(c := ct, d \<mapsto> u')" and t: "tasks s c = Some t" "tasks s d = Some u" "d \<noteq> c"
    and q: "\<And>e h. e \<noteq> c \<Longrightarrow> e \<noteq> d \<Longrightarrow> e \<in> set (latch_queue (sched_latches s') h) \<longleftrightarrow> e \<in> set (latch_queue (sched_latches s) h)"
    and less: "case ct of None \<Rightarrow> True | Some t' \<Rightarrow>
        task_work (latch_queue (sched_latches s')) c t' < task_work (latch_queue (sched_latches s)) c t"
      "task_work (latch_queue (sched_latches s)) c t \<noteq> 0"
      "task_work (latch_queue (sched_latches s')) d u' \<le> task_work (latch_queue (sched_latches s)) d u"
  shows "work_left s' < work_left s"
proof (rule work_left_less [OF sched_invD(2) [OF inv]])
  show "dom (tasks s') \<subseteq> dom (tasks s)" using t by (auto simp: s' split: if_splits)
  show lc: "cmd_work s' c < cmd_work s c" using less(1,2) t by (simp add: cmd_work_def s' split: option.splits)
  show "cmd_work s' e \<le> cmd_work s e" for e
  proof (cases "e = c \<or> e = d")
    case True
    then show ?thesis using lc less(3) t by (auto simp: cmd_work_def s')
  next
    case False
    then show ?thesis using task_work_cong [OF q, of e] by (auto simp: cmd_work_def s' split: option.split)
  qed
qed

lemma work_release_next_keep:
  assumes inv: "sched_inv s" and t: "tasks s c = Some (Releasing (h # hs) (Some (d, ks)))" "tasks s d = Some (Inheriting lk n)"
    and slot: "release_slot (sched_latches s) h c (Some d) ks = Some (L, w, ks')"
    and s': "tasks s' = (tasks s)(c \<mapsto> Releasing hs (Some (d, ks')), d \<mapsto> Inheriting lk n')" "sched_latches s' = L"
  shows "work_left s' < work_left s"
proof (rule work_two [OF inv s'(1) t])
  show "d \<noteq> c" using t by auto
  show "e \<in> set (latch_queue (sched_latches s') x) \<longleftrightarrow> e \<in> set (latch_queue (sched_latches s) x)" if "e \<noteq> c" "e \<noteq> d" for e x
    by (rule release_slot_keep [OF inv t(1)]; use that slot in \<open>simp add: s'(2)\<close>)
qed simp_all

lemma sched_acquire_decreases: "sched_acquire s s' \<Longrightarrow> sched_inv s \<Longrightarrow> work_left s' < work_left s"
proof (induction rule: sched_acquire.induct)
  case (acquire_next_step s c lk n L)
  show ?case by (rule work_acquire_next [OF acquire_next_step(4,1,2,3)])
next
  case (acquire_wait_step s c lk n L)
  show ?case by (rule work_acquire_wait [OF acquire_wait_step(4,1,2,3)])
next
  case (acquire_done_step s c lk n)
  show ?case
    by (rule work_step [OF acquire_done_step(3) _ acquire_done_step(1)], simp) (simp_all add: acquire_done_step(2))
qed

lemma acquire_lock_on_wakeup_decreases: "acquire_lock_on_wakeup s s' \<Longrightarrow> sched_inv s \<Longrightarrow> work_left s' < work_left s"
proof (induction rule: acquire_lock_on_wakeup.induct)
  case (wake_up_step c s lk)
  have "c \<in> set (latch_queue (sched_latches s) (required_hashes lk ! owned_count lk))" "owned_count lk < length (required_hashes lk)"
    using sched_invD(5) [OF wake_up_step(3,2)] by (simp_all add: task_inv_def)
  then show ?case by (intro work_step [OF wake_up_step(3) _ wake_up_step(2)], simp) simp_all
next
  case (wake_up_expired_step c s lk)
  have "owned_count lk < length (required_hashes lk)"
    using sched_invD(5) [OF wake_up_expired_step(3,2)] by (simp add: task_inv_def)
  then show ?case by (intro work_step [OF wake_up_expired_step(3) _ wake_up_expired_step(2)], simp) simp_all
qed

lemma command_finished_decreases: "command_finished s s' \<Longrightarrow> sched_inv s \<Longrightarrow> work_left s' < work_left s"
proof (induction rule: command_finished.induct)
  case (finish_command_step s c lk)
  show ?case by (rule work_step [OF finish_command_step(2) _ finish_command_step(1)], simp) simp_all
qed

lemma release_latches_decreases: "release_latches s s' \<Longrightarrow> sched_inv s \<Longrightarrow> work_left s' < work_left s"
proof (induction rule: release_latches.induct)
  case (release_next_step s c h hs L w)
  show ?case by (rule work_release_next [OF release_next_step(3,1,2)]) simp_all
next
  case (release_next_keep_step s c h hs d ks lk n L w ks')
  show ?case by (rule work_release_next_keep [OF release_next_keep_step(4,1,2,3)]) simp_all
next
  case (release_done_step s c)
  show ?case
    using sched_invD(2) [OF release_done_step(2)] release_done_step(1)
    by (intro work_left_less [where c = c]) (auto simp: cmd_work_def split: option.split)
qed

lemma schedule_next_decreases: "schedule_next s s' \<Longrightarrow> sched_inv s \<Longrightarrow> work_left s' < work_left s"
proof (induction rule: schedule_next.induct)
  case (release_done_keep_step s c d lk n)
  have "d \<noteq> c" using release_done_keep_step(1,2) by auto
  then show ?case
    by (intro work_two [OF release_done_keep_step(3) _ release_done_keep_step(1,2)], simp)
      (simp_all add: force_assume_acquired_def)
qed

lemma sched_work_decreases: "sched_work s s' \<Longrightarrow> sched_inv s \<Longrightarrow> work_left s' < work_left s"
  by (elim sched_work.cases)
    (blast intro: sched_acquire_decreases acquire_lock_on_wakeup_decreases command_finished_decreases
      release_latches_decreases schedule_next_decreases)+

lemma sched_run_bound:
  "(sched_work ^^ k) s s' \<Longrightarrow> sched_inv s \<Longrightarrow> sched_inv s' \<and> work_left s' + k \<le> work_left s"
proof (induction k arbitrary: s')
  case (Suc k)
  then obtain s1 where s1: "(sched_work ^^ k) s s1" "sched_work s1 s'" by auto
  from Suc.IH [OF s1(1) Suc.prems(2)] have "sched_inv s1" "work_left s1 + k \<le> work_left s" by simp_all
  then show ?case using sched_work_decreases [OF s1(2)] sched_work_inv [OF s1(2)] by simp
qed simp

text \<open>Commands are queued in the same order in all the latches they share.\<close>

lemma owns_below_claim: "task_wf t \<Longrightarrow> claims t = Some h \<Longrightarrow> h' \<in> owns t \<Longrightarrow> h' < h"
  by (cases t) (auto simp: in_set_conv_nth sorted_wrt_iff_nth_less split: if_splits)

lemma behind_claims:
  assumes inv: "sched_inv s" and q: "latch_queue (sched_latches s) h = xs @ c # ys @ d # zs"
  obtains t where "tasks s d = Some t" "claims t = Some h" "task_wf t"
proof -
  let ?Q = "latch_queue (sched_latches s)"
  obtain t where t: "tasks s d = Some t" "h \<in> owns t \<or> claims t = Some h"
    using sched_invD(6) [OF inv] q unfolding queues_inv_def by fastforce
  have "\<not> at_head ?Q d h" using queue_distinct [OF inv, of h] q by (cases xs) (auto simp: at_head_def)
  moreover note ti = sched_invD(5) [OF inv t(1), unfolded task_inv_def]
  ultimately show ?thesis using that t by blast
qed

lemma queues_same_order:
  assumes inv: "sched_inv s" and q: "latch_queue (sched_latches s) h = xs @ c # ys @ d # zs"
    and q': "latch_queue (sched_latches s) h' = xs' @ d # ys' @ c # zs'"
  shows False
proof -
  obtain td where td: "tasks s d = Some td" "claims td = Some h" "task_wf td" by (rule behind_claims [OF inv q])
  obtain tc where tc: "tasks s c = Some tc" "claims tc = Some h'" "task_wf tc" by (rule behind_claims [OF inv q'])
  have "h \<noteq> h'"
  proof
    assume "h = h'"
    then have "xs @ c # ys @ d # zs = xs' @ d # ys' @ c # zs'" unfolding q [symmetric] q' [symmetric] by simp
    moreover have "distinct (xs @ c # ys @ d # zs)" unfolding q [symmetric] by (rule queue_distinct [OF inv])
    ultimately show False by (auto simp: append_eq_append_conv2 append_eq_Cons_conv Cons_eq_append_conv)
  qed
  then have "h \<in> owns tc" "h' \<in> owns td"
    using queue_memberD [OF inv _ tc(1), of h] queue_memberD [OF inv _ td(1), of h'] q q' tc(2) td(2) by auto
  then show False using owns_below_claim [OF tc(3,2)] owns_below_claim [OF td(3,2)] by fastforce
qed

section \<open>Properties of the latches\<close>

text \<open>C7: Latches exclude each other: in every reachable state of the scheduler two commands that are
  being processed have no hash of a key in common, commands are queued in the same order in all latches
  they share, no visit of a slot panics, and a command that is woken up is waiting for a latch at
  whose head it stands.\<close>

theorem latches_exclusive:
  assumes "sched_reachable hash n s"
  shows "(\<forall>c d lk lk'. tasks s c = Some (Holding lk) \<and> tasks s d = Some (Holding lk') \<and> c \<noteq> d \<longrightarrow>
      set (required_hashes lk) \<inter> set (required_hashes lk') = {}) \<and>
    (\<forall>c d h h' xs ys zs xs' ys' zs'. latch_queue (sched_latches s) h = xs @ c # ys @ d # zs \<longrightarrow>
      latch_queue (sched_latches s) h' \<noteq> xs' @ d # ys' @ c # zs') \<and>
    (\<forall>c lk k. tasks s c = Some (Acquiring lk k) \<and> owned_count lk + k < length (required_hashes lk) \<longrightarrow>
      acquire_slot (sched_latches s) (required_hashes lk ! (owned_count lk + k)) c \<noteq> None) \<and>
    (\<forall>c h hs keep. tasks s c = Some (Releasing (h # hs) keep) \<longrightarrow>
      release_slot (sched_latches s) h c (map_option fst keep) (case keep of Some (_, ks) \<Rightarrow> ks | None \<Rightarrow> []) \<noteq> None) \<and>
    (\<forall>c \<in> set (pending s). \<exists>lk. tasks s c = Some (Waiting lk) \<and> owned_count lk < length (required_hashes lk) \<and>
      hd (latch_queue (sched_latches s) (required_hashes lk ! owned_count lk)) = c)"
proof (intro conjI allI ballI impI; (elim conjE)?)
  note inv = sched_reachable_inv [OF assms]
  let ?Q = "latch_queue (sched_latches s)"
  have owned: "at_head ?Q c h" if "tasks s c = Some (Holding lk)" "h \<in> set (required_hashes lk)" for c lk h
    using sched_invD(5) [OF inv that(1)] that(2) by (simp add: task_inv_def)
  show "set (required_hashes lk) \<inter> set (required_hashes lk') = {}"
    if "tasks s c = Some (Holding lk)" "tasks s d = Some (Holding lk')" "c \<noteq> d" for c d lk lk'
    using owned [OF that(1)] owned [OF that(2)] that(3) by (fastforce simp: at_head_def)
  show "latch_queue (sched_latches s) h' \<noteq> xs' @ d # ys' @ c # zs'"
    if "latch_queue (sched_latches s) h = xs @ c # ys @ d # zs" for c d h h' xs ys zs xs' ys' zs'
    using queues_same_order [OF inv that] by blast
  show "acquire_slot (sched_latches s) (required_hashes lk ! (owned_count lk + k)) c \<noteq> None" for c lk k
    using acquire_slot_queue [OF sched_invD(1) [OF inv], of "required_hashes lk ! (owned_count lk + k)" c]
    by (auto split: list.splits if_splits)
  show "release_slot (sched_latches s) h c (map_option fst keep) (case keep of Some (_, ks) \<Rightarrow> ks | None \<Rightarrow> []) \<noteq> None"
    if t: "tasks s c = Some (Releasing (h # hs) keep)" for c h hs keep
  proof (cases keep)
    case None
    show ?thesis by (rule release_slot_plain [OF inv t [unfolded None]]) (simp add: None)
  next
    case (Some k)
    obtain d ks where k: "k = (d, ks)" by (cases k)
    show ?thesis by (rule release_slot_keep [OF inv t [unfolded Some k]]) (simp_all add: Some k)
  qed
  fix c assume c: "c \<in> set (pending s)"
  then obtain t where t: "tasks s c = Some t" using sched_invD(4) [OF inv] by blast
  have ti: "is_waiting t" "\<forall>h. claims t = Some h \<longrightarrow> at_head ?Q c h" "task_wf t"
    using sched_invD(5) [OF inv t] c by (simp_all add: task_inv_def)
  then show "\<exists>lk. tasks s c = Some (Waiting lk) \<and> owned_count lk < length (required_hashes lk) \<and>
      hd (?Q (required_hashes lk ! owned_count lk)) = c"
    using t by (cases t) (auto simp: at_head_def)
qed

text \<open>C8: No deadlock: when no more commands arrive, every run of the scheduler ends after a bounded
  number of steps, and when nothing more can be done every command has been processed and has
  released its latches.\<close>

theorem latches_live:
  assumes "sched_reachable hash n s"
  shows "(\<exists>b. \<forall>k s'. (sched_work ^^ k) s s' \<longrightarrow> k \<le> b) \<and>
    (\<forall>k s'. (sched_work ^^ k) s s' \<and> (\<nexists>s''. sched_work s' s'') \<longrightarrow>
      tasks s' = Map.empty \<and> pending s' = [] \<and> (\<forall>h. latch_queue (sched_latches s') h = []))"
proof (intro conjI allI impI; (elim conjE)?)
  note inv = sched_reachable_inv [OF assms]
  show "\<exists>b. \<forall>k s'. (sched_work ^^ k) s s' \<longrightarrow> k \<le> b"
    using sched_run_bound [OF _ inv] by (intro exI [of _ "work_left s"]) fastforce
  fix k s' assume run: "(sched_work ^^ k) s s'" and stop: "\<nexists>s''. sched_work s' s''"
  have inv': "sched_inv s'" using sched_run_bound [OF run inv] by simp
  show e: "tasks s' = Map.empty" using sched_progress [OF inv'] stop by blast
  show "pending s' = []" using sched_invD(4) [OF inv'] e by simp
  show "latch_queue (sched_latches s') h = []" for h
    using sched_invD(6) [OF inv'] e unfolding queues_inv_def by (cases "latch_queue (sched_latches s') h") fastforce+
qed

section \<open>Calls as runs\<close>

lemma acquire_loop_runs:
  assumes "tasks s c = Some (Acquiring lk n)" "owned_count lk + n \<le> length (required_hashes lk)"
    and "acquire_loop (sched_latches s) c (drop (owned_count lk + n) (required_hashes lk)) n = Some (L, m)"
  shows "\<exists>s'. sched_work\<^sup>*\<^sup>* s s' \<and> sched_latches s' = L \<and> pending s' = pending s \<and> tasks s' = (tasks s)(c \<mapsto>
      (if owned_count lk + m = length (required_hashes lk) then Holding (lk\<lparr>owned_count := owned_count lk + m\<rparr>)
       else Waiting (lk\<lparr>owned_count := owned_count lk + m\<rparr>)))"
  using assms
proof (induction "length (required_hashes lk) - (owned_count lk + n)" arbitrary: s n)
  case 0
  then have n: "owned_count lk + n = length (required_hashes lk)" by simp
  then have "L = sched_latches s" "m = n" using "0.prems"(3) by simp_all
  then show ?case
    using acquire_done [OF "0.prems"(1) n] n
    by (intro exI [of _ "s\<lparr>tasks := (tasks s)(c \<mapsto> Holding (lk\<lparr>owned_count := owned_count lk + n\<rparr>))\<rparr>"]) (auto intro: r_into_rtranclp)
next
  case (Suc x)
  then have n: "owned_count lk + n < length (required_hashes lk)" by simp
  let ?h = "required_hashes lk ! (owned_count lk + n)"
  have "drop (owned_count lk + n) (required_hashes lk) = ?h # drop (owned_count lk + (n + 1)) (required_hashes lk)"
    using n by (simp add: Cons_nth_drop_Suc)
  note loop = Suc.prems(3) [unfolded this]
  obtain L1 b where slot: "acquire_slot (sched_latches s) ?h c = Some (L1, b)"
    using loop by (auto split: option.splits)
  show ?case
  proof (cases b)
    case True
    define s1 where "s1 = s\<lparr>sched_latches := L1, tasks := (tasks s)(c \<mapsto> Acquiring lk (n + 1))\<rparr>"
    have s1: "tasks s1 = (tasks s)(c \<mapsto> Acquiring lk (n + 1))" "sched_latches s1 = L1" "pending s1 = pending s"
      by (simp_all add: s1_def)
    have "sched_work s s1" unfolding s1_def using slot True by (intro acquire_next [OF Suc.prems(1) n]) simp
    moreover have loop1: "acquire_loop (sched_latches s1) c (drop (owned_count lk + (n + 1)) (required_hashes lk)) (n + 1) = Some (L, m)"
      using loop by (simp add: slot True s1)
    have "\<exists>s'. sched_work\<^sup>*\<^sup>* s1 s' \<and> sched_latches s' = L \<and> pending s' = pending s1 \<and> tasks s' = (tasks s1)(c \<mapsto>
      (if owned_count lk + m = length (required_hashes lk) then Holding (lk\<lparr>owned_count := owned_count lk + m\<rparr>)
       else Waiting (lk\<lparr>owned_count := owned_count lk + m\<rparr>)))"
      by (rule Suc.hyps(1) [OF _ _ _ loop1]) (use Suc.hyps(2) n in \<open>simp_all add: s1(1)\<close>)
    ultimately show ?thesis
      unfolding s1 fun_upd_upd by (blast intro: converse_rtranclp_into_rtranclp)
  next
    case False
    then have "L = L1" "m = n" using loop by (simp_all add: slot)
    then show ?thesis
      using acquire_wait [OF Suc.prems(1) n, of L1] slot False n
      by (intro exI [of _ "s\<lparr>sched_latches := L, tasks := (tasks s)(c \<mapsto> Waiting (lk\<lparr>owned_count := owned_count lk + n\<rparr>))\<rparr>"])
        (auto intro: r_into_rtranclp)
  qed
qed

lemma acquire_loop_total:
  "wf_latches L \<Longrightarrow> \<exists>L' m. acquire_loop L c hs n = Some (L', m)"
proof (induction hs arbitrary: L n)
  case (Cons h hs)
  obtain L1 b where "acquire_slot L h c = Some (L1, b)" "wf_latches L1"
    using acquire_slot_queue [OF Cons.prems, of h c] Cons.prems by (auto split: list.splits if_splits)
  with Cons.IH show ?case by (cases b) auto
qed simp

lemma acquire_runs:
  assumes inv: "sched_inv s" and t: "tasks s c = Some (Acquiring lk 0)"
  shows "\<exists>L lk' b s'. acquire (sched_latches s) lk c = Some (L, lk', b) \<and> sched_work\<^sup>*\<^sup>* s s' \<and>
    sched_latches s' = L \<and> pending s' = pending s \<and> tasks s' = (tasks s)(c \<mapsto> (if b then Holding lk' else Waiting lk'))"
proof -
  have le: "owned_count lk \<le> length (required_hashes lk)" using sched_invD(5) [OF inv t] by (simp add: task_inv_def)
  obtain L m where loop: "acquire_loop (sched_latches s) c (drop (owned_count lk) (required_hashes lk)) 0 = Some (L, m)"
    using acquire_loop_total [OF sched_invD(1) [OF inv]] by blast
  let ?lk = "lk\<lparr>owned_count := owned_count lk + m\<rparr>"
  have "acquire (sched_latches s) lk c = Some (L, ?lk, acquired ?lk)"
    using le loop by (simp add: acquire_def Let_def)
  moreover have "\<exists>s'. sched_work\<^sup>*\<^sup>* s s' \<and> sched_latches s' = L \<and> pending s' = pending s \<and>
      tasks s' = (tasks s)(c \<mapsto> (if acquired ?lk then Holding ?lk else Waiting ?lk))"
    using acquire_loop_runs [OF t, of L m] le loop by (simp add: acquired_def eq_commute)
  ultimately show ?thesis by blast
qed

lemma release_loop_runs:
  assumes "sched_inv s" "tasks s c = Some (Releasing hs None)"
  shows "\<exists>L vs s'. release_loop (sched_latches s) c None [] hs ws = Some (L, ws @ vs) \<and> sched_work\<^sup>*\<^sup>* s s' \<and>
    sched_latches s' = L \<and> tasks s' = (tasks s)(c := None) \<and> pending s' = pending s @ vs"
  using assms
proof (induction hs arbitrary: s ws)
  case Nil
  then show ?case
    using release_done [OF Nil.prems(2)]
    by (intro exI [of _ "sched_latches s"] exI [of _ "[]"] exI [of _ "s\<lparr>tasks := (tasks s)(c := None)\<rparr>"])
      (auto intro: r_into_rtranclp)
next
  case (Cons h hs)
  obtain q L1 where slot: "release_slot (sched_latches s) h c None [] = Some (L1, (case q of [] \<Rightarrow> None | x # _ \<Rightarrow> Some x), [])"
    by (rule release_slot_plain [OF Cons.prems])
  let ?w = "case (case q of [] \<Rightarrow> None | x # _ \<Rightarrow> Some x) of Some x \<Rightarrow> [x] | None \<Rightarrow> []"
  define s1 where "s1 = s\<lparr>sched_latches := L1, tasks := (tasks s)(c \<mapsto> Releasing hs None), pending := pending s @ ?w\<rparr>"
  have s1: "tasks s1 = (tasks s)(c \<mapsto> Releasing hs None)" "sched_latches s1 = L1" "pending s1 = pending s @ ?w"
    by (simp_all add: s1_def)
  have step: "sched_work s s1" unfolding s1_def by (rule release_next [OF Cons.prems(2) slot])
  have t1: "tasks s1 c = Some (Releasing hs None)" by (simp add: s1(1))
  obtain L vs s' where run: "release_loop L1 c None [] hs (ws @ ?w) = Some (L, (ws @ ?w) @ vs)" "sched_work\<^sup>*\<^sup>* s1 s'"
    "sched_latches s' = L" "tasks s' = (tasks s1)(c := None)" "pending s' = pending s1 @ vs"
    using Cons.IH [OF sched_work_inv [OF step Cons.prems(1)] t1, of "ws @ ?w", unfolded s1(2)] by blast
  have "sched_work\<^sup>*\<^sup>* s s'" using step run(2) by (rule converse_rtranclp_into_rtranclp)
  moreover have "release_loop (sched_latches s) c None [] (h # hs) ws = Some (L, ws @ ?w @ vs)"
    using run(1) by (simp add: slot)
  ultimately show ?case using run(3-5) by (intro exI [of _ L] exI [of _ "?w @ vs"] exI [of _ s']) (simp add: s1)
qed

lemma release_loop_keep_runs:
  assumes "sched_inv s" "tasks s c = Some (Releasing hs (Some (d, ks)))" "tasks s d = Some (Inheriting lk n)"
  shows "\<exists>L vs s'. release_loop (sched_latches s) c (Some d) ks hs ws = Some (L, ws @ vs) \<and> sched_work\<^sup>*\<^sup>* s s' \<and>
    sched_latches s' = L \<and> tasks s' = (tasks s)(c := None, d \<mapsto> Acquiring (force_assume_acquired lk) 0) \<and>
    pending s' = pending s @ vs"
  using assms
proof (induction hs arbitrary: s ws ks n)
  case Nil
  have ks: "ks = []" using sched_invD(5) [OF Nil.prems(1,2)] by (simp add: task_inv_def)
  let ?s' = "s\<lparr>tasks := (tasks s)(c := None, d \<mapsto> Acquiring (force_assume_acquired lk) 0)\<rparr>"
  have "sched_work s ?s'" by (rule release_done_keep [OF Nil.prems(2) [unfolded ks] Nil.prems(3)])
  then show ?case
    by (intro exI [of _ "sched_latches s"] exI [of _ "[]"] exI [of _ ?s']) (auto simp: ks fun_eq_iff intro: r_into_rtranclp)
next
  case (Cons h hs)
  have dc: "d \<noteq> c" using Cons.prems(2,3) by auto
  obtain L1 w ks' where slot: "release_slot (sched_latches s) h c (Some d) ks = Some (L1, w, ks')"
    using Cons.prems(1,2) by (cases rule: release_slot_keep) blast+
  let ?w = "case w of Some x \<Rightarrow> [x] | None \<Rightarrow> []" and ?n = "length (required_hashes lk) - length ks'"
  define s1 where "s1 = s\<lparr>sched_latches := L1, tasks := (tasks s)(c \<mapsto> Releasing hs (Some (d, ks')), d \<mapsto> Inheriting lk ?n),
      pending := pending s @ ?w\<rparr>"
  have s1: "tasks s1 = (tasks s)(c \<mapsto> Releasing hs (Some (d, ks')), d \<mapsto> Inheriting lk ?n)" "sched_latches s1 = L1"
    "pending s1 = pending s @ ?w" by (simp_all add: s1_def)
  have step: "sched_work s s1" unfolding s1_def by (rule release_next_keep [OF Cons.prems(2,3) slot])
  have t1: "tasks s1 c = Some (Releasing hs (Some (d, ks')))" "tasks s1 d = Some (Inheriting lk ?n)"
    using dc by (simp_all add: s1(1))
  obtain L vs s' where run: "release_loop L1 c (Some d) ks' hs (ws @ ?w) = Some (L, (ws @ ?w) @ vs)" "sched_work\<^sup>*\<^sup>* s1 s'"
    "sched_latches s' = L" "tasks s' = (tasks s1)(c := None, d \<mapsto> Acquiring (force_assume_acquired lk) 0)" "pending s' = pending s1 @ vs"
    using Cons.IH [OF sched_work_inv [OF step Cons.prems(1)] t1, of "ws @ ?w", unfolded s1(2)] by blast
  have "sched_work\<^sup>*\<^sup>* s s'" using step run(2) by (rule converse_rtranclp_into_rtranclp)
  moreover have "release_loop (sched_latches s) c (Some d) ks (h # hs) ws = Some (L, ws @ ?w @ vs)"
    using run(1) by (simp add: slot)
  moreover have "tasks s' = (tasks s)(c := None, d \<mapsto> Acquiring (force_assume_acquired lk) 0)"
    unfolding run(4) s1(1) by (rule ext) simp
  ultimately show ?case
    using run(3,5) unfolding s1(3) append_assoc by blast
qed

lemma release_runs:
  assumes inv: "sched_inv s" and step: "sched_work s s1" "sched_latches s1 = sched_latches s"
    and t: "tasks s1 = (tasks s)(c \<mapsto> Releasing (take (owned_count lk) (required_hashes lk)) None)"
    and le: "owned_count lk \<le> length (required_hashes lk)"
  shows "\<exists>L ws s'. release (sched_latches s) lk c None = Some (L, ws) \<and> sched_work\<^sup>*\<^sup>* s s' \<and>
    sched_latches s' = L \<and> pending s' = pending s1 @ ws \<and> tasks s' = (tasks s)(c := None)"
proof -
  have t1: "tasks s1 c = Some (Releasing (take (owned_count lk) (required_hashes lk)) None)" by (simp add: t)
  obtain L ws s' where "release_loop (sched_latches s1) c None [] (take (owned_count lk) (required_hashes lk)) [] = Some (L, [] @ ws)"
    "sched_work\<^sup>*\<^sup>* s1 s'" "sched_latches s' = L" "tasks s' = (tasks s1)(c := None)" "pending s' = pending s1 @ ws"
    using release_loop_runs [OF sched_work_inv [OF step(1) inv] t1, of "[]"] by blast
  then show ?thesis
    using le step(1) by (intro exI [of _ L] exI [of _ ws] exI [of _ s'])
      (simp add: release_def step(2) t converse_rtranclp_into_rtranclp)
qed

lemma finished_release_runs:
  assumes inv: "sched_inv s" and t: "tasks s c = Some (Holding lk)"
  shows "\<exists>L ws s'. release (sched_latches s) lk c None = Some (L, ws) \<and> sched_work\<^sup>*\<^sup>* s s' \<and>
    sched_latches s' = L \<and> pending s' = pending s @ ws \<and> tasks s' = (tasks s)(c := None)"
  using release_runs [OF inv finish_command [OF t], of c lk] sched_invD(5) [OF inv t] by (simp add: task_inv_def)

lemma expired_release_runs:
  assumes inv: "sched_inv s" and t: "c \<in> set (pending s)" "tasks s c = Some (Waiting lk)"
  shows "\<exists>L ws s'. release (sched_latches s) (lk\<lparr>owned_count := owned_count lk + 1\<rparr>) c None = Some (L, ws) \<and>
    sched_work\<^sup>*\<^sup>* s s' \<and> sched_latches s' = L \<and> pending s' = remove1 c (pending s) @ ws \<and> tasks s' = (tasks s)(c := None)"
  using release_runs [OF inv wake_up_expired [OF t], of c "lk\<lparr>owned_count := owned_count lk + 1\<rparr>"]
    sched_invD(5) [OF inv t(2)] by (simp add: task_inv_def)

lemma rtranclp_inv: "sched_work\<^sup>*\<^sup>* s s' \<Longrightarrow> sched_inv s \<Longrightarrow> sched_inv s'"
  by (induction rule: rtranclp_induct) (auto intro: sched_work_inv)

lemma hand_over_runs:
  assumes inv: "sched_inv s" and t: "tasks s c = Some (Holding lk)" "tasks s d = None"
    and lk': "lk' = latch_lock_new hash ks" "set (required_hashes lk') \<subseteq> set (required_hashes lk)"
  shows "\<exists>L ws s1 s'. release (sched_latches s) lk c (Some (d, lk')) = Some (L, ws) \<and> sched_arrive hash s s1 \<and>
    sched_work\<^sup>*\<^sup>* s1 s' \<and> sched_latches s' = L \<and> pending s' = pending s @ ws \<and>
    tasks s' = (tasks s)(c := None, d \<mapsto> Holding (force_assume_acquired lk')) \<and>
    (\<forall>h \<in> set (required_hashes lk'). \<exists>q. latch_queue L h = d # q)"
proof -
  have dc: "d \<noteq> c" using t by auto
  have le: "owned_count lk = length (required_hashes lk)" using sched_invD(5) [OF inv t(1)] by (simp add: task_inv_def)
  let ?hs = "take (owned_count lk) (required_hashes lk)"
  define s1 where "s1 = s\<lparr>tasks := (tasks s)(c \<mapsto> Releasing ?hs (Some (d, required_hashes lk')), d \<mapsto> Inheriting lk' 0)\<rparr>"
  have s1: "tasks s1 = (tasks s)(c \<mapsto> Releasing ?hs (Some (d, required_hashes lk')), d \<mapsto> Inheriting lk' 0)"
    "sched_latches s1 = sched_latches s" "pending s1 = pending s" by (simp_all add: s1_def)
  have arr: "sched_arrive hash s s1"
    unfolding s1_def by (rule arrive_hand_over [OF hand_over [OF t lk']])
  note inv1 = sched_arrive_inv [OF arr inv]
  have t1: "tasks s1 c = Some (Releasing ?hs (Some (d, required_hashes lk')))" "tasks s1 d = Some (Inheriting lk' 0)"
    using dc by (simp_all add: s1(1))
  obtain L ws s2 where run: "release_loop (sched_latches s1) c (Some d) (required_hashes lk') ?hs [] = Some (L, [] @ ws)"
    "sched_work\<^sup>*\<^sup>* s1 s2" "sched_latches s2 = L" "pending s2 = pending s1 @ ws"
    "tasks s2 = (tasks s1)(c := None, d \<mapsto> Acquiring (force_assume_acquired lk') 0)"
    using release_loop_keep_runs [OF inv1 t1, of "[]"] by blast
  define s3 where "s3 = s2\<lparr>tasks := (tasks s2)(d \<mapsto> Holding ((force_assume_acquired lk')
      \<lparr>owned_count := owned_count (force_assume_acquired lk') + 0\<rparr>))\<rparr>"
  have s3: "tasks s3 = (tasks s)(c := None, d \<mapsto> Holding (force_assume_acquired lk'))" "sched_latches s3 = L" "pending s3 = pending s @ ws"
    using dc by (auto simp: s3_def run(3-5) s1 force_assume_acquired_def fun_upd_twist)
  have "sched_work s2 s3"
    unfolding s3_def by (rule acquire_done) (simp_all add: run(5) force_assume_acquired_def)
  with run(2) have steps: "sched_work\<^sup>*\<^sup>* s1 s3" by (rule rtranclp.rtrancl_into_rtrancl)
  have "tasks s3 d = Some (Holding (force_assume_acquired lk'))" by (simp add: s3(1))
  from sched_invD(5) [OF rtranclp_inv [OF steps inv1] this]
  have "\<forall>h \<in> set (required_hashes lk'). \<exists>q. latch_queue L h = d # q"
    by (simp add: task_inv_def force_assume_acquired_def at_head_def s3(2))
  moreover have "release (sched_latches s) lk c (Some (d, lk')) = Some (L, ws)"
    using run(1) le by (simp add: release_def s1(2))
  ultimately show ?thesis using arr steps s3 by blast
qed

text \<open>C20: The calls are runs of the steps.  In every reachable state of the scheduler a call of \<^verbatim>\<open>acquire\<close>
  that is not interrupted returns, and is a run that ends with the command processed or waiting as the
  result says.  Every call of \<^verbatim>\<open>release\<close> that the scheduler makes returns, and is a run that ends with the
  command gone and the returned commands pending to be woken up: at the end of a command, after a wake
  up that finds the command expired, whose latch count is then one more than recorded, and with latches
  kept for a next command, which then holds them and is processed.\<close>

theorem latch_calls_are_runs:
  assumes "sched_reachable hash n s"
  shows "(\<forall>c lk. tasks s c = Some (Acquiring lk 0) \<longrightarrow>
      (\<exists>L lk' b s'. acquire (sched_latches s) lk c = Some (L, lk', b) \<and> sched_work\<^sup>*\<^sup>* s s' \<and>
        sched_latches s' = L \<and> pending s' = pending s \<and>
        tasks s' = (tasks s)(c \<mapsto> (if b then Holding lk' else Waiting lk')))) \<and>
    (\<forall>c lk. tasks s c = Some (Holding lk) \<longrightarrow>
      (\<exists>L ws s'. release (sched_latches s) lk c None = Some (L, ws) \<and> sched_work\<^sup>*\<^sup>* s s' \<and>
        sched_latches s' = L \<and> pending s' = pending s @ ws \<and> tasks s' = (tasks s)(c := None))) \<and>
    (\<forall>c lk. c \<in> set (pending s) \<and> tasks s c = Some (Waiting lk) \<longrightarrow>
      (\<exists>L ws s'. release (sched_latches s) (lk\<lparr>owned_count := owned_count lk + 1\<rparr>) c None = Some (L, ws) \<and>
        sched_work\<^sup>*\<^sup>* s s' \<and> sched_latches s' = L \<and> pending s' = remove1 c (pending s) @ ws \<and>
        tasks s' = (tasks s)(c := None))) \<and>
    (\<forall>c lk d ks lk'. tasks s c = Some (Holding lk) \<and> tasks s d = None \<and> lk' = latch_lock_new hash ks \<and>
      set (required_hashes lk') \<subseteq> set (required_hashes lk) \<longrightarrow>
      (\<exists>L ws s1 s'. release (sched_latches s) lk c (Some (d, lk')) = Some (L, ws) \<and>
        sched_arrive hash s s1 \<and> sched_work\<^sup>*\<^sup>* s1 s' \<and> sched_latches s' = L \<and> pending s' = pending s @ ws \<and>
        tasks s' = (tasks s)(c := None, d \<mapsto> Holding (force_assume_acquired lk')) \<and>
        (\<forall>h \<in> set (required_hashes lk'). \<exists>q. latch_queue L h = d # q)))"
  by (intro conjI allI impI; (elim conjE)?;
      rule acquire_runs finished_release_runs expired_release_runs hand_over_runs;
      (rule sched_reachable_inv [OF assms] | assumption))

section \<open>Samples\<close>

definition sample_hash :: "bytes \<Rightarrow> u64" where
  "sample_hash k = of_nat (length k)"

lemma sample_lock_new: "latch_lock_new sample_hash [[7]] = sample_lock 1 0" "latch_lock_new sample_hash [[7, 7]] = sample_lock 2 0"
  by (simp_all add: latch_lock_new_def sample_hash_def sample_lock_def)

definition two_commands :: sched where
  "two_commands = \<lparr> sched_latches = sample_latches [Some (1, 1), Some (2, 2)],
     tasks = [1 \<mapsto> Holding (sample_lock 1 1), 2 \<mapsto> Holding (sample_lock 2 1)], pending = [] \<rparr>"

lemma reach_command:
  assumes "sched_reachable sample_hash 1 s" "sched_latches s = sample_latches ws" "tasks s c = None" "reqs h ws = []"
    and "latch_lock_new sample_hash [k] = sample_lock h 0"
  shows "sched_reachable sample_hash 1 (s\<lparr>sched_latches := sample_latches (ws @ [Some (h, c)]), tasks := (tasks s)(c \<mapsto> Holding (sample_lock h 1))\<rparr>)"
proof -
  let ?s1 = "s\<lparr>tasks := (tasks s)(c \<mapsto> Acquiring (sample_lock h 0) 0)\<rparr>"
  let ?s2 = "?s1\<lparr>sched_latches := sample_latches (ws @ [Some (h, c)]), tasks := (tasks ?s1)(c \<mapsto> Acquiring (sample_lock h 0) (0 + 1))\<rparr>"
  have "sched_reachable sample_hash 1 ?s1"
    using reach_arrive [OF assms(1) arrive_command [OF new_command [OF assms(3), of sample_hash "[k]"]]] by (simp add: assms(5))
  moreover have "sched_work ?s1 ?s2"
    by (rule acquire_next)
      (simp_all add: sample_lock_def acquire_slot_def assms(2,4) sample_slot get_first_req_by_hash_def first_req_reqs wait_for_wake_def)
  ultimately have "sched_reachable sample_hash 1 ?s2" by (rule reach_work)
  moreover have "sched_work ?s2 (?s2\<lparr>tasks := (tasks ?s2)(c \<mapsto> Holding ((sample_lock h 0)\<lparr>owned_count := owned_count (sample_lock h 0) + 1\<rparr>))\<rparr>)"
    by (rule acquire_done) (simp_all add: sample_lock_def)
  ultimately show ?thesis using reach_work by (fastforce simp: sample_lock_def)
qed

lemma reach_two_commands: "sched_reachable sample_hash 1 two_commands"
proof -
  have "sched_reachable sample_hash 1 (sched_init 1)" by (rule reach_init)
  from reach_command [OF this, of "[]" 1 1 "[7]"]
  have "sched_reachable sample_hash 1 ((sched_init 1)\<lparr>sched_latches := sample_latches [Some (1, 1)],
      tasks := [1 \<mapsto> Holding (sample_lock 1 1)]\<rparr>)"
    by (simp add: sched_init_def sample_slot sample_lock_new)
  from reach_command [OF this, of "[Some (1, 1)]" 2 2 "[7, 7]"] show ?thesis
    by (simp add: two_commands_def sched_init_def sample_lock_new)
qed

theorem latches_exclusive_witness:
  "tasks two_commands 1 = Some (Holding (sample_lock 1 1)) \<and> tasks two_commands 2 = Some (Holding (sample_lock 2 1)) \<and>
   set (required_hashes (sample_lock 1 1)) \<inter> set (required_hashes (sample_lock 2 1)) = {}"
proof -
  have t: "tasks two_commands 1 = Some (Holding (sample_lock 1 1))" "tasks two_commands 2 = Some (Holding (sample_lock 2 1))"
    by (simp_all add: two_commands_def)
  then have "set (required_hashes (sample_lock 1 1)) \<inter> set (required_hashes (sample_lock 2 1)) = {}"
    using conjunct1 [OF latches_exclusive [OF reach_two_commands], rule_format, of 1 _ 2] by simp
  with t show ?thesis by blast
qed

lemma stuck_run:
  assumes "\<forall>k s'. (sched_work ^^ k) s s' \<longrightarrow> k \<le> b"
  obtains k s' where "(sched_work ^^ k) s s'" "\<nexists>s''. sched_work s' s''"
proof -
  have "\<exists>s'. (sched_work ^^ 0) s s'" by simp
  moreover have "\<forall>k. (\<exists>s'. (sched_work ^^ k) s s') \<longrightarrow> k < Suc b" using assms by (auto simp: less_Suc_eq_le)
  ultimately have "\<exists>k. (\<exists>s'. (sched_work ^^ k) s s') \<and> (\<forall>j. (\<exists>s'. (sched_work ^^ j) s s') \<longrightarrow> j \<le> k)"
    by (rule ex_has_greatest_nat [where k = 0 and f = "\<lambda>k. k" and P = "\<lambda>k. \<exists>s'. (sched_work ^^ k) s s'"])
  then obtain k s' where k: "(sched_work ^^ k) s s'" "\<forall>j. (\<exists>s'. (sched_work ^^ j) s s') \<longrightarrow> j \<le> k" by blast
  have "\<not> sched_work s' s''" for s'' using k relpowp_Suc_I [OF k(1), of s''] by fastforce
  with k(1) that show ?thesis by blast
qed

theorem latches_live_witness:
  "\<exists>k s'. (sched_work ^^ k) two_commands s' \<and> tasks s' = Map.empty \<and> pending s' = [] \<and>
    latch_queue (sched_latches s') 1 = [] \<and> latch_queue (sched_latches s') 2 = []"
proof -
  note live = latches_live [OF reach_two_commands]
  from conjunct1 [OF live] obtain b where b: "\<forall>k s'. (sched_work ^^ k) two_commands s' \<longrightarrow> k \<le> b" by (elim exE)
  obtain k s' where "(sched_work ^^ k) two_commands s'" "\<nexists>s''. sched_work s' s''" by (rule stuck_run [OF b])
  then show ?thesis using conjunct2 [OF live, rule_format, of k s'] by blast
qed

theorem latch_calls_are_runs_witness:
  "release (sched_latches two_commands) (sample_lock 1 1) 1 (Some (3, sample_lock 1 0)) =
      Some (sample_latches [Some (1, 3), Some (2, 2)], []) \<and>
   (\<exists>s1 s'. sched_arrive sample_hash two_commands s1 \<and> sched_work\<^sup>*\<^sup>* s1 s' \<and>
      sched_latches s' = sample_latches [Some (1, 3), Some (2, 2)] \<and> pending s' = [] \<and>
      tasks s' = (tasks two_commands)(1 := None, 3 \<mapsto> Holding (sample_lock 1 1)))"
proof -
  have rel: "release (sched_latches two_commands) (sample_lock 1 1) 1 (Some (3, sample_lock 1 0)) =
      Some (sample_latches [Some (1, 3), Some (2, 2)], [])"
    by (simp add: release_def two_commands_def sample_lock_def release_slot_def sample_slot pop_front_def maybe_shrink_def
        push_preemptive_def Let_def)
  have t: "tasks two_commands 1 = Some (Holding (sample_lock 1 1))" "tasks two_commands 3 = None"
    "sample_lock 1 0 = latch_lock_new sample_hash [[7]]" "set (required_hashes (sample_lock 1 0)) \<subseteq> set (required_hashes (sample_lock 1 1))"
    by (simp_all add: two_commands_def sample_lock_new) (simp add: sample_lock_def)
  have f: "force_assume_acquired (sample_lock 1 0) = sample_lock 1 1" "pending two_commands = []"
    by (simp_all add: force_assume_acquired_def sample_lock_def two_commands_def)
  note runs = latch_calls_are_runs [OF reach_two_commands, THEN conjunct2, THEN conjunct2, THEN conjunct2]
  from runs [rule_format, OF conjI [OF t(1) conjI [OF t(2) conjI [OF t(3,4)]]], unfolded rel f]
  show ?thesis using rel by auto
qed

end
