(* ===== verification/Deadlock_Detector.thy ===== *)
theory Deadlock_Detector
  imports Txn_Types "HOL-Library.AList"
begin

text \<open>
  The table of the deadlock detector, \<^verbatim>\<open>src/server/lock_manager/deadlock.rs\<close>: which transactions
  wait for which, the search for a cycle and the chain of waits it reports.  A hash map is an
  association list whose order is the order of iteration; all statements hold for any order.
  Instants and durations are natural numbers, and the clock is an argument.
\<close>

section \<open>The locks a transaction waits for\<close>

datatype detector_error = DetectorPanic

record locks =
  locks_ts :: ts
  locks_keys :: "(u64 \<times> bytes) list"
  locks_resource_group_tag :: bytes
  last_detect_time :: nat

definition Locks_new :: "ts \<Rightarrow> u64 \<Rightarrow> bytes \<Rightarrow> bytes \<Rightarrow> nat \<Rightarrow> locks" where
  "Locks_new t hash k tag now =
     \<lparr> locks_ts = t, locks_keys = [(hash, k)], locks_resource_group_tag = tag, last_detect_time = now \<rparr>"

definition locks_push :: "u64 \<Rightarrow> bytes \<Rightarrow> nat \<Rightarrow> locks \<Rightarrow> locks" where
  "locks_push lock_hash k now l =
     l\<lparr>locks_keys := (if \<exists>x \<in> set (locks_keys l). fst x = lock_hash then locks_keys l else locks_keys l @ [(lock_hash, k)]),
       last_detect_time := now\<rparr>"

fun remove_hash :: "u64 \<Rightarrow> (u64 \<times> bytes) list \<Rightarrow> (u64 \<times> bytes) list" where
  "remove_hash lock_hash [] = []"
| "remove_hash lock_hash ((h, k) # ks) = (if h = lock_hash then ks else (h, k) # remove_hash lock_hash ks)"

definition locks_remove :: "u64 \<Rightarrow> locks \<Rightarrow> bool \<times> locks" where
  "locks_remove lock_hash l =
     (let l' = l\<lparr>locks_keys := remove_hash lock_hash (locks_keys l)\<rparr> in (locks_keys l' = [], l'))"

definition is_expired :: "nat \<Rightarrow> nat \<Rightarrow> locks \<Rightarrow> bool" where
  "is_expired now ttl l \<longleftrightarrow> ttl \<le> now - last_detect_time l"

record wait_for_entry =
  wfe_txn :: ts
  wfe_wait_for_txn :: ts
  wfe_key_hash :: u64
  wfe_key :: bytes
  wfe_resource_group_tag :: bytes

fun to_wait_for_entry :: "locks \<Rightarrow> ts \<Rightarrow> detector_error + wait_for_entry" where
  "to_wait_for_entry l waiter_ts =
     (case locks_keys l of
        [] \<Rightarrow> Inl DetectorPanic
      | (h, k) # _ \<Rightarrow>
          Inr \<lparr> wfe_txn = waiter_ts, wfe_wait_for_txn = locks_ts l, wfe_key_hash = h, wfe_key = k,
                wfe_resource_group_tag = locks_resource_group_tag l \<rparr>)"

section \<open>The table\<close>

type_synonym wait_for = "(ts \<times> locks) list"
type_synonym wait_map = "(ts \<times> wait_for) list"

record detect_table =
  wait_for_map :: wait_map
  dt_ttl :: nat
  last_active_expire :: nat
  dt_now :: nat

definition DetectTable_new :: "nat \<Rightarrow> nat \<Rightarrow> detect_table" where
  "DetectTable_new clock ttl = \<lparr> wait_for_map = [], dt_ttl = ttl, last_active_expire = clock, dt_now = clock \<rparr>"

definition retain_alive :: "nat \<Rightarrow> nat \<Rightarrow> wait_for \<Rightarrow> wait_for" where
  "retain_alive now ttl ws = filter (\<lambda>(_, l). \<not> is_expired now ttl l) ws"

definition ACTIVE_EXPIRE_THRESHOLD :: nat where "ACTIVE_EXPIRE_THRESHOLD = 100000"

definition ACTIVE_EXPIRE_INTERVAL :: nat where "ACTIVE_EXPIRE_INTERVAL = 3600 * 1000"

definition active_expire :: "detect_table \<Rightarrow> detect_table" where
  "active_expire T =
     (if ACTIVE_EXPIRE_THRESHOLD \<le> length (wait_for_map T) \<and>
         ACTIVE_EXPIRE_INTERVAL \<le> dt_now T - last_active_expire T
      then T\<lparr>wait_for_map := filter (\<lambda>(_, ws). ws \<noteq> [])
                 (map (\<lambda>(t, ws). (t, retain_alive (dt_now T) (dt_ttl T) ws)) (wait_for_map T)),
             last_active_expire := dt_now T\<rparr>
      else T)"

text \<open>The loop over the transactions that one transaction waits for.\<close>

fun scan_edges ::
    "ts \<Rightarrow> ts \<Rightarrow> wait_for \<Rightarrow> ts list \<Rightarrow> (ts \<times> ts) list \<Rightarrow> locks option \<times> ts list \<times> (ts \<times> ts) list" where
  "scan_edges txn_ts curr_ts [] stack pushed = (None, stack, pushed)"
| "scan_edges txn_ts curr_ts ((lock_ts, l) # es) stack pushed =
     (if lock_ts = txn_ts then (Some l, stack, pushed)
      else if map_of pushed lock_ts = None then
        scan_edges txn_ts curr_ts es (lock_ts # stack) ((lock_ts, curr_ts) # pushed)
      else scan_edges txn_ts curr_ts es stack pushed)"

text \<open>
  The loop that follows the predecessors from the end of the chain to its start.  \<^verbatim>\<open>None\<close> is a loop
  that does not end.
\<close>

partial_function (option) wait_chain_loop ::
    "wait_map \<Rightarrow> ts \<Rightarrow> (ts \<times> ts) list \<Rightarrow> ts \<Rightarrow> wait_for_entry list \<Rightarrow> (detector_error + wait_for_entry list) option" where
  "wait_chain_loop m start preds lock_ts wait_chain =
     (case map_of preds lock_ts of
        None \<Rightarrow> Some (Inl DetectorPanic)
      | Some waiter_ts \<Rightarrow>
          if is_zero waiter_ts then Some (if lock_ts = start then Inr (rev wait_chain) else Inl DetectorPanic)
          else
            (case Option.bind (map_of m waiter_ts) (\<lambda>ws. map_of ws lock_ts) of
               None \<Rightarrow> Some (Inl DetectorPanic)
             | Some l \<Rightarrow>
                 (case to_wait_for_entry l waiter_ts of
                    Inl e \<Rightarrow> Some (Inl e)
                  | Inr entry \<Rightarrow> wait_chain_loop m start preds waiter_ts (wait_chain @ [entry]))))"

definition generate_wait_chain ::
    "wait_map \<Rightarrow> ts \<Rightarrow> ts \<Rightarrow> (ts \<times> ts) list \<Rightarrow> (detector_error + wait_for_entry list) option" where
  "generate_wait_chain m start end_ts preds = wait_chain_loop m start preds end_ts []"

definition found_cycle ::
    "wait_map \<Rightarrow> ts \<Rightarrow> ts \<Rightarrow> (ts \<times> ts) list \<Rightarrow> locks \<Rightarrow> (detector_error + u64 \<times> wait_for_entry list) option" where
  "found_cycle m wait_for_ts curr_ts pushed l =
     (case to_wait_for_entry l curr_ts of
        Inl e \<Rightarrow> Some (Inl e)
      | Inr last_entry \<Rightarrow>
          map_option (\<lambda>r. res_bind r (\<lambda>wait_chain. Inr (wfe_key_hash last_entry, wait_chain @ [last_entry])))
            (generate_wait_chain m wait_for_ts curr_ts pushed))"

definition map_targets :: "wait_map \<Rightarrow> ts set" where
  "map_targets m = (\<Union>(_, ws) \<in> set m. fst ` set ws)"

lemma scan_edges_measure:
  "scan_edges txn_ts curr_ts es stack pushed = (r, stack', pushed') \<Longrightarrow> fst ` set es \<subseteq> V \<Longrightarrow> finite V \<Longrightarrow>
   2 * card (V - fst ` set pushed') + length stack' \<le> 2 * card (V - fst ` set pushed) + length stack"
proof (induction txn_ts curr_ts es stack pushed rule: scan_edges.induct)
  case (2 txn_ts curr_ts lock_ts l es stack pushed)
  show ?case
  proof (cases "lock_ts \<noteq> txn_ts \<and> map_of pushed lock_ts = None")
    case True
    then have "lock_ts \<in> V - fst ` set pushed" using 2(4) by (auto simp: map_of_eq_None_iff)
    moreover have "V - fst ` set ((lock_ts, curr_ts) # pushed) = (V - fst ` set pushed) - {lock_ts}" by auto
    ultimately have "Suc (card (V - fst ` set ((lock_ts, curr_ts) # pushed))) = card (V - fst ` set pushed)"
      using card_Suc_Diff1 [of "V - fst ` set pushed" lock_ts] 2(5) by simp
    moreover have "scan_edges txn_ts curr_ts es (lock_ts # stack) ((lock_ts, curr_ts) # pushed) = (r, stack', pushed')"
      using 2(3) True by simp
    then have "2 * card (V - fst ` set pushed') + length stack' \<le>
        2 * card (V - fst ` set ((lock_ts, curr_ts) # pushed)) + length (lock_ts # stack)"
      by (intro 2(1) [OF _ _ _ _ 2(5)]) (use True 2(4) in auto)
    ultimately show ?thesis by (simp only: list.size)
  next
    case outer: False
    show ?thesis
    proof (cases "lock_ts = txn_ts")
      case True
      have "stack = stack'" "pushed = pushed'"
        using 2(3) unfolding scan_edges.simps if_P [OF True] prod.inject by blast+
      then show ?thesis by (simp only: order.refl)
    next
      case ne: False
      have some: "map_of pushed lock_ts \<noteq> None" using outer ne by (simp only: simp_thms)
      have "scan_edges txn_ts curr_ts es stack pushed = (r, stack', pushed')"
        using 2(3) unfolding scan_edges.simps if_not_P [OF ne] if_not_P [OF some] .
      moreover have "fst ` set es \<subseteq> V" using 2(4) by auto
      ultimately show ?thesis by (rule 2(2) [OF ne some _ _ 2(5)])
    qed
  qed
qed simp

lemma finite_map_targets [simp]: "finite (map_targets m)"
  by (auto simp: map_targets_def)

lemma map_targets_delete: "map_targets (AList.delete k m) \<subseteq> map_targets m"
  unfolding map_targets_def by (auto simp: AList.delete_eq)

lemma set_update_subset: "set (AList.update k v m) \<subseteq> insert (k, v) (set m)"
  by (induction m) auto

lemma map_targets_of: "map_of m k = Some ws \<Longrightarrow> fst ` set ws \<subseteq> map_targets m"
  unfolding map_targets_def by (auto dest: map_of_SomeD)

lemma map_targets_update:
  assumes "map_of m k = Some ws" "set ws' \<subseteq> set ws"
  shows "map_targets (AList.update k ws' m) \<subseteq> map_targets m"
proof
  fix x assume "x \<in> map_targets (AList.update k ws' m)"
  then obtain k2 ws2 where k2: "(k2, ws2) \<in> set (AList.update k ws' m)" "x \<in> fst ` set ws2" by (auto simp: map_targets_def)
  then consider "ws2 = ws'" | "(k2, ws2) \<in> set m" using set_update_subset [of k ws' m] by blast
  then show "x \<in> map_targets m"
  proof cases
    case 1
    then show ?thesis using k2(2) assms(2) map_targets_of [OF assms(1)] by auto
  next
    case 2
    then show ?thesis using k2(2) by (force simp: map_targets_def)
  qed
qed

definition detect_measure :: "wait_map \<Rightarrow> ts list \<Rightarrow> (ts \<times> ts) list \<Rightarrow> nat" where
  "detect_measure m stack pushed = 2 * card (map_targets m - fst ` set pushed) + length stack"

lemma detect_measure_mono:
  "map_targets m' \<subseteq> map_targets m \<Longrightarrow> detect_measure m' stack pushed \<le> detect_measure m stack pushed"
  unfolding detect_measure_def by (intro add_mono mult_left_mono card_mono) auto

lemma detect_measure_pop: "detect_measure m stack pushed < detect_measure m (c # stack) pushed"
  by (simp add: detect_measure_def)

lemma detect_measure_delete: "detect_measure (AList.delete c m) stack pushed < detect_measure m (c # stack) pushed"
  by (rule order.strict_trans1 [OF detect_measure_mono [OF map_targets_delete] detect_measure_pop])

lemma detect_measure_scan:
  assumes "map_of m c = Some ws" "scan_edges txn_ts c (retain_alive now ttl ws) stack pushed = (r, stack', pushed')"
  shows "detect_measure (AList.update c (retain_alive now ttl ws) m) stack' pushed' < detect_measure m (c # stack) pushed"
proof -
  have sub: "set (retain_alive now ttl ws) \<subseteq> set ws" by (auto simp: retain_alive_def)
  have "detect_measure (AList.update c (retain_alive now ttl ws) m) stack' pushed' \<le> detect_measure m stack' pushed'"
    by (rule detect_measure_mono, rule map_targets_update [OF assms(1) sub])
  also have "\<dots> \<le> detect_measure m stack pushed"
    unfolding detect_measure_def
    by (rule scan_edges_measure [OF assms(2)]) (use map_targets_of [OF assms(1)] sub in auto)
  finally show ?thesis using detect_measure_pop [of m stack pushed c] by simp
qed

function detect_loop ::
    "nat \<Rightarrow> nat \<Rightarrow> ts \<Rightarrow> ts \<Rightarrow> wait_map \<Rightarrow> ts list \<Rightarrow> (ts \<times> ts) list \<Rightarrow>
     ((detector_error + (u64 \<times> wait_for_entry list) option) \<times> wait_map) option" where
  "detect_loop now ttl txn_ts wait_for_ts m [] pushed = Some (Inr None, m)"
| "detect_loop now ttl txn_ts wait_for_ts m (curr_ts # stack) pushed =
     (case map_of m curr_ts of
        None \<Rightarrow> detect_loop now ttl txn_ts wait_for_ts m stack pushed
      | Some ws \<Rightarrow>
          (let ws' = retain_alive now ttl ws in
           if ws' = [] then detect_loop now ttl txn_ts wait_for_ts (AList.delete curr_ts m) stack pushed
           else
             (let m' = AList.update curr_ts ws' m in
              case scan_edges txn_ts curr_ts ws' stack pushed of
                (Some l, _, pushed') \<Rightarrow>
                  map_option (\<lambda>r. (res_bind r (\<lambda>x. Inr (Some x)), m')) (found_cycle m' wait_for_ts curr_ts pushed' l)
              | (None, stack', pushed') \<Rightarrow> detect_loop now ttl txn_ts wait_for_ts m' stack' pushed')))"
  by pat_completeness auto
termination
  by (relation "measure (\<lambda>(now, ttl, txn_ts, wait_for_ts, m, stack, pushed). detect_measure m stack pushed)")
    (auto simp: detect_measure_pop detect_measure_delete intro: detect_measure_scan [OF _ sym])

declare detect_loop.simps(2) [simp del]

definition do_detect ::
    "ts \<Rightarrow> ts \<Rightarrow> detect_table \<Rightarrow> ((detector_error + (u64 \<times> wait_for_entry list) option) \<times> detect_table) option" where
  "do_detect txn_ts wait_for_ts T =
     map_option (\<lambda>(r, m). (r, T\<lparr>wait_for_map := m\<rparr>))
       (detect_loop (dt_now T) (dt_ttl T) txn_ts wait_for_ts (wait_for_map T) [wait_for_ts] [(wait_for_ts, 0)])"

text \<open>The table when the edge is there already, refreshed.\<close>

definition register_if_existed :: "ts \<Rightarrow> ts \<Rightarrow> u64 \<Rightarrow> bytes \<Rightarrow> bytes \<Rightarrow> detect_table \<Rightarrow> detect_table option" where
  "register_if_existed txn_ts lock_ts lock_hash k tag T =
     (case map_of (wait_for_map T) txn_ts of
        None \<Rightarrow> None
      | Some ws \<Rightarrow>
          (case map_of ws lock_ts of
             None \<Rightarrow> None
           | Some l \<Rightarrow>
               let l' = (locks_push lock_hash k (dt_now T) l)\<lparr>locks_resource_group_tag := tag\<rparr> in
               Some (T\<lparr>wait_for_map := AList.update txn_ts (AList.update lock_ts l' ws) (wait_for_map T)\<rparr>)))"

definition register :: "ts \<Rightarrow> ts \<Rightarrow> u64 \<Rightarrow> bytes \<Rightarrow> bytes \<Rightarrow> detect_table \<Rightarrow> detector_error + detect_table" where
  "register txn_ts lock_ts lock_hash k tag T =
     (let ws = (case map_of (wait_for_map T) txn_ts of Some ws \<Rightarrow> ws | None \<Rightarrow> []) in
      if map_of ws lock_ts \<noteq> None then Inl DetectorPanic
      else Inr (T\<lparr>wait_for_map := AList.update txn_ts
        (AList.update lock_ts (Locks_new lock_ts lock_hash k tag (dt_now T)) ws) (wait_for_map T)\<rparr>))"

definition detect ::
    "nat \<Rightarrow> ts \<Rightarrow> ts \<Rightarrow> u64 \<Rightarrow> bytes \<Rightarrow> bytes \<Rightarrow> detect_table \<Rightarrow>
     ((detector_error + (u64 \<times> wait_for_entry list) option) \<times> detect_table) option" where
  "detect clock txn_ts lock_ts lock_hash lock_key tag T =
     (let T = active_expire (T\<lparr>dt_now := clock\<rparr>) in
      case register_if_existed txn_ts lock_ts lock_hash lock_key tag T of
        Some T' \<Rightarrow> Some (Inr None, T')
      | None \<Rightarrow>
          (case do_detect txn_ts lock_ts T of
             Some (Inr None, T') \<Rightarrow>
               (case register txn_ts lock_ts lock_hash lock_key tag T' of
                  Inl e \<Rightarrow> Some (Inl e, T')
                | Inr T'' \<Rightarrow> Some (Inr None, T''))
           | other \<Rightarrow> other))"

definition clean_up_wait_for :: "ts \<Rightarrow> ts \<Rightarrow> u64 \<Rightarrow> detect_table \<Rightarrow> detect_table" where
  "clean_up_wait_for txn_ts lock_ts lock_hash T =
     (case map_of (wait_for_map T) txn_ts of
        None \<Rightarrow> T
      | Some ws \<Rightarrow>
          (case map_of ws lock_ts of
             None \<Rightarrow> T
           | Some l \<Rightarrow>
               (case locks_remove lock_hash l of
                  (True, _) \<Rightarrow>
                    let ws' = AList.delete lock_ts ws in
                    T\<lparr>wait_for_map := (if ws' = [] then AList.delete txn_ts (wait_for_map T)
                                     else AList.update txn_ts ws' (wait_for_map T))\<rparr>
                | (False, l') \<Rightarrow>
                    T\<lparr>wait_for_map := AList.update txn_ts (AList.update lock_ts l' ws) (wait_for_map T)\<rparr>)))"

definition clean_up :: "ts \<Rightarrow> detect_table \<Rightarrow> detect_table" where
  "clean_up txn_ts T = T\<lparr>wait_for_map := AList.delete txn_ts (wait_for_map T)\<rparr>"

definition clear_table :: "detect_table \<Rightarrow> detect_table" where
  "clear_table T = T\<lparr>wait_for_map := []\<rparr>"

definition reset_ttl :: "nat \<Rightarrow> detect_table \<Rightarrow> detect_table" where
  "reset_ttl ttl T = T\<lparr>dt_ttl := ttl\<rparr>"

section \<open>Requests to the detector\<close>

datatype detect_request =
    Detect ts u64 bytes bytes \<comment> \<open>the lock's transaction and hash, the key and the resource group tag\<close>
  | CleanUpWaitFor ts u64
  | CleanUp

record deadlock_report =
  dr_txn :: ts
  dr_key :: bytes
  dr_lock_ts :: ts
  dr_lock_hash :: u64
  dr_deadlock_key_hash :: u64
  dr_wait_chain :: "wait_for_entry list"

text \<open>What the detector tells the waiter manager, if anything.\<close>

definition handle_detect_locally ::
    "nat \<Rightarrow> ts \<Rightarrow> detect_request \<Rightarrow> detect_table \<Rightarrow> ((detector_error + deadlock_report option) \<times> detect_table) option" where
  "handle_detect_locally clock txn_ts req T =
     (case req of
        Detect lock_ts lock_hash k tag \<Rightarrow>
          map_option (\<lambda>(r, T').
            (res_bind r (\<lambda>found. Inr (map_option (\<lambda>(deadlock_key_hash, wait_chain).
               let last_entry = \<lparr> wfe_txn = txn_ts, wfe_wait_for_txn = lock_ts, wfe_key_hash = lock_hash, wfe_key = k,
                     wfe_resource_group_tag = tag \<rparr> in
               \<lparr> dr_txn = txn_ts, dr_key = k, dr_lock_ts = lock_ts, dr_lock_hash = lock_hash,
                 dr_deadlock_key_hash = deadlock_key_hash, dr_wait_chain = wait_chain @ [last_entry] \<rparr>) found)), T'))
            (detect clock txn_ts lock_ts lock_hash k tag T)
      | CleanUpWaitFor lock_ts lock_hash \<Rightarrow> Some (Inr None, clean_up_wait_for txn_ts lock_ts lock_hash T)
      | CleanUp \<Rightarrow> Some (Inr None, clean_up txn_ts T))"

text \<open>
  The tables a detector goes through.  A request names a waiting transaction with a nonzero
  timestamp that does not wait for itself.
\<close>

inductive detector_reachable :: "detect_table \<Rightarrow> bool" where
  detector_new: "detector_reachable (DetectTable_new clock ttl)"
| detector_request:
    "\<lbrakk> detector_reachable T; txn_ts \<noteq> 0; \<forall>h k tag. req \<noteq> Detect txn_ts h k tag;
       handle_detect_locally clock txn_ts req T = Some (r, T') \<rbrakk> \<Longrightarrow> detector_reachable T'"
| detector_change_role: "detector_reachable T \<Longrightarrow> detector_reachable (clear_table T)"
| detector_change_ttl: "detector_reachable T \<Longrightarrow> detector_reachable (reset_ttl ttl T)"

section \<open>The graph of waits\<close>

definition look :: "wait_map \<Rightarrow> ts \<Rightarrow> ts \<Rightarrow> locks option" where
  "look m a b = Option.bind (map_of m a) (\<lambda>ws. map_of ws b)"

text \<open>All edges of the table, and those that have not expired.\<close>

definition edges :: "wait_map \<Rightarrow> (ts \<times> ts) set" where
  "edges m = {(a, b). look m a b \<noteq> None}"

definition alive :: "nat \<Rightarrow> nat \<Rightarrow> wait_map \<Rightarrow> (ts \<times> ts) set" where
  "alive now ttl m = {(a, b). \<exists>l. look m a b = Some l \<and> \<not> is_expired now ttl l}"

definition wf_wait_for :: "wait_for \<Rightarrow> bool" where
  "wf_wait_for ws \<longleftrightarrow> distinct (map fst ws) \<and> (\<forall>b l. map_of ws b = Some l \<longrightarrow> locks_ts l = b \<and> locks_keys l \<noteq> [])"

definition wf_map :: "wait_map \<Rightarrow> bool" where
  "wf_map m \<longleftrightarrow> distinct (map fst m) \<and> (\<forall>a ws. map_of m a = Some ws \<longrightarrow> a \<noteq> 0 \<and> wf_wait_for ws)"

lemma alive_subset: "alive now ttl m \<subseteq> edges m"
  by (auto simp: alive_def edges_def)

lemma map_of_retain:
  "distinct (map fst ws) \<Longrightarrow>
   map_of (retain_alive now ttl ws) b =
     (case map_of ws b of None \<Rightarrow> None | Some l \<Rightarrow> if is_expired now ttl l then None else Some l)"
proof (induction ws)
  case (Cons x ws)
  have "b \<notin> fst ` set ws \<Longrightarrow> map_of ws b = None" by (simp add: map_of_eq_None_iff)
  with Cons show ?case by (cases x) (auto simp: retain_alive_def split: option.splits)
qed (simp add: retain_alive_def)

lemma wf_retain: "wf_wait_for ws \<Longrightarrow> wf_wait_for (retain_alive now ttl ws)"
  unfolding wf_wait_for_def
  by (auto simp: map_of_retain retain_alive_def distinct_map_filter split: option.splits if_splits)

lemma wf_map_update: "wf_map m \<Longrightarrow> a \<noteq> 0 \<Longrightarrow> wf_wait_for ws \<Longrightarrow> wf_map (AList.update a ws m)"
  by (auto simp: wf_map_def AList.distinct_update AList.update_conv' split: if_splits)

lemma wf_map_delete: "wf_map m \<Longrightarrow> wf_map (AList.delete a m)"
  by (auto simp: wf_map_def AList.distinct_delete AList.delete_conv' split: if_splits)

lemma wf_wait_for_update:
  "wf_wait_for ws \<Longrightarrow> locks_ts l = b \<Longrightarrow> locks_keys l \<noteq> [] \<Longrightarrow> wf_wait_for (AList.update b l ws)"
  by (auto simp: wf_wait_for_def AList.distinct_update AList.update_conv' split: if_splits)

lemma look_update: "look (AList.update a ws m) x b = (if x = a then map_of ws b else look m x b)"
  by (simp add: look_def AList.update_conv')

lemma look_delete: "look (AList.delete a m) x b = (if x = a then None else look m x b)"
  by (simp add: look_def AList.delete_conv')

lemma look_wf:
  assumes "wf_map m" "look m a b = Some l"
  shows "locks_ts l = b \<and> locks_keys l \<noteq> [] \<and> a \<noteq> 0"
proof -
  obtain ws where "map_of m a = Some ws" "map_of ws b = Some l" using assms(2) by (cases "map_of m a") (simp_all add: look_def)
  then show ?thesis using assms(1) unfolding wf_map_def wf_wait_for_def by blast
qed

text \<open>Visiting a transaction removes its expired edges.\<close>

definition visited :: "nat \<Rightarrow> nat \<Rightarrow> ts \<Rightarrow> wait_map \<Rightarrow> wait_map \<Rightarrow> bool" where
  "visited now ttl c m m' \<longleftrightarrow>
     wf_map m' \<and> (\<forall>a b. look m' a b = (if a = c \<and> (a, b) \<notin> alive now ttl m then None else look m a b))"

lemma visited_retain:
  assumes "wf_map m" "map_of m c = Some ws"
  shows "visited now ttl c m
    (if retain_alive now ttl ws = [] then AList.delete c m else AList.update c (retain_alive now ttl ws) m)"
proof -
  have ws: "wf_wait_for ws" "c \<noteq> 0" using assms by (auto simp: wf_map_def)
  have r: "map_of (retain_alive now ttl ws) b = (if (c, b) \<notin> alive now ttl m then None else look m c b)" for b
  proof -
    have d: "distinct (map fst ws)" using ws(1) by (simp add: wf_wait_for_def)
    have "look m c b = map_of ws b" by (simp add: look_def assms(2))
    then show ?thesis unfolding map_of_retain [OF d] by (cases "map_of ws b") (simp_all add: alive_def)
  qed
  show ?thesis
  proof (cases "retain_alive now ttl ws = []")
    case True
    then have "look m c b = None" if "(c, b) \<in> alive now ttl m" for b using r [of b] that by simp
    then show ?thesis using True wf_map_delete [OF assms(1)] by (auto simp: visited_def look_delete)
  next
    case False
    then show ?thesis
      using wf_map_update [OF assms(1) ws(2) wf_retain [OF ws(1)]] by (simp add: visited_def look_update r)
  qed
qed

lemma visited_alive: "visited now ttl c m m' \<Longrightarrow> alive now ttl m' = alive now ttl m"
  by (auto simp: visited_def alive_def split: if_splits)

lemma visited_edges: "visited now ttl c m m' \<Longrightarrow> edges m' \<subseteq> edges m"
  by (auto simp: visited_def edges_def split: if_splits)

lemma visited_only_alive: "visited now ttl c m m' \<Longrightarrow> (c, b) \<in> edges m' \<Longrightarrow> (c, b) \<in> alive now ttl m"
  by (auto simp: visited_def edges_def split: if_splits)

lemma visited_other: "visited now ttl c m m' \<Longrightarrow> a \<noteq> c \<Longrightarrow> (a, b) \<in> edges m' \<longleftrightarrow> (a, b) \<in> edges m"
  by (auto simp: visited_def edges_def)

section \<open>Chains of waits\<close>

fun chain_ok :: "(ts \<times> ts) set \<Rightarrow> ts \<Rightarrow> wait_for_entry list \<Rightarrow> ts \<Rightarrow> bool" where
  "chain_ok E a [] b \<longleftrightarrow> a = b"
| "chain_ok E a (e # es) b \<longleftrightarrow> wfe_txn e = a \<and> (a, wfe_wait_for_txn e) \<in> E \<and> chain_ok E (wfe_wait_for_txn e) es b"

lemma chain_ok_snoc:
  "chain_ok E a (es @ [e]) c \<longleftrightarrow> chain_ok E a es (wfe_txn e) \<and> (wfe_txn e, wfe_wait_for_txn e) \<in> E \<and> wfe_wait_for_txn e = c"
  by (induction es arbitrary: a) auto

lemma chain_ok_rtrancl: "chain_ok E a es b \<Longrightarrow> (a, b) \<in> E\<^sup>*"
  by (induction es arbitrary: a) (auto intro: converse_rtrancl_into_rtrancl)

text \<open>The recorded predecessors lead back to the start.\<close>

definition seen :: "(ts \<times> ts) list \<Rightarrow> ts set" where
  "seen ps = fst ` set ps"

lemma seen_simps [simp]: "seen [] = {}" "seen ((v, p) # ps) = insert v (seen ps)"
  by (simp_all add: seen_def)

lemma seen_map_of: "map_of ps v = None \<longleftrightarrow> v \<notin> seen ps"
  by (simp add: seen_def map_of_eq_None_iff)

lemma seen_append [simp]: "seen (ps @ qs) = seen ps \<union> seen qs"
  by (auto simp: seen_def)

fun preds_ok :: "(ts \<times> ts) set \<Rightarrow> ts \<Rightarrow> (ts \<times> ts) list \<Rightarrow> bool" where
  "preds_ok E w [] \<longleftrightarrow> False"
| "preds_ok E w [(v, p)] \<longleftrightarrow> v = w \<and> p = 0"
| "preds_ok E w ((v, p) # q # ps) \<longleftrightarrow>
     v \<notin> seen (q # ps) \<and> p \<noteq> 0 \<and> (p, v) \<in> E \<and> p \<in> seen (q # ps) \<and> preds_ok E w (q # ps)"

lemma preds_ok_Cons:
  "preds_ok E w ps \<Longrightarrow> v \<notin> seen ps \<Longrightarrow> p \<noteq> 0 \<Longrightarrow> (p, v) \<in> E \<Longrightarrow> p \<in> seen ps \<Longrightarrow> preds_ok E w ((v, p) # ps)"
  by (cases ps) simp_all

lemma preds_ok_start: "preds_ok E w ps \<Longrightarrow> w \<in> seen ps"
  by (induction E w ps rule: preds_ok.induct) auto

lemma preds_ok_distinct: "preds_ok E w ps \<Longrightarrow> distinct (map fst ps)"
  by (induction E w ps rule: preds_ok.induct) (auto simp: seen_def)

lemma wait_chain_loop_runs:
  assumes m: "wf_map m" and all: "distinct (map fst pushed)" and "pushed = xs @ ps" "preds_ok (alive now ttl m) w ps" "v \<in> seen ps"
  shows "\<exists>es. wait_chain_loop m w pushed v acc = Some (Inr (es @ rev acc)) \<and> chain_ok (alive now ttl m) w es v"
  using assms(3-)
proof (induction "alive now ttl m" w ps arbitrary: xs v acc rule: preds_ok.induct)
  case (2 w v0 p)
  then have v: "(v, 0) \<in> set pushed" "v = w" by auto
  have "map_of pushed v = Some 0" by (rule map_of_is_SomeI [OF all v(1)])
  then show ?case using v(2) by (subst wait_chain_loop.simps) (auto simp: is_zero_def intro: exI [of _ "[]"])
next
  case (3 w v0 p q ps)
  note IH = 3(1) [of "xs @ [(v0, p)]"]
  show ?case
  proof (cases "v = v0")
    case False
    then show ?thesis using IH 3(2-) by auto
  next
    case True
    have v: "map_of pushed v = Some p" by (rule map_of_is_SomeI [OF all]) (simp add: 3(2) True)
    have p: "p \<noteq> 0" "(p, v) \<in> alive now ttl m" "p \<in> seen (q # ps)" "preds_ok (alive now ttl m) w (q # ps)"
      using 3(3) True by auto
    obtain l where l: "look m p v = Some l" using p(2) by (auto simp: alive_def)
    have l': "locks_ts l = v" "locks_keys l \<noteq> []" using look_wf [OF m l] by auto
    then obtain e where e: "to_wait_for_entry l p = Inr e" "wfe_txn e = p" "wfe_wait_for_txn e = v"
      by (cases "locks_keys l") auto
    obtain es where es: "wait_chain_loop m w pushed p (acc @ [e]) = Some (Inr (es @ rev (acc @ [e])))" "chain_ok (alive now ttl m) w es p"
      using IH 3(2) p(3,4) by (metis append.assoc append_Cons append_Nil)
    have "wait_chain_loop m w pushed v acc = Some (Inr ((es @ [e]) @ rev acc))"
      using es(1) p(1) l e(1) by (subst wait_chain_loop.simps) (simp add: v is_zero_def look_def del: to_wait_for_entry.simps)
    moreover have "chain_ok (alive now ttl m) w (es @ [e]) v" using es(2) e p(2) by (simp add: chain_ok_snoc)
    ultimately show ?thesis by blast
  qed
qed simp

section \<open>The search\<close>

definition search_inv :: "(ts \<times> ts) set \<Rightarrow> ts \<Rightarrow> ts \<Rightarrow> wait_map \<Rightarrow> ts list \<Rightarrow> (ts \<times> ts) list \<Rightarrow> bool" where
  "search_inv E txn w m stack pushed \<longleftrightarrow>
     preds_ok E w pushed \<and> set stack \<subseteq> seen pushed \<and>
     (\<forall>v \<in> seen pushed - set stack. \<forall>b. (v, b) \<in> edges m \<longrightarrow> (v, b) \<in> E \<and> b \<in> seen pushed \<and> b \<noteq> txn)"

lemma scan_result_Cons:
  assumes "case r of None \<Rightarrow> \<forall>(b, l) \<in> set es. P b | Some l \<Rightarrow> (txn, l) \<in> set es" "P b"
  shows "case r of None \<Rightarrow> \<forall>(b, l) \<in> set ((b, l) # es). P b | Some l' \<Rightarrow> (txn, l') \<in> set ((b, l) # es)"
  using assms by (cases r) auto

lemma scan_edges_ok:
  assumes "scan_edges txn c es stack pushed = (r, stack', pushed')"
    and "preds_ok E w pushed" "c \<in> seen pushed" "c \<noteq> 0" "\<And>b l. (b, l) \<in> set es \<Longrightarrow> (c, b) \<in> E"
    and "set stack \<subseteq> seen pushed"
  shows "preds_ok E w pushed' \<and> seen pushed \<subseteq> seen pushed' \<and> set stack' \<subseteq> seen pushed' \<and>
    seen pushed' - set stack' = seen pushed - set stack \<and>
    (case r of None \<Rightarrow> \<forall>(b, l) \<in> set es. b \<noteq> txn \<and> b \<in> seen pushed' | Some l \<Rightarrow> (txn, l) \<in> set es)"
  using assms
proof (induction txn c es stack pushed rule: scan_edges.induct)
  case (2 txn c b l es stack pushed)
  have E: "(c, b) \<in> E" "\<And>b l. (b, l) \<in> set es \<Longrightarrow> (c, b) \<in> E" using 2(7) by auto
  consider "b = txn" | "b \<noteq> txn" "map_of pushed b = None" | "b \<noteq> txn" "map_of pushed b \<noteq> None" by blast
  then show ?case
  proof cases
    case 1
    then have "r = Some l" "stack' = stack" "pushed' = pushed" using 2(3) by simp_all
    then show ?thesis using 2(4,8) 1 by simp
  next
    case 2
    have eq: "scan_edges txn c es (b # stack) ((b, c) # pushed) = (r, stack', pushed')"
      using "2.prems"(1) unfolding scan_edges.simps if_not_P [OF 2(1)] if_P [OF 2(2)] .
    have b: "b \<notin> seen pushed" using 2(2) by (simp add: seen_map_of)
    have p: "preds_ok E w ((b, c) # pushed)" by (rule preds_ok_Cons) (use "2.prems" b E in auto)
    have IH: "preds_ok E w pushed' \<and> seen ((b, c) # pushed) \<subseteq> seen pushed' \<and> set stack' \<subseteq> seen pushed' \<and>
      seen pushed' - set stack' = seen ((b, c) # pushed) - set (b # stack) \<and>
      (case r of None \<Rightarrow> \<forall>(b, l) \<in> set es. b \<noteq> txn \<and> b \<in> seen pushed' | Some l \<Rightarrow> (txn, l) \<in> set es)"
      by (rule "2.IH"(1) [OF 2(1,2) eq p]) (use "2.prems" E in auto)
    have sub: "seen pushed \<subseteq> seen pushed'" "b \<in> seen pushed'" using IH by auto
    have eq: "seen ((b, c) # pushed) - set (b # stack) = seen pushed - set stack" using b by auto
    note r = IH [THEN conjunct2, THEN conjunct2, THEN conjunct2, THEN conjunct2]
    note r' = scan_result_Cons [OF r conjI [OF 2(1) sub(2)], of l]
    show ?thesis using IH sub(1) r' unfolding eq by (intro conjI) (elim conjE; assumption)+
  next
    case 3
    have eq: "scan_edges txn c es stack pushed = (r, stack', pushed')"
      using "2.prems"(1) unfolding scan_edges.simps if_not_P [OF 3(1)] if_not_P [OF 3(2)] .
    have b: "b \<in> seen pushed" using 3(2) unfolding seen_map_of not_not .
    have IH: "preds_ok E w pushed' \<and> seen pushed \<subseteq> seen pushed' \<and> set stack' \<subseteq> seen pushed' \<and>
      seen pushed' - set stack' = seen pushed - set stack \<and>
      (case r of None \<Rightarrow> \<forall>(b, l) \<in> set es. b \<noteq> txn \<and> b \<in> seen pushed' | Some l \<Rightarrow> (txn, l) \<in> set es)"
      by (rule "2.IH"(2) [OF 3 eq]) (use "2.prems" E in auto)
    note r = IH [THEN conjunct2, THEN conjunct2, THEN conjunct2, THEN conjunct2]
    have "b \<in> seen pushed'" using b IH by blast
    note r' = scan_result_Cons [OF r conjI [OF 3(1) this], of l]
    show ?thesis using IH r' by (intro conjI) (elim conjE; assumption)+
  qed
qed auto

lemma in_retain: "(b, l) \<in> set (retain_alive now ttl ws) \<Longrightarrow> map_of m c = Some ws \<Longrightarrow> wf_map m \<Longrightarrow> (c, b) \<in> alive now ttl m"
proof -
  assume b: "(b, l) \<in> set (retain_alive now ttl ws)" and ws: "map_of m c = Some ws" "wf_map m"
  have "distinct (map fst ws)" using ws unfolding wf_map_def wf_wait_for_def by blast
  then have "map_of ws b = Some l" using b by (intro map_of_is_SomeI) (auto simp: retain_alive_def)
  then show ?thesis using b ws(1) by (auto simp: alive_def look_def retain_alive_def)
qed

definition search_result :: "nat \<Rightarrow> nat \<Rightarrow> ts \<Rightarrow> ts \<Rightarrow> wait_map \<Rightarrow> (u64 \<times> wait_for_entry list) option \<Rightarrow> wait_map \<Rightarrow> bool" where
  "search_result now ttl txn w m r m' \<longleftrightarrow>
     wf_map m' \<and> edges m' \<subseteq> edges m \<and> alive now ttl m' = alive now ttl m \<and>
     (case r of
        None \<Rightarrow> \<exists>D. w \<in> D \<and> (\<forall>v \<in> D. \<forall>b. (v, b) \<in> edges m' \<longrightarrow> b \<in> D \<and> b \<noteq> txn)
      | Some (h, chain) \<Rightarrow>
          chain \<noteq> [] \<and> wfe_key_hash (last chain) = h \<and> chain_ok (alive now ttl m) w chain txn)"

lemma search_result_mono:
  "search_result now ttl txn w m' r m2 \<Longrightarrow> edges m' \<subseteq> edges m \<Longrightarrow> alive now ttl m' = alive now ttl m \<Longrightarrow>
   search_result now ttl txn w m r m2"
  by (auto simp: search_result_def split: option.splits)

lemma found_cycle_runs:
  assumes m: "wf_map m" and p: "preds_ok (alive now ttl m) w pushed" "c \<in> seen pushed" and l: "look m c txn = Some l" "(c, txn) \<in> alive now ttl m"
  shows "\<exists>x. found_cycle m w c pushed l = Some (Inr x) \<and> search_result now ttl txn w m (Some x) m"
proof -
  have l': "locks_ts l = txn" "locks_keys l \<noteq> []" using look_wf [OF m l(1)] by auto
  then obtain e where e: "to_wait_for_entry l c = Inr e" "wfe_txn e = c" "wfe_wait_for_txn e = txn"
    by (cases "locks_keys l") auto
  obtain es where es: "wait_chain_loop m w pushed c [] = Some (Inr (es @ rev []))" "chain_ok (alive now ttl m) w es c"
    using wait_chain_loop_runs [OF m preds_ok_distinct [OF p(1)], of "[]" pushed now ttl w c "[]"] p by auto
  have "found_cycle m w c pushed l = Some (Inr (wfe_key_hash e, es @ [e]))"
    using es(1) e(1) by (simp add: found_cycle_def generate_wait_chain_def del: to_wait_for_entry.simps)
  moreover have "chain_ok (alive now ttl m) w (es @ [e]) txn" using es(2) e l(2) by (simp add: chain_ok_snoc)
  ultimately show ?thesis using m by (auto simp: search_result_def)
qed

lemma detect_loop_runs:
  assumes "wf_map m" "search_inv (alive now ttl m) txn w m stack pushed"
  shows "\<exists>r m'. detect_loop now ttl txn w m stack pushed = Some (Inr r, m') \<and> search_result now ttl txn w m r m'"
  using assms
proof (induction now ttl txn w m stack pushed rule: detect_loop.induct)
  case (1 now ttl txn w m pushed)
  have "\<exists>D. w \<in> D \<and> (\<forall>v \<in> D. \<forall>b. (v, b) \<in> edges m \<longrightarrow> b \<in> D \<and> b \<noteq> txn)"
    using 1(2) preds_ok_start unfolding search_inv_def by (intro exI [of _ "seen pushed"]) auto
  then show ?case using 1(1) by (simp add: search_result_def)
next
  case (2 now ttl txn w m c stack pushed)
  let ?E = "alive now ttl m"
  note m = 2(4) and inv = 2(5) [unfolded search_inv_def]
  have c: "c \<in> seen pushed" using inv by simp
  show ?case
  proof (cases "map_of m c")
    case None
    then have "(c, b) \<notin> edges m" for b by (simp add: edges_def look_def)
    then have "search_inv ?E txn w m stack pushed" using inv by (auto simp: search_inv_def)
    from 2(1) [OF None m this] show ?thesis by (simp add: detect_loop.simps(2) None)
  next
    case (Some ws)
    let ?ws = "retain_alive now ttl ws"
    define m' where "m' = (if ?ws = [] then AList.delete c m else AList.update c ?ws m)"
    have v: "visited now ttl c m m'" unfolding m'_def by (rule visited_retain [OF m Some])
    note al = visited_alive [OF v] and ed = visited_edges [OF v]
    have wfm: "wf_map m'" using v by (simp add: visited_def)
    have c0: "c \<noteq> 0" using m Some unfolding wf_map_def by blast
    have old: "(x, b) \<in> ?E \<and> b \<in> seen pushed \<and> b \<noteq> txn"
      if "x \<in> seen pushed - set stack" "x \<noteq> c" "(x, b) \<in> edges m'" for x b
    proof -
      have "x \<in> seen pushed - set (c # stack)" "(x, b) \<in> edges m" using that visited_other [OF v that(2)] by simp_all
      then show ?thesis using inv by blast
    qed
    show ?thesis
    proof (cases "?ws = []")
      case True
      then have m': "m' = AList.delete c m" by (simp add: m'_def)
      have none: "(c, b) \<notin> edges m'" for b by (simp add: m' edges_def look_delete)
      have "search_inv (alive now ttl m') txn w m' stack pushed"
        unfolding search_inv_def al
      proof (intro conjI ballI allI impI)
        fix x b assume x: "x \<in> seen pushed - set stack" and e: "(x, b) \<in> edges m'"
        then have "x \<noteq> c" using none by blast
        then show "(x, b) \<in> ?E" "b \<in> seen pushed" "b \<noteq> txn" using old [OF x _ e] by blast+
      qed (use inv in simp_all)
      from 2(2) [OF Some refl True] wfm this obtain r m2 where
        r: "detect_loop now ttl txn w m' stack pushed = Some (Inr r, m2)" "search_result now ttl txn w m' r m2"
        unfolding m' by blast
      have "detect_loop now ttl txn w m (c # stack) pushed = Some (Inr r, m2)"
        using r(1) by (simp add: detect_loop.simps(2) Some True m')
      then show ?thesis using search_result_mono [OF r(2) ed al] by blast
    next
      case False
      then have m': "m' = AList.update c ?ws m" by (simp add: m'_def)
      obtain r stack' pushed' where scan: "scan_edges txn c ?ws stack pushed = (r, stack', pushed')" by (metis prod_cases3)
      have stk: "set stack \<subseteq> seen pushed" "preds_ok ?E w pushed" using inv by simp_all
      have sc: "preds_ok ?E w pushed' \<and> seen pushed \<subseteq> seen pushed' \<and> set stack' \<subseteq> seen pushed' \<and>
        seen pushed' - set stack' = seen pushed - set stack \<and>
        (case r of None \<Rightarrow> \<forall>(b, l) \<in> set ?ws. b \<noteq> txn \<and> b \<in> seen pushed' | Some l \<Rightarrow> (txn, l) \<in> set ?ws)"
        by (rule scan_edges_ok [OF scan stk(2) c c0 in_retain [OF _ Some m] stk(1)])
      show ?thesis
      proof (cases r)
        case None
        have mine: "(c, b) \<in> ?E \<and> b \<in> seen pushed' \<and> b \<noteq> txn" if cb: "(c, b) \<in> edges m'" for b
        proof -
          have "look m' c b = map_of ?ws b" by (simp add: m' look_update)
          then obtain l where "(b, l) \<in> set ?ws" using cb map_of_SomeD [of ?ws b] by (auto simp: edges_def)
          then show ?thesis using sc visited_only_alive [OF v cb] unfolding None option.case by blast
        qed
        have "search_inv (alive now ttl m') txn w m' stack' pushed'"
          unfolding search_inv_def al
        proof (intro conjI ballI allI impI)
          fix x b assume x: "x \<in> seen pushed' - set stack'" and e: "(x, b) \<in> edges m'"
          have x': "x \<in> seen pushed - set stack" using x sc by blast
          have "(x, b) \<in> ?E \<and> b \<in> seen pushed' \<and> b \<noteq> txn"
          proof (cases "x = c")
            case True
            then show ?thesis using mine [of b] e by blast
          next
            case False
            then show ?thesis using old [OF x' False e] sc by blast
          qed
          then show "(x, b) \<in> ?E" "b \<in> seen pushed'" "b \<noteq> txn" by blast+
        qed (use sc in blast)+
        from 2(3) [OF Some refl False refl scan [unfolded None, symmetric] refl] wfm this obtain r m2 where
          r: "detect_loop now ttl txn w m' stack' pushed' = Some (Inr r, m2)" "search_result now ttl txn w m' r m2"
          unfolding m' by blast
        have "detect_loop now ttl txn w m (c # stack) pushed = Some (Inr r, m2)"
          using r(1) by (simp add: detect_loop.simps(2) Some False Let_def scan None m')
        then show ?thesis using search_result_mono [OF r(2) ed al] by blast
      next
        case (Some l)
        note ws = \<open>map_of m c = Some ws\<close>
        have l: "(txn, l) \<in> set ?ws" using sc by (simp add: Some)
        have "distinct (map fst ?ws)" using wf_retain [of ws now ttl] m ws unfolding wf_map_def wf_wait_for_def by blast
        then have "look m' c txn = Some l" using l by (simp add: m' look_update)
        moreover have "(c, txn) \<in> alive now ttl m'"
          unfolding al by (rule in_retain [OF l ws m])
        moreover have "preds_ok (alive now ttl m') w pushed'" "c \<in> seen pushed'" using sc c unfolding al by blast+
        ultimately obtain x where x: "found_cycle m' w c pushed' l = Some (Inr x)" "search_result now ttl txn w m' (Some x) m'"
          using found_cycle_runs [OF wfm] by blast
        have "detect_loop now ttl txn w m (c # stack) pushed = Some (Inr (Some x), m')"
          using x(1) by (simp add: detect_loop.simps(2) ws False Let_def scan Some m')
        then show ?thesis using search_result_mono [OF x(2) ed al] by blast
      qed
    qed
  qed
qed

section \<open>Detection\<close>

lemma do_detect_runs:
  assumes "wf_map (wait_for_map T)"
  obtains r m' where "do_detect txn w T = Some (Inr r, T\<lparr>wait_for_map := m'\<rparr>)"
    "search_result (dt_now T) (dt_ttl T) txn w (wait_for_map T) r m'"
proof -
  have "search_inv (alive (dt_now T) (dt_ttl T) (wait_for_map T)) txn w (wait_for_map T) [w] [(w, 0)]"
    by (simp add: search_inv_def)
  from detect_loop_runs [OF assms this] show ?thesis using that by (auto simp: do_detect_def)
qed

lemma closed_no_path:
  assumes "w \<in> D" "\<forall>v \<in> D. \<forall>b. (v, b) \<in> E \<longrightarrow> b \<in> D \<and> b \<noteq> txn"
  shows "(w, txn) \<notin> E\<^sup>+"
proof
  have step: "b \<in> D \<and> b \<noteq> txn" if "(w, b) \<in> E\<^sup>+" for b
    using that by (induction rule: trancl_induct) (use assms in blast)+
  assume "(w, txn) \<in> E\<^sup>+"
  then show False using step by blast
qed

lemma chain_trancl: "chain_ok E w chain txn \<Longrightarrow> chain \<noteq> [] \<Longrightarrow> (w, txn) \<in> E\<^sup>+"
  by (cases chain) (auto dest!: chain_ok_rtrancl)

lemma search_result_iff:
  assumes "search_result now ttl txn w m r m'"
  shows "r \<noteq> None \<longleftrightarrow> (w, txn) \<in> (alive now ttl m)\<^sup>+" "r = None \<Longrightarrow> (w, txn) \<notin> (edges m')\<^sup>+"
proof -
  show none: "(w, txn) \<notin> (edges m')\<^sup>+" if r: "r = None"
  proof -
    obtain D where D: "w \<in> D" "\<forall>v \<in> D. \<forall>b. (v, b) \<in> edges m' \<longrightarrow> b \<in> D \<and> b \<noteq> txn"
      using assms by (auto simp: search_result_def r)
    then show ?thesis by (rule closed_no_path)
  qed
  have "(w, txn) \<notin> (alive now ttl m)\<^sup>+" if "r = None"
    using none [OF that] trancl_mono [of "(w, txn)" "alive now ttl m'" "edges m'"] alive_subset assms
    by (auto simp: search_result_def)
  moreover have "(w, txn) \<in> (alive now ttl m)\<^sup>+" if "r = Some (h, chain)" for h chain
    using assms that chain_trancl by (auto simp: search_result_def)
  ultimately show "r \<noteq> None \<longleftrightarrow> (w, txn) \<in> (alive now ttl m)\<^sup>+" by (cases r) auto
qed

text \<open>The table at the time of the request.\<close>

definition table_now :: "nat \<Rightarrow> detect_table \<Rightarrow> detect_table" where
  "table_now clock T = active_expire (T\<lparr>dt_now := clock\<rparr>)"

lemma distinct_map_fst_filter: "distinct (map fst m) \<Longrightarrow> distinct (map fst (filter P m))"
  by (rule distinct_map_filter)

lemma map_of_map_filter:
  assumes "distinct (map fst m)"
  shows "map_of (filter (\<lambda>(_, ws). ws \<noteq> []) (map (\<lambda>(t, ws). (t, f ws)) m)) a =
    (case map_of m a of None \<Rightarrow> None | Some ws \<Rightarrow> if f ws = [] then None else Some (f ws))"
  using assms
proof (induction m)
  case (Cons x m)
  have "a \<notin> fst ` set m \<Longrightarrow> map_of m a = None" by (simp add: map_of_eq_None_iff)
  with Cons show ?case by (cases x) (auto split: option.splits)
qed simp

lemma active_expire_look:
  assumes wf: "wf_map (wait_for_map T)"
  shows "wf_map (wait_for_map (active_expire T))"
    "look (wait_for_map (active_expire T)) a b = look (wait_for_map T) a b \<or>
     (look (wait_for_map (active_expire T)) a b = None \<and> (a, b) \<notin> alive (dt_now T) (dt_ttl T) (wait_for_map T))"
    "dt_now (active_expire T) = dt_now T" "dt_ttl (active_expire T) = dt_ttl T"
proof -
  let ?m = "wait_for_map T" and ?f = "retain_alive (dt_now T) (dt_ttl T)"
  let ?m' = "filter (\<lambda>(_, ws). ws \<noteq> []) (map (\<lambda>(t, ws). (t, ?f ws)) ?m)"
  show "dt_now (active_expire T) = dt_now T" "dt_ttl (active_expire T) = dt_ttl T" by (simp_all add: active_expire_def)
  have d: "distinct (map fst ?m)" using wf by (simp add: wf_map_def)
  note of' = map_of_map_filter [OF d, of ?f]
  have keys: "map fst (map (\<lambda>(t, ws). (t, ?f ws)) ?m) = map fst ?m" by (induction ?m) auto
  have "wf_map ?m'"
    unfolding wf_map_def of'
  proof (intro conjI allI impI)
    show "distinct (map fst ?m')" by (rule distinct_map_filter) (simp only: keys d)
    fix a ws assume a: "(case map_of ?m a of None \<Rightarrow> None | Some ws \<Rightarrow> if ?f ws = [] then None else Some (?f ws)) = Some ws"
    then obtain ws0 where ws0: "map_of ?m a = Some ws0" "ws = ?f ws0" by (cases "map_of ?m a") (simp_all split: if_splits)
    have "a \<noteq> 0 \<and> wf_wait_for ws0" using wf ws0(1) unfolding wf_map_def by blast
    then show "a \<noteq> 0" "wf_wait_for ws" using wf_retain by (simp_all add: ws0(2))
  qed
  then show "wf_map (wait_for_map (active_expire T))" using wf by (simp add: active_expire_def)
  have "look ?m' a b = look ?m a b \<or> (look ?m' a b = None \<and> (a, b) \<notin> alive (dt_now T) (dt_ttl T) ?m)"
  proof (cases "map_of ?m a")
    case None
    then show ?thesis unfolding look_def of' by simp
  next
    case (Some ws)
    have dw: "distinct (map fst ws)" using wf Some unfolding wf_map_def wf_wait_for_def by blast
    have "look ?m a b = map_of ws b" "look ?m' a b = map_of (?f ws) b"
      unfolding look_def of' by (simp_all add: Some)
    then show ?thesis
      unfolding map_of_retain [OF dw] by (cases "map_of ws b") (auto simp: alive_def)
  qed
  then show "look (wait_for_map (active_expire T)) a b = look ?m a b \<or>
     (look (wait_for_map (active_expire T)) a b = None \<and> (a, b) \<notin> alive (dt_now T) (dt_ttl T) ?m)"
    by (simp add: active_expire_def)
qed

lemma table_now_ok:
  assumes "wf_map (wait_for_map T)"
  shows "wf_map (wait_for_map (table_now clock T))" "edges (wait_for_map (table_now clock T)) \<subseteq> edges (wait_for_map T)"
    "alive clock (dt_ttl T) (wait_for_map (table_now clock T)) = alive clock (dt_ttl T) (wait_for_map T)"
    "dt_now (table_now clock T) = clock" "dt_ttl (table_now clock T) = dt_ttl T"
proof -
  have wf: "wf_map (wait_for_map (T\<lparr>dt_now := clock\<rparr>))" using assms by simp
  note ae = active_expire_look [OF wf]
  show "wf_map (wait_for_map (table_now clock T))" "dt_now (table_now clock T) = clock" "dt_ttl (table_now clock T) = dt_ttl T"
    using ae(1,3,4) by (simp_all add: table_now_def)
  show "edges (wait_for_map (table_now clock T)) \<subseteq> edges (wait_for_map T)"
  proof (rule subrelI)
    fix a b assume "(a, b) \<in> edges (wait_for_map (table_now clock T))"
    then show "(a, b) \<in> edges (wait_for_map T)" using ae(2) [of a b] by (auto simp: table_now_def edges_def)
  qed
  show "alive clock (dt_ttl T) (wait_for_map (table_now clock T)) = alive clock (dt_ttl T) (wait_for_map T)"
  proof (rule set_eqI)
    fix x :: "ts \<times> ts"
    obtain a b where x: "x = (a, b)" by (cases x)
    show "x \<in> alive clock (dt_ttl T) (wait_for_map (table_now clock T)) \<longleftrightarrow> x \<in> alive clock (dt_ttl T) (wait_for_map T)"
      using ae(2) [of a b]
    proof (elim disjE conjE)
      assume "look (wait_for_map (active_expire (T\<lparr>dt_now := clock\<rparr>))) a b = look (wait_for_map (T\<lparr>dt_now := clock\<rparr>)) a b"
      then show ?thesis by (simp add: x table_now_def alive_def)
    next
      assume "look (wait_for_map (active_expire (T\<lparr>dt_now := clock\<rparr>))) a b = None"
        "(a, b) \<notin> alive (dt_now (T\<lparr>dt_now := clock\<rparr>)) (dt_ttl (T\<lparr>dt_now := clock\<rparr>)) (wait_for_map (T\<lparr>dt_now := clock\<rparr>))"
      then show ?thesis by (simp add: x table_now_def alive_def)
    qed
  qed
qed

lemma register_existing:
  assumes wf: "wf_map (wait_for_map T)"
  shows "register_if_existed txn w h k tag T = None \<longleftrightarrow> (txn, w) \<notin> edges (wait_for_map T)"
    "register_if_existed txn w h k tag T = Some T' \<Longrightarrow> wf_map (wait_for_map T') \<and> edges (wait_for_map T') = edges (wait_for_map T)"
proof -
  show "register_if_existed txn w h k tag T = None \<longleftrightarrow> (txn, w) \<notin> edges (wait_for_map T)"
    by (simp add: register_if_existed_def edges_def look_def Let_def split: option.splits)
  assume "register_if_existed txn w h k tag T = Some T'"
  then obtain ws l where ws: "map_of (wait_for_map T) txn = Some ws" "map_of ws w = Some l"
    and T': "T' = T\<lparr>wait_for_map := AList.update txn
      (AList.update w ((locks_push h k (dt_now T) l)\<lparr>locks_resource_group_tag := tag\<rparr>) ws) (wait_for_map T)\<rparr>"
    by (auto simp: register_if_existed_def Let_def split: option.splits)
  have 0: "txn \<noteq> 0" "wf_wait_for ws" using wf ws(1) unfolding wf_map_def by blast+
  have l: "locks_ts l = w" "locks_keys l \<noteq> []" using 0(2) ws(2) unfolding wf_wait_for_def by blast+
  have "look (wait_for_map T) txn b = map_of ws b" for b by (simp add: look_def ws(1))
  then have "edges (wait_for_map T') = edges (wait_for_map T)"
    using ws by (auto simp: T' edges_def look_update AList.update_conv' split: if_splits)
  moreover have "wf_map (wait_for_map T')"
    using wf 0 l by (simp add: T') (intro wf_map_update wf_wait_for_update; simp add: locks_push_def)
  ultimately show "wf_map (wait_for_map T') \<and> edges (wait_for_map T') = edges (wait_for_map T)" by blast
qed

lemma register_new:
  assumes wf: "wf_map (wait_for_map T)" and new: "(txn, w) \<notin> edges (wait_for_map T)" "txn \<noteq> 0"
  obtains T' where "register txn w h k tag T = Inr T'" "wf_map (wait_for_map T')"
    "edges (wait_for_map T') = insert (txn, w) (edges (wait_for_map T))"
proof -
  define ws where "ws = (case map_of (wait_for_map T) txn of Some ws \<Rightarrow> ws | None \<Rightarrow> [])"
  let ?m = "AList.update txn (AList.update w (Locks_new w h k tag (dt_now T)) ws) (wait_for_map T)"
  have look: "look (wait_for_map T) txn b = map_of ws b" for b
    by (cases "map_of (wait_for_map T) txn") (simp_all add: look_def ws_def)
  have none: "map_of ws w = None" using new(1) look [of w] by (simp add: edges_def)
  have "wf_wait_for ws" using wf unfolding wf_map_def ws_def by (cases "map_of (wait_for_map T) txn") (simp_all add: wf_wait_for_def)
  then have "wf_map ?m"
    by (intro wf_map_update [OF wf new(2)] wf_wait_for_update) (simp_all add: Locks_new_def)
  moreover have "edges ?m = insert (txn, w) (edges (wait_for_map T))"
    by (auto simp: edges_def look_update look AList.update_conv')
  moreover have "register txn w h k tag T = Inr (T\<lparr>wait_for_map := ?m\<rparr>)"
    using none by (simp add: register_def ws_def [symmetric] Let_def)
  ultimately show ?thesis using that by simp
qed

lemma detect_runs:
  assumes wf: "wf_map (wait_for_map T)" and ac: "acyclic (edges (wait_for_map T))" and t: "txn \<noteq> 0" "txn \<noteq> w"
  obtains r T' where "detect clock txn w h k tag T = Some (Inr r, T')" "wf_map (wait_for_map T')" "acyclic (edges (wait_for_map T'))"
    "r \<noteq> None \<longleftrightarrow> (w, txn) \<in> (alive clock (dt_ttl T) (wait_for_map T))\<^sup>+"
    "r = None \<Longrightarrow> (txn, w) \<in> edges (wait_for_map T')"
    "\<And>hash chain. r = Some (hash, chain) \<Longrightarrow>
       chain \<noteq> [] \<and> wfe_key_hash (last chain) = hash \<and> chain_ok (alive clock (dt_ttl T) (wait_for_map T)) w chain txn"
proof -
  let ?T = "table_now clock T"
  note now = table_now_ok [OF wf, of clock]
  have ac': "acyclic (edges (wait_for_map ?T))" using acyclic_subset [OF ac now(2)] .
  have detect: "detect clock txn w h k tag T =
     (case register_if_existed txn w h k tag ?T of
        Some T' \<Rightarrow> Some (Inr None, T')
      | None \<Rightarrow>
          (case do_detect txn w ?T of
             Some (Inr None, T') \<Rightarrow>
               (case register txn w h k tag T' of Inl e \<Rightarrow> Some (Inl e, T') | Inr T'' \<Rightarrow> Some (Inr None, T''))
           | other \<Rightarrow> other))"
    unfolding detect_def table_now_def Let_def ..
  show ?thesis
  proof (cases "register_if_existed txn w h k tag ?T")
    case (Some T')
    note reg = register_existing(2) [OF now(1) Some]
    have edge: "(txn, w) \<in> edges (wait_for_map ?T)" using register_existing(1) [OF now(1)] Some by (metis option.discI)
    have "(w, txn) \<notin> (alive clock (dt_ttl T) (wait_for_map T))\<^sup>+"
    proof
      assume "(w, txn) \<in> (alive clock (dt_ttl T) (wait_for_map T))\<^sup>+"
      then have "(w, txn) \<in> (edges (wait_for_map ?T))\<^sup>+"
        using trancl_mono alive_subset [of clock "dt_ttl T" "wait_for_map ?T"] unfolding now(3) by blast
      with edge have "(w, w) \<in> (edges (wait_for_map ?T))\<^sup>+" by (rule trancl_into_trancl [rotated])
      then show False using ac' by (simp add: acyclic_def)
    qed
    moreover have "detect clock txn w h k tag T = Some (Inr None, T')" unfolding detect Some by simp
    ultimately show ?thesis using that [of None T'] reg edge ac' by simp
  next
    case None
    have no: "(txn, w) \<notin> edges (wait_for_map ?T)" using register_existing(1) [OF now(1)] None by blast
    obtain r m' where r: "do_detect txn w ?T = Some (Inr r, ?T\<lparr>wait_for_map := m'\<rparr>)"
      "search_result (dt_now ?T) (dt_ttl ?T) txn w (wait_for_map ?T) r m'" by (rule do_detect_runs [OF now(1)])
    note sr = r(2) [unfolded now(4,5)]
    note iff = search_result_iff [OF sr, unfolded now(3)]
    have m': "wf_map m'" "edges m' \<subseteq> edges (wait_for_map ?T)" using sr by (simp_all add: search_result_def)
    have ac'': "acyclic (edges m')" by (rule acyclic_subset [OF ac' m'(2)])
    show ?thesis
    proof (cases r)
      case None
      have no': "(txn, w) \<notin> edges (wait_for_map (?T\<lparr>wait_for_map := m'\<rparr>))" using no m'(2) by auto
      have wf': "wf_map (wait_for_map (?T\<lparr>wait_for_map := m'\<rparr>))" using m'(1) by simp
      obtain T'' where T'': "register txn w h k tag (?T\<lparr>wait_for_map := m'\<rparr>) = Inr T''" "wf_map (wait_for_map T'')"
        "edges (wait_for_map T'') = insert (txn, w) (edges (wait_for_map (?T\<lparr>wait_for_map := m'\<rparr>)))"
        by (rule register_new [OF wf' no' t(1)])
      have "(w, txn) \<notin> (edges m')\<^sup>*" using iff(2) [OF None] t(2) by (simp add: rtrancl_eq_or_trancl)
      then have "acyclic (edges (wait_for_map T''))" using ac'' T''(3) by (simp add: acyclic_insert)
      moreover have "detect clock txn w h k tag T = Some (Inr None, T'')"
        unfolding detect \<open>register_if_existed txn w h k tag ?T = None\<close> r(1) None using T''(1) by simp
      ultimately show ?thesis using that [of None T''] T''(2,3) iff(1) None by simp
    next
      case (Some x)
      have "detect clock txn w h k tag T = Some (Inr (Some x), ?T\<lparr>wait_for_map := m'\<rparr>)"
        unfolding detect None r(1) Some by simp
      then show ?thesis using that [of "Some x"] m'(1) ac'' iff(1) sr now(3) by (auto simp: Some search_result_def)
    qed
  qed
qed

lemma clean_up_wait_for_ok:
  assumes wf: "wf_map (wait_for_map T)"
  shows "wf_map (wait_for_map (clean_up_wait_for txn w h T))"
    "edges (wait_for_map (clean_up_wait_for txn w h T)) \<subseteq> edges (wait_for_map T)"
proof -
  let ?m = "wait_for_map T"
  have "wf_map (wait_for_map (clean_up_wait_for txn w h T)) \<and> edges (wait_for_map (clean_up_wait_for txn w h T)) \<subseteq> edges ?m"
  proof (cases "look ?m txn w")
    case None
    then have "clean_up_wait_for txn w h T = T"
      by (cases "map_of ?m txn") (simp_all add: clean_up_wait_for_def look_def)
    then show ?thesis using wf by simp
  next
    case (Some l)
    then obtain ws where ws: "map_of ?m txn = Some ws" "map_of ws w = Some l"
      by (cases "map_of ?m txn") (simp_all add: look_def)
    have 0: "txn \<noteq> 0" "wf_wait_for ws" using wf ws(1) unfolding wf_map_def by blast+
    have l: "locks_ts l = w" using 0(2) ws(2) unfolding wf_wait_for_def by blast
    have look: "look ?m txn b = map_of ws b" for b by (simp add: look_def ws(1))
    obtain b l' where rm: "locks_remove h l = (b, l')" by force
    show ?thesis
    proof (cases b)
      case True
      let ?ws = "AList.delete w ws"
      have wfd: "wf_wait_for ?ws"
        using 0(2) unfolding wf_wait_for_def by (auto simp: AList.distinct_delete AList.delete_conv' split: if_splits)
      have eq: "wait_for_map (clean_up_wait_for txn w h T) = (if ?ws = [] then AList.delete txn ?m else AList.update txn ?ws ?m)"
        by (simp add: clean_up_wait_for_def ws rm True Let_def)
      show ?thesis
        unfolding eq using wf_map_delete [OF wf] wf_map_update [OF wf 0(1) wfd]
        by (auto simp: edges_def look_delete look_update look AList.delete_conv' split: if_splits)
    next
      case False
      have l': "locks_ts l' = w" "locks_keys l' \<noteq> []" using rm False l by (auto simp: locks_remove_def Let_def)
      have eq: "wait_for_map (clean_up_wait_for txn w h T) = AList.update txn (AList.update w l' ws) ?m"
        by (simp add: clean_up_wait_for_def ws rm False)
      show ?thesis
        unfolding eq using wf_map_update [OF wf 0(1) wf_wait_for_update [OF 0(2) l']]
        by (auto simp: edges_def look_update look AList.update_conv' ws split: if_splits)
    qed
  qed
  then show "wf_map (wait_for_map (clean_up_wait_for txn w h T))"
    "edges (wait_for_map (clean_up_wait_for txn w h T)) \<subseteq> edges (wait_for_map T)" by blast+
qed

lemma detector_inv: "detector_reachable T \<Longrightarrow> wf_map (wait_for_map T) \<and> acyclic (edges (wait_for_map T))"
proof (induction rule: detector_reachable.induct)
  case (detector_new clock ttl)
  show ?case by (simp add: DetectTable_new_def wf_map_def edges_def look_def acyclic_def)
next
  case (detector_request T txn_ts req clock r T')
  then have wf: "wf_map (wait_for_map T)" and ac: "acyclic (edges (wait_for_map T))" by simp_all
  show ?case
  proof (cases req)
    case (Detect w h k tag)
    have "txn_ts \<noteq> w" using detector_request(3) [rule_format, of h k tag] unfolding Detect by simp
    then obtain r0 T0 where "detect clock txn_ts w h k tag T = Some (Inr r0, T0)" "wf_map (wait_for_map T0)" "acyclic (edges (wait_for_map T0))"
      by (rule detect_runs [OF wf ac detector_request(2), of w clock h k tag])
    then show ?thesis using detector_request(4) by (simp add: handle_detect_locally_def Detect)
  next
    case (CleanUpWaitFor w h)
    then have "T' = clean_up_wait_for txn_ts w h T" using detector_request(4) by (simp add: handle_detect_locally_def)
    then show ?thesis using clean_up_wait_for_ok [OF wf, of txn_ts w h] acyclic_subset [OF ac] by simp
  next
    case CleanUp
    then have T': "T' = clean_up txn_ts T" using detector_request(4) by (simp add: handle_detect_locally_def)
    have "edges (wait_for_map T') \<subseteq> edges (wait_for_map T)"
      by (auto simp: T' clean_up_def edges_def look_delete split: if_splits)
    then show ?thesis using wf_map_delete [OF wf] acyclic_subset [OF ac] by (simp add: T' clean_up_def)
  qed
next
  case (detector_change_role T)
  then show ?case by (simp add: clear_table_def wf_map_def edges_def look_def acyclic_def)
next
  case (detector_change_ttl T ttl)
  then show ?case by (simp add: reset_ttl_def)
qed

section \<open>Properties of the detector\<close>

text \<open>C9: Deadlock detection is exact and ends: in every table a detector goes through the graph of waits
  has no cycle, and a request is answered with a deadlock exactly when the transaction waited for
  reaches the waiting one through waits that have not expired; the reported chain of waits is then
  a closed cycle made of such waits and the requested one.  Otherwise the wait is recorded.\<close>

theorem deadlock_detection_exact:
  assumes "detector_reachable T" "txn_ts \<noteq> 0" "txn_ts \<noteq> lock_ts"
  shows "acyclic (edges (wait_for_map T)) \<and>
    (\<exists>r T'. handle_detect_locally clock txn_ts (Detect lock_ts h k tag) T = Some (Inr r, T') \<and>
       (r \<noteq> None \<longleftrightarrow> (lock_ts, txn_ts) \<in> (alive clock (dt_ttl T) (wait_for_map T))\<^sup>+) \<and>
       (r = None \<longrightarrow> (txn_ts, lock_ts) \<in> edges (wait_for_map T')) \<and>
       (\<forall>report. r = Some report \<longrightarrow>
          chain_ok (insert (txn_ts, lock_ts) (alive clock (dt_ttl T) (wait_for_map T))) lock_ts (dr_wait_chain report) lock_ts \<and>
          (\<exists>es e. dr_wait_chain report = es @ [e] \<and> es \<noteq> [] \<and> dr_deadlock_key_hash report = wfe_key_hash (last es))))"
proof
  have inv: "wf_map (wait_for_map T)" "acyclic (edges (wait_for_map T))" using detector_inv [OF assms(1)] by simp_all
  show "acyclic (edges (wait_for_map T))" by (rule inv(2))
  let ?E = "alive clock (dt_ttl T) (wait_for_map T)"
  obtain r T' where r: "detect clock txn_ts lock_ts h k tag T = Some (Inr r, T')"
    "r \<noteq> None \<longleftrightarrow> (lock_ts, txn_ts) \<in> ?E\<^sup>+" "r = None \<Longrightarrow> (txn_ts, lock_ts) \<in> edges (wait_for_map T')"
    "\<And>hash chain. r = Some (hash, chain) \<Longrightarrow> chain \<noteq> [] \<and> wfe_key_hash (last chain) = hash \<and> chain_ok ?E lock_ts chain txn_ts"
    by (rule detect_runs [OF inv assms(2,3), of clock h k tag]) metis
  have mono: "chain_ok E a es b \<Longrightarrow> E \<subseteq> E' \<Longrightarrow> chain_ok E' a es b" for E E' a es b
    by (induction es arbitrary: a) auto
  let ?last = "\<lparr> wfe_txn = txn_ts, wfe_wait_for_txn = lock_ts, wfe_key_hash = h, wfe_key = k, wfe_resource_group_tag = tag \<rparr>"
  let ?rep = "\<lambda>(hash, chain). \<lparr> dr_txn = txn_ts, dr_key = k, dr_lock_ts = lock_ts, dr_lock_hash = h,
     dr_deadlock_key_hash = hash, dr_wait_chain = chain @ [?last] \<rparr>"
  have eq: "handle_detect_locally clock txn_ts (Detect lock_ts h k tag) T = Some (Inr (map_option ?rep r), T')"
    by (simp add: handle_detect_locally_def r(1) Let_def)
  show "\<exists>r T'. handle_detect_locally clock txn_ts (Detect lock_ts h k tag) T = Some (Inr r, T') \<and>
       (r \<noteq> None \<longleftrightarrow> (lock_ts, txn_ts) \<in> ?E\<^sup>+) \<and> (r = None \<longrightarrow> (txn_ts, lock_ts) \<in> edges (wait_for_map T')) \<and>
       (\<forall>report. r = Some report \<longrightarrow> chain_ok (insert (txn_ts, lock_ts) ?E) lock_ts (dr_wait_chain report) lock_ts \<and>
          (\<exists>es e. dr_wait_chain report = es @ [e] \<and> es \<noteq> [] \<and> dr_deadlock_key_hash report = wfe_key_hash (last es)))"
  proof (cases r)
    case None
    then show ?thesis using eq r(2,3) by simp
  next
    case (Some x)
    obtain hash chain where x: "x = (hash, chain)" by (cases x)
    have c: "chain \<noteq> []" "wfe_key_hash (last chain) = hash" "chain_ok ?E lock_ts chain txn_ts"
      using r(4) [OF Some [unfolded x]] by simp_all
    have "chain_ok (insert (txn_ts, lock_ts) ?E) lock_ts chain txn_ts" by (rule mono [OF c(3)]) blast
    then have "chain_ok (insert (txn_ts, lock_ts) ?E) lock_ts (chain @ [?last]) lock_ts"
      unfolding chain_ok_snoc by simp
    then show ?thesis using eq r(2) c(1,2) by (simp add: Some x)
  qed
qed

text \<open>Transaction 2 waits for 1, and 1 asks to wait for 2.\<close>

definition one_wait :: detect_table where
  "one_wait = (DetectTable_new 0 1000)\<lparr>wait_for_map := [(2, [(1, Locks_new 1 7 [7] [] 0)])]\<rparr>"

lemma reach_one_wait: "detector_reachable one_wait"
proof (rule detector_request [where req = "Detect 1 7 [7] []" and txn_ts = 2 and clock = 0, OF detector_new])
  show "handle_detect_locally 0 2 (Detect 1 7 [7] []) (DetectTable_new 0 1000) = Some (Inr None, one_wait)"
    by (simp add: handle_detect_locally_def detect_def active_expire_def DetectTable_new_def ACTIVE_EXPIRE_THRESHOLD_def
        register_if_existed_def do_detect_def detect_loop.simps(2) register_def one_wait_def Let_def)
qed simp_all

theorem deadlock_detection_exact_witness:
  "\<exists>report T'. handle_detect_locally 5 1 (Detect 2 9 [9] []) one_wait = Some (Inr (Some report), T') \<and>
     chain_ok (insert (1, 2) (alive 5 (dt_ttl one_wait) (wait_for_map one_wait))) 2 (dr_wait_chain report) 2"
proof -
  have "(2, 1) \<in> alive 5 (dt_ttl one_wait) (wait_for_map one_wait)"
    by (simp add: alive_def look_def one_wait_def DetectTable_new_def is_expired_def Locks_new_def)
  then have "(2, 1) \<in> (alive 5 (dt_ttl one_wait) (wait_for_map one_wait))\<^sup>+" by blast
  moreover have "(1 :: ts) \<noteq> 0" "(1 :: ts) \<noteq> 2" by simp_all
  note deadlock_detection_exact [OF reach_one_wait this, of 5 9 "[9]" "[]"]
  ultimately show ?thesis by (elim conjE exE) auto
qed

end
