(* ===== verification/Spec2Isabelle.thy ===== *)
theory Spec2Isabelle
  imports Txn_Write Mvcc_Cursor_Reader Pessimistic_Lock Gc_Action Scheduler_Latches Deadlock_Detector
begin

text \<open>
  \<^bold>\<open>Verification of the transaction layer of TiKV.\<close>

  TiKV stores the versions of every key in three column families of an ordered key-value engine:
  \<^verbatim>\<open>lock\<close> (the lock of a transaction that has not committed yet), \<^verbatim>\<open>write\<close> (one record per commit or
  rollback, keyed by the key and the commit timestamp) and \<^verbatim>\<open>default\<close> (long values, keyed by the key
  and the start timestamp).  A transaction prewrites its keys, which checks for conflicts and writes
  locks, and then commits them, which replaces a lock by a write record; a pessimistic transaction
  locks its keys before it prewrites them.  Other transactions that meet a lock check the status of
  its owner and roll it back when it is dead.  A read at a timestamp looks for the newest record at
  or below it.  Garbage collection removes records that no read can reach any more.  The scheduler lets
  commands on the same keys run one after the other with latches, and a detector finds cycles of
  pessimistic transactions that wait for each other's locks.  This development
  models that layer from the encoding of bytes up to the actions on one key, with the latches and the
  detector, and proves it correct.  Paths are relative to the root of the repository.

  \<^bold>\<open>Theories and the code they model.\<close>

  \<^item> \<^verbatim>\<open>Prelude\<close>: machine integers, the result type of fallible code (\<^verbatim>\<open>res_bind\<close> is the question
    mark operator, \<^verbatim>\<open>st_bind\<close> the same with a state), the order of byte strings, shared collections
    of rules.
  \<^item> \<^verbatim>\<open>Codec_Number\<close>: \<^verbatim>\<open>components/tikv_util/src/codec/number.rs\<close> and
    \<^verbatim>\<open>components/codec/src/number.rs\<close>; fixed width integers in both orders and variable length
    integers, with the unchecked fast path of the decoder.
  \<^item> \<^verbatim>\<open>Codec_Bytes\<close>: \<^verbatim>\<open>components/tikv_util/src/codec/bytes.rs\<close>; the memcomparable encoding of
    keys, both decoders, the comparison of an encoding with a raw key, compact byte strings.
  \<^item> \<^verbatim>\<open>Txn_Types\<close>: \<^verbatim>\<open>components/txn_types/src/timestamp.rs\<close> and \<^verbatim>\<open>types.rs\<close>; timestamps, keys with
    a timestamp, mutations, old values, the pointer to the last change.
  \<^item> \<^verbatim>\<open>Txn_Lock\<close>, \<^verbatim>\<open>Txn_Write\<close>: \<^verbatim>\<open>components/txn_types/src/lock.rs\<close> and \<^verbatim>\<open>write.rs\<close>; the two kinds of
    records (\<^verbatim>\<open>Lock\<close> is the record \<^verbatim>\<open>lock\<close>, \<^verbatim>\<open>Write\<close> the record \<^verbatim>\<open>write_record\<close>) with
    their serialisers and parsers, the check of a read against a lock, the fence left by garbage
    collection.
  \<^item> \<^verbatim>\<open>Ordered_Map\<close>, \<^verbatim>\<open>Engine\<close>: the ordered map of the in memory engine and the interface of
    \<^verbatim>\<open>components/tikv_kv/src/lib.rs\<close> with \<^verbatim>\<open>btree_engine.rs\<close>: modifications, atomic batches,
    iterators.
  \<^item> \<^verbatim>\<open>Cursor\<close>: \<^verbatim>\<open>components/tikv_kv/src/cursor.rs\<close>; every movement of a cursor over any iterator.
  \<^item> \<^verbatim>\<open>Txn_Ext\<close>: \<^verbatim>\<open>components/raftstore/src/store/txn_ext.rs\<close>; the table of pessimistic locks kept
    in memory, its memory accounting and its split.
  \<^item> \<^verbatim>\<open>Mvcc_Store\<close>: the abstract view of an engine used by all specifications: of each key the
    function from commit timestamps to write records (\<^verbatim>\<open>versions\<close>), the lock (\<^verbatim>\<open>lock_of\<close>) and the
    values (\<^verbatim>\<open>value_of\<close>), for engines whose contents parse (\<^verbatim>\<open>wf_engine\<close>).
  \<^item> \<^verbatim>\<open>Mvcc_Reader\<close>: \<^verbatim>\<open>src/storage/mvcc/reader/reader.rs\<close>; the point reads of \<^verbatim>\<open>MvccReader\<close> and
    \<^verbatim>\<open>SnapshotReader\<close>, the search for the commit record of a transaction, old values.
  \<^item> \<^verbatim>\<open>Mvcc_Cursor_Reader\<close>: the same reads with the cursors the reader keeps between them.
  \<^item> \<^verbatim>\<open>Concurrency_Manager\<close>: \<^verbatim>\<open>components/concurrency_manager/src\<close>; the greatest timestamp of all
    reads with its limit and the table of memory locks.
  \<^item> \<^verbatim>\<open>Mvcc_Txn\<close>: \<^verbatim>\<open>src/storage/mvcc/txn.rs\<close>; the buffer of modifications of one command.
  \<^item> \<^verbatim>\<open>Txn_Status\<close>, \<^verbatim>\<open>Commit_Action\<close>, \<^verbatim>\<open>Prewrite_Action\<close>, \<^verbatim>\<open>Pessimistic_Lock\<close>, \<^verbatim>\<open>Gc_Action\<close>: the
    actions of \<^verbatim>\<open>src/storage/txn/actions\<close>: \<^verbatim>\<open>check_txn_status.rs\<close> and \<^verbatim>\<open>cleanup.rs\<close>; \<^verbatim>\<open>commit.rs\<close>;
    \<^verbatim>\<open>prewrite.rs\<close> with \<^verbatim>\<open>common.rs\<close> and \<^verbatim>\<open>check_data_constraint.rs\<close>;
    \<^verbatim>\<open>acquire_pessimistic_lock.rs\<close>; \<^verbatim>\<open>gc.rs\<close>.
  \<^item> \<^verbatim>\<open>Txn_Latch\<close>: \<^verbatim>\<open>src/storage/txn/latch.rs\<close>; the queue of a slot and the acquisition and release of
    the latches of a command.  \<^verbatim>\<open>Scheduler_Latches\<close>: how \<^verbatim>\<open>src/storage/txn/scheduler.rs\<close> uses them, as
    a step relation whose atomic steps are the visits of single slots by concurrent commands.  It has one
    part per function: \<^verbatim>\<open>schedule_command\<close> and \<^verbatim>\<open>sched_acquire\<close> (a new command and its call of
    \<^verbatim>\<open>acquire\<close>), \<^verbatim>\<open>acquire_lock_on_wakeup\<close>, \<^verbatim>\<open>release_latches\<close>, and of \<^verbatim>\<open>on_write_finished\<close> the end of a
    command (\<^verbatim>\<open>command_finished\<close>, by which the ends on errors and after reads release too) and the
    hand over of latches to a next command (\<^verbatim>\<open>hand_over_latches\<close>, \<^verbatim>\<open>schedule_next\<close>).  \<^verbatim>\<open>sched_work\<close> and
    \<^verbatim>\<open>sched_arrive\<close> join them.
  \<^item> \<^verbatim>\<open>Deadlock_Detector\<close>: \<^verbatim>\<open>src/server/lock_manager/deadlock.rs\<close>; the table of waits of the detector,
    the expiry of its entries, the search for a cycle and the chain it reports, and the handling of a
    request on the leader.

  \<^bold>\<open>How code becomes definitions.\<close>  Structs are records and enums datatypes.  Bytes are lists of
  8 bit words and \<^verbatim>\<open>u64\<close> values and timestamps are 64 bit words, so that arithmetic wraps as it does
  in a release build; \<^verbatim>\<open>next\<close> and \<^verbatim>\<open>prev\<close> of a timestamp, which assert, are partial.  A function that
  returns \<^verbatim>\<open>Result\<close> returns a sum with the error on the left, and every \<^verbatim>\<open>unwrap\<close>, \<^verbatim>\<open>assert\<close> and
  \<^verbatim>\<open>panic\<close> is an error constructor of its own (in the latches, \<^verbatim>\<open>None\<close>), so that a theorem that gives the result of a function
  also shows that it does not panic.  A function that changes the buffer or the concurrency manager
  takes the state and returns it.  An action runs on a snapshot with an empty buffer and its
  batch is written when it succeeds (\<^verbatim>\<open>run_action\<close>).  Loops are recursive functions with
  termination proofs; no fuel is used.  The one exception is the search of the detector for the chain of
  waits (\<^verbatim>\<open>wait_chain_loop\<close>), which need not end on an arbitrary table: there not returning is
  \<^verbatim>\<open>None\<close>, and it is shown to return on every table a detector goes through.

  \<^bold>\<open>Interfaces.\<close>  The locale \<^verbatim>\<open>ordered_map\<close> is the contract of a sorted map, \<^verbatim>\<open>kv_iterator\<close> that of an
  engine iterator, over which all cursor proofs are done, and \<^verbatim>\<open>key_action\<close> that of an action that touches one
  key.  Each is interpreted on the definitions that model the code.

  \<^bold>\<open>What is proved.\<close>

  \<^item> Codecs: round trips, decoders succeed exactly on encodings, the encoding keeps the order of keys,
    the unchecked reads stay in bounds, the optimised routines agree with the plain ones.
  \<^item> Records: parsing undoes serialising for locks and writes and the preallocated sizes suffice.
  \<^item> Cursors: moving near the position gives the answer of a seek, in both directions.
  \<^item> Reads: a point read returns the value of the newest data record at or below its timestamp; the
    reads over cursors refine those over the map; the search for a commit record meets its
    specification.
  \<^item> Actions: what prewrite, commit, cleanup, status checks and pessimistic locks write on every
    outcome and what a reader sees before and after; conflicts and rollbacks are detected with the
    exact errors; decisions are final; a reader that pushed a lock is never overtaken; async commit
    never commits below an announced read; garbage collection keeps all reads at or above the safe point.
  \<^item> Latches: in every interleaving, commands that are processed at the same time share no hash of a key,
    commands stand in the same order in all queues they share, no visit panics, and once no command
    arrives every run ends with all commands processed; the calls \<^verbatim>\<open>acquire\<close> and \<^verbatim>\<open>release\<close>, the
    latter also for expired commands and with latches kept for a next command, return and are runs of
    the steps; what \<^verbatim>\<open>release\<close> does to every queue and whom it wakes up.
  \<^item> Deadlock detection: the recorded waits never form a cycle, a request is answered with a deadlock
    exactly when it would close one, and the reported chain is such a cycle.

  \<^bold>\<open>Not modelled.\<close>  Metrics, statistics, logging and fault injection points have no effect on the
  results and are left out.  Threads are modelled for the latches only, slot by slot; elsewhere
  every method is one atomic step, and the in memory tables behind mutexes are plain values.
  Asynchronous callbacks, the commands of \<^verbatim>\<open>src/storage/txn/commands\<close> around the actions, the
  scanners, the point getter, the network, the configuration and the other components of the store
  are outside the development: the commands compose the modelled actions over the keys of a request
  and build its answer, and the rest is mostly input and output.  RocksDB and raft stand
  below the engine interface and are represented by the in memory engine.
\<close>

end
